(* ===== verification/Prelude.thy ===== *)
theory Prelude
  imports Complex_Main "HOL-Library.Word"
begin

text \<open>
  Shared vocabulary of the development: the machine-integer types, the errors a C++
  program can run into, the fallible-result plumbing, blocks of memory with bounds-checked
  copies, and runs of event-driven components with the contract (a locale) under which a
  component is shown never to fail.
\<close>

unbundle bit_operations_syntax

section \<open>Types\<close>

type_synonym u8 = "8 word"
type_synonym u16 = "16 word"
type_synonym u32 = "32 word"
type_synonym u64 = "64 word"

text \<open>
  What can go wrong: a copy past the end of a block, a read past it, the use of a null or
  moved-from buffer, \<^verbatim>\<open>std::abort\<close>, a failed \<^verbatim>\<open>FWS_ASSERT\<close>, a second \<^verbatim>\<open>fclose\<close> of the same
  stream, the use of a connection that has no state, signed overflow, the use of an object
  outside its lifetime, the conversion of a double to an integer type that does not hold it, and
  the return of a block to an allocator that has not given it out, or not with that size.
  \<open>BadAlloc\<close> and \<open>OutOfRange\<close> are the exceptions of those names. \<open>OutOfFuel\<close> is a recursion
  that was not followed to its end. \<open>Exited\<close> is not a fault: \<^verbatim>\<open>main\<close> returned that code.
\<close>

datatype c_error =
    BufferOverrun
  | OutOfBoundsRead
  | NullBuffer
  | Aborted
  | AssertFailed
  | DoubleClose
  | NoSuchSocket
  | SignedOverflow
  | DeadObject
  | BadConversion
  | BadFree
  | BadAlloc
  | OutOfRange
  | OutOfFuel
  | Exited int

type_synonym 'a result = "c_error + 'a"

section \<open>Words\<close>

lemma unat_u64_less [simp]: "unat (w :: u64) < 18446744073709551616"
  by (rule less_le_trans [OF unsigned_less]) simp

lemma unat_plus_of_nat:
  "unat (w :: u64) + k < 2 ^ 64 \<Longrightarrow> unat (w + of_nat k) = unat w + k"
  by (simp add: unat_word_ariths unat_of_nat)

lemma unat_minus_of_nat:
  assumes "k \<le> unat (w :: u64)"
  shows "unat (w - of_nat k) = unat w - k"
proof -
  have "w - of_nat k = of_nat (unat w - k)" using assms by (simp add: of_nat_diff)
  moreover have "unat w - k < 18446744073709551616"
    using unat_u64_less [of w] by (rule le_less_trans [OF diff_le_self])
  ultimately show ?thesis by (simp add: unat_of_nat)
qed

lemma unat_of_nat_small: "k < 2 ^ 64 \<Longrightarrow> unat (of_nat k :: u64) = k"
  by (simp add: unat_of_nat)

section \<open>Maps of connections\<close>

lemma card_dom_insert:
  "finite (dom m) \<Longrightarrow> m k = None \<Longrightarrow> int (card (dom (m(k \<mapsto> v)))) = int (card (dom m)) + 1"
  by (simp add: domIff)

lemma card_dom_delete:
  assumes "finite (dom m)" and "m k \<noteq> None"
  shows "int (card (dom (m(k := None)))) = int (card (dom m)) - 1"
proof -
  have "card (dom m) = Suc (card (dom m - {k}))"
    by (rule card.remove) (use assms in auto)
  then show ?thesis by simp
qed

text \<open>The sum of a measure over the connections of a map.\<close>

definition tally :: "('c \<Rightarrow> nat) \<Rightarrow> (nat \<rightharpoonup> 'c) \<Rightarrow> nat" where
  "tally g m = (\<Sum>i\<in>dom m. g (the (m i)))"

lemma tally_empty [simp]: "tally g Map.empty = 0"
  by (simp add: tally_def)

lemma tally_restrict:
  assumes "finite (dom m)" and "m i = Some d"
  shows "tally g m = g d + (\<Sum>j\<in>dom m - {i}. g (the (m j)))"
  using assms by (simp add: tally_def sum.remove [of "dom m" i] domI)

lemma tally_others:
  "(\<Sum>j\<in>dom m - {i}. g (the ((m(i := x)) j))) = (\<Sum>j\<in>dom m - {i}. g (the (m j)))"
  by (rule sum.cong) auto

lemma tally_insert:
  assumes "finite (dom m)" and "m i = None"
  shows "tally g (m(i \<mapsto> c)) = g c + tally g m"
proof -
  have "dom m - {i} = dom m" using assms(2) by auto
  then show ?thesis
    using tally_restrict [of "m(i \<mapsto> c)" i c g] tally_others [of g m i "Some c"] assms
    by (simp add: tally_def)
qed

lemma tally_update:
  assumes "finite (dom m)" and "m i = Some d"
  shows "tally g (m(i \<mapsto> c)) + g d = tally g m + g c"
  using tally_restrict [of "m(i \<mapsto> c)" i c g] tally_restrict [OF assms, of g]
    tally_others [of g m i "Some c"] assms by simp

lemma tally_delete:
  assumes "finite (dom m)" and "m i = Some d"
  shows "tally g (m(i := None)) + g d = tally g m"
  using tally_restrict [OF assms, of g] tally_others [of g m i None] by (simp add: tally_def)

lemma tally_member: "finite (dom m) \<Longrightarrow> m i = Some d \<Longrightarrow> g d \<le> tally g m"
  using tally_restrict [of m i d g] by simp

lemma tally_zero_iff:
  "finite (dom m) \<Longrightarrow> tally g m = 0 \<longleftrightarrow> (\<forall>i c. m i = Some c \<longrightarrow> g c = 0)"
  by (auto simp: tally_def dom_def)

section \<open>Fallible steps\<close>

fun bindE :: "'a result \<Rightarrow> ('a \<Rightarrow> 'b result) \<Rightarrow> 'b result" where
  "bindE (Inl e) f = Inl e"
| "bindE (Inr x) f = f x"

lemma bindE_eq_Inr: "bindE r f = Inr y \<longleftrightarrow> (\<exists>x. r = Inr x \<and> f x = Inr y)"
  by (cases r) auto

lemma bindE_eq_Inl: "bindE r f = Inl e \<longleftrightarrow> r = Inl e \<or> (\<exists>x. r = Inr x \<and> f x = Inl e)"
  by (cases r) auto

lemma bindE_assoc: "bindE (bindE r f) g = bindE r (\<lambda>x. bindE (f x) g)"
  by (cases r) auto

definition require :: "c_error \<Rightarrow> bool \<Rightarrow> unit result" where
  "require e b = (if b then Inr () else Inl e)"

lemma require_simps [simp]:
  "b \<Longrightarrow> require e b = Inr ()"
  "\<not> b \<Longrightarrow> require e b = Inl e"
  by (simp_all add: require_def)

lemma require_eq_Inr [simp]: "require e b = Inr u \<longleftrightarrow> b"
  by (simp add: require_def)

section \<open>Blocks of memory\<close>

definition slice :: "'a list \<Rightarrow> nat \<Rightarrow> nat \<Rightarrow> 'a list" where
  "slice xs off n = take n (drop off xs)"

lemma length_slice: "off + n \<le> length xs \<Longrightarrow> length (slice xs off n) = n"
  by (simp add: slice_def)

lemma slice_full [simp]: "slice xs 0 (length xs) = xs"
  by (simp add: slice_def)

lemma slice_zero [simp]: "slice xs off 0 = []"
  by (simp add: slice_def)

lemma slice_append:
  "slice xs off (m + n) = slice xs off m @ slice xs (off + m) n"
  by (simp add: slice_def take_add add.commute)

lemma take_slice: "take k (slice xs off n) = slice xs off (min k n)"
  by (simp add: slice_def)

lemma drop_slice: "drop k (slice xs off n) = slice xs (off + k) (n - k)"
  by (simp add: slice_def drop_take add.commute)

lemma slice_suffix: "slice xs k (length xs - k) = drop k xs"
  by (simp add: slice_def)

text \<open>
  \<^verbatim>\<open>memcpy(dst + off, src, |src|)\<close> into the block \<open>dst\<close>, and the read of \<open>n\<close> bytes at \<open>off\<close>;
  both are undefined behaviour past the end of the block, an error here.
\<close>

definition mem_write :: "'a list \<Rightarrow> nat \<Rightarrow> 'a list \<Rightarrow> 'a list result" where
  "mem_write dst off src =
     (if off + length src \<le> length dst
      then Inr (take off dst @ src @ drop (off + length src) dst)
      else Inl BufferOverrun)"

definition mem_read :: "'a list \<Rightarrow> nat \<Rightarrow> nat \<Rightarrow> 'a list result" where
  "mem_read xs off n =
     (if off + n \<le> length xs then Inr (slice xs off n) else Inl OutOfBoundsRead)"

lemma mem_write_ok:
  "off + length src \<le> length dst \<Longrightarrow>
   mem_write dst off src = Inr (take off dst @ src @ drop (off + length src) dst)"
  by (simp add: mem_write_def)

lemma mem_write_overrun:
  "length dst < off + length src \<Longrightarrow> mem_write dst off src = Inl BufferOverrun"
  by (simp add: mem_write_def)

lemma mem_read_ok: "off + n \<le> length xs \<Longrightarrow> mem_read xs off n = Inr (slice xs off n)"
  by (simp add: mem_read_def)

lemma mem_write_length:
  "mem_write dst off src = Inr dst' \<Longrightarrow> length dst' = length dst"
  by (auto simp: mem_write_def split: if_splits)

lemma slice_mem_write_append:
  assumes "mem_write dst off src = Inr dst'" and "start \<le> off"
  shows "slice dst' start (off - start + length src) = slice dst start (off - start) @ src"
  using assms by (auto simp: mem_write_def slice_def drop_take split: if_splits)

section \<open>Event-driven components\<close>

text \<open>
  A component is a step function from an event and a state to a new state or an error; a
  run stops at the first error. \<open>admissible\<close> says that the environment keeps its side of
  the interface along the run.
\<close>

fun run :: "('e \<Rightarrow> 's \<Rightarrow> 's result) \<Rightarrow> 'e list \<Rightarrow> 's \<Rightarrow> 's result" where
  "run step [] s = Inr s"
| "run step (e # es) s = bindE (step e s) (run step es)"

fun admissible ::
  "('e \<Rightarrow> 's \<Rightarrow> 's result) \<Rightarrow> ('s \<Rightarrow> 'e \<Rightarrow> bool) \<Rightarrow> 's \<Rightarrow> 'e list \<Rightarrow> bool" where
  "admissible step ok s [] = True"
| "admissible step ok s (e # es) =
     (ok s e \<and> (case step e s of Inl _ \<Rightarrow> True | Inr s' \<Rightarrow> admissible step ok s' es))"

lemma run_append: "run step (xs @ ys) s = bindE (run step xs s) (run step ys)"
proof (induction xs arbitrary: s)
  case Nil
  then show ?case by simp
next
  case (Cons x xs)
  then have "run step (xs @ ys) = (\<lambda>s. bindE (run step xs s) (run step ys))" by blast
  then show ?case by (simp add: bindE_assoc)
qed

lemma admissible_prefix: "admissible step ok s (xs @ ys) \<Longrightarrow> admissible step ok s xs"
  by (induction xs arbitrary: s) (auto split: sum.splits)

text \<open>
  A side condition on the events alone and one on the state split.
\<close>

lemma admissible_conj:
  "(\<And>e. e \<in> set es \<Longrightarrow> p e) \<Longrightarrow> admissible step q s es \<Longrightarrow>
   admissible step (\<lambda>s e. p e \<and> q s e) s es"
  by (induction es arbitrary: s) (auto split: sum.splits)

lemma admissible_mono:
  "(\<And>s e. p s e \<Longrightarrow> q s e) \<Longrightarrow> admissible step p s es \<Longrightarrow> admissible step q s es"
  by (induction es arbitrary: s) (auto split: sum.splits)

text \<open>
  The contract of a component: from a state that satisfies the invariant, an event the
  environment may send is handled without error and re-establishes the invariant.
\<close>

locale safe_machine =
  fixes step :: "'e \<Rightarrow> 's \<Rightarrow> 's result"
    and ok :: "'s \<Rightarrow> 'e \<Rightarrow> bool"
    and inv :: "'s \<Rightarrow> bool"
  assumes step_safe: "inv s \<Longrightarrow> ok s e \<Longrightarrow> \<exists>s'. step e s = Inr s' \<and> inv s'"
begin

lemma run_safe:
  "inv s \<Longrightarrow> admissible step ok s es \<Longrightarrow> \<exists>s'. run step es s = Inr s' \<and> inv s'"
proof (induction es arbitrary: s)
  case Nil
  then show ?case by simp
next
  case (Cons e es)
  then obtain s' where s': "step e s = Inr s'" and "inv s'"
    using step_safe by fastforce
  moreover from Cons.prems(2) s' have "admissible step ok s' es" by simp
  ultimately show ?case using Cons.IH by simp
qed

lemma run_inv:
  assumes "inv s" and "admissible step ok s es" and "run step es s = Inr s'"
  shows "inv s'"
  using run_safe [OF assms(1,2)] assms(3) by auto

lemma run_no_error:
  assumes "inv s" and "admissible step ok s es"
  shows "run step es s \<noteq> Inl err"
  using run_safe [OF assms] by auto

end

text \<open>
  A component that never fails: every event is admissible. Its runs always return.
\<close>

locale total_machine =
  fixes step :: "'e \<Rightarrow> 's \<Rightarrow> 's result"
    and inv :: "'s \<Rightarrow> bool"
  assumes step_total: "inv s \<Longrightarrow> \<exists>s'. step e s = Inr s' \<and> inv s'"

sublocale total_machine \<subseteq> safe_machine step "\<lambda>_ _. True" inv
  by unfold_locales (rule step_total)

context total_machine
begin

lemma admissible_all: "admissible step (\<lambda>_ _. True) s es"
  by (induction es arbitrary: s) (auto split: sum.split)

lemma run_total: "inv s \<Longrightarrow> \<exists>s'. run step es s = Inr s' \<and> inv s'"
  by (rule run_safe [OF _ admissible_all])

end

text \<open>
  A component against an abstract specification that is a total function on an abstract
  state: every step the environment may ask for is matched.
\<close>

locale simulation =
  fixes step :: "'e \<Rightarrow> 's \<Rightarrow> 's result"
    and ok :: "'s \<Rightarrow> 'e \<Rightarrow> bool"
    and spec_step :: "'e \<Rightarrow> 'a \<Rightarrow> 'a"
    and R :: "'s \<Rightarrow> 'a \<Rightarrow> bool"
  assumes step_simulates: "R s a \<Longrightarrow> ok s e \<Longrightarrow> \<exists>s'. step e s = Inr s' \<and> R s' (spec_step e a)"

sublocale simulation \<subseteq> safe_machine step ok "\<lambda>s. \<exists>a. R s a"
proof
  fix s e
  assume "\<exists>a. R s a" and "ok s e"
  then show "\<exists>s'. step e s = Inr s' \<and> (\<exists>a. R s' a)" using step_simulates by blast
qed

context simulation
begin

lemma run_simulates:
  "R s a \<Longrightarrow> admissible step ok s es \<Longrightarrow>
   \<exists>s'. run step es s = Inr s' \<and> R s' (fold spec_step es a)"
proof (induction es arbitrary: s a)
  case Nil
  then show ?case by simp
next
  case (Cons e es)
  then obtain s' where s': "step e s = Inr s'" "R s' (spec_step e a)"
    using step_simulates by fastforce
  moreover from Cons.prems(2) s'(1) have "admissible step ok s' es" by simp
  ultimately show ?case using Cons.IH by simp
qed

end

text \<open>
  A simulation whose steps use up a finite stock: its runs are no longer than the stock.
\<close>

locale dwindling = simulation +
  fixes stock :: "'s \<Rightarrow> 'a \<Rightarrow> nat"
  assumes step_shrinks: "R s a \<Longrightarrow> ok s e \<Longrightarrow> step e s = Inr s' \<Longrightarrow> stock s' (spec_step e a) < stock s a"

context dwindling
begin

lemma run_dwindles:
  "R s a \<Longrightarrow> admissible step ok s es \<Longrightarrow>
   \<exists>s'. run step es s = Inr s' \<and> R s' (fold spec_step es a) \<and> length es + stock s' (fold spec_step es a) \<le> stock s a"
proof (induction es arbitrary: s a)
  case Nil
  then show ?case by simp
next
  case (Cons e es)
  then have e: "ok s e" by simp
  obtain s' where s': "step e s = Inr s'" "R s' (spec_step e a)"
    using step_simulates [OF Cons.prems(1) e] by blast
  have "admissible step ok s' es" using Cons.prems(2) s'(1) by simp
  from Cons.IH [OF s'(2) this] obtain s'' where
      "run step es s' = Inr s''" "R s'' (fold spec_step es (spec_step e a))"
      "length es + stock s'' (fold spec_step es (spec_step e a)) \<le> stock s' (spec_step e a)"
    by blast
  with s'(1) step_shrinks [OF Cons.prems(1) e s'(1)] show ?case by (intro exI [of _ s'']) simp
qed

end

end
