(* ===== verification/Double.thy ===== *)
theory Double
  imports Prelude "HOL-Library.Log_Nat"
begin

text \<open>
  The binary64 arithmetic behind the throughput reports: a finite double is the rational
  it denotes, every operation rounds its exact result to 53 significant bits, ties to
  even, and division by zero gives an infinity or NaN. The exponent range is not
  modelled: the reports divide 64-bit integers by powers of ten and by an interval in
  seconds, so no result comes near the overflow or the subnormal threshold. The lemmas
  bound the relative error of one operation and of the quotients the reports compute.
\<close>

section \<open>Rounding\<close>

definition round_half_even :: "rat \<Rightarrow> int" where
  "round_half_even x =
     (let f = \<lfloor>x\<rfloor>; d = x - of_int f in
      if d < 1 / 2 then f
      else if 1 / 2 < d then f + 1
      else if even f then f else f + 1)"

lemma round_half_even_error: "\<bar>of_int (round_half_even x) - x\<bar> \<le> 1 / 2"
proof -
  have "of_int \<lfloor>x\<rfloor> \<le> x" and "x < of_int \<lfloor>x\<rfloor> + 1" by linarith+
  then show ?thesis
    unfolding round_half_even_def Let_def by (simp add: abs_if; linarith)
qed

text \<open>The exponent of a positive rational: \<open>\<lfloor>log 2 x\<rfloor>\<close>.\<close>

definition binade :: "rat \<Rightarrow> int" where
  "binade x =
     (let (p, q) = quotient_of x; k = bitlen p - bitlen q
      in if 2 powi k \<le> x then k else k - 1)"

lemma bitlen_powi_bounds:
  fixes n :: int
  assumes "0 < n"
  shows "(2::rat) powi (bitlen n - 1) \<le> of_int n" and "of_int n < (2::rat) powi (bitlen n)"
proof -
  have pos: "0 < bitlen n" using bitlen_nonneg [of n] bitlen_eq_zero_iff [of n] assms by linarith
  have "2 ^ nat (bitlen n - 1) \<le> n" and "n < 2 ^ nat (bitlen n)"
    using bitlen_bounds [OF assms] by simp_all
  then have "(of_int (2 ^ nat (bitlen n - 1)) :: rat) \<le> of_int n"
    and "(of_int n :: rat) < of_int (2 ^ nat (bitlen n))"
    by (simp_all only: of_int_le_iff of_int_less_iff)
  with pos show "(2::rat) powi (bitlen n - 1) \<le> of_int n" and "of_int n < (2::rat) powi (bitlen n)"
    by (simp_all add: power_int_def)
qed

lemma binade_bounds:
  assumes "0 < x"
  shows "2 powi binade x \<le> x" and "x < 2 powi (binade x + 1)"
proof -
  obtain p q where pq: "quotient_of x = (p, q)" by (cases "quotient_of x")
  have q: "0 < q" using quotient_of_denom_pos [OF pq] .
  have x: "x = of_int p / of_int q" using quotient_of_div [OF pq] .
  have p: "0 < p" using assms q by (simp add: x zero_less_divide_iff)
  let ?k = "bitlen p - bitlen q"
  have q': "(0::rat) < of_int q" using q by simp
  have "(2::rat) powi (?k - 1) * of_int q \<le> 2 powi (?k - 1) * 2 powi (bitlen q)"
    using bitlen_powi_bounds(2) [OF q] by (simp add: less_imp_le)
  also have "\<dots> = 2 powi (bitlen p - 1)" by (simp flip: power_int_add)
  also have "\<dots> \<le> of_int p" by (rule bitlen_powi_bounds(1) [OF p])
  finally have lower: "2 powi (?k - 1) \<le> x" using q' by (simp add: x field_simps)
  have "(of_int p :: rat) < 2 powi (bitlen p)" by (rule bitlen_powi_bounds(2) [OF p])
  also have "\<dots> = 2 powi (?k + 1) * 2 powi (bitlen q - 1)" by (simp flip: power_int_add)
  also have "\<dots> \<le> 2 powi (?k + 1) * of_int q"
    using bitlen_powi_bounds(1) [OF q] by simp
  finally have upper: "x < 2 powi (?k + 1)" using q' by (simp add: x field_simps)
  show "2 powi binade x \<le> x" and "x < 2 powi (binade x + 1)"
    using lower upper by (simp_all add: binade_def pq Let_def)
qed

definition rnd :: "rat \<Rightarrow> rat" where
  "rnd x =
     (if x = 0 then 0
      else let ulp = 2 powi (binade \<bar>x\<bar> - 52)
           in of_int (round_half_even (x / ulp)) * ulp)"

lemma rnd_zero [simp]: "rnd 0 = 0"
  by (simp add: rnd_def)

definition unit_roundoff :: rat where
  "unit_roundoff = 1 / 2 ^ 53"

lemma rnd_error: "\<bar>rnd x - x\<bar> \<le> unit_roundoff * \<bar>x\<bar>"
proof (cases "x = 0")
  case True
  then show ?thesis by simp
next
  case False
  define u where "u = (2::rat) powi (binade \<bar>x\<bar> - 52)"
  have u: "0 < u" by (simp add: u_def)
  have "rnd x - x = (of_int (round_half_even (x / u)) - x / u) * u"
    using False u by (simp add: rnd_def u_def [symmetric] Let_def left_diff_distrib)
  then have "\<bar>rnd x - x\<bar> = \<bar>of_int (round_half_even (x / u)) - x / u\<bar> * u"
    using u by (simp add: abs_mult)
  also have "\<dots> \<le> 1 / 2 * u"
    using round_half_even_error [of "x / u"] u by (intro mult_right_mono) simp_all
  also have "\<dots> = unit_roundoff * 2 powi (binade \<bar>x\<bar>)"
    by (simp add: u_def unit_roundoff_def power_int_diff)
  also have "\<dots> \<le> unit_roundoff * \<bar>x\<bar>"
    using binade_bounds(1) [of "\<bar>x\<bar>"] False by (simp add: unit_roundoff_def)
  finally show ?thesis .
qed

section \<open>Values and operations\<close>

text \<open>
  The zeros of a report come from integer counters, so there is no negative zero to keep
  apart.
\<close>

datatype dbl = Fin rat | PInf | NInf | NaN

definition double_of_int :: "int \<Rightarrow> dbl" where
  "double_of_int n = Fin (rnd (of_int n))"

definition double_of_u64 :: "u64 \<Rightarrow> dbl" where
  "double_of_u64 w = double_of_int (uint w)"

fun ddiv :: "dbl \<Rightarrow> dbl \<Rightarrow> dbl" where
  "ddiv (Fin a) (Fin b) =
     (if b \<noteq> 0 then Fin (rnd (a / b))
      else if a = 0 then NaN else if 0 < a then PInf else NInf)"
| "ddiv (Fin a) PInf = Fin 0"
| "ddiv (Fin a) NInf = Fin 0"
| "ddiv PInf (Fin b) = (if 0 \<le> b then PInf else NInf)"
| "ddiv NInf (Fin b) = (if 0 \<le> b then NInf else PInf)"
| "ddiv _ _ = NaN"

fun dadd :: "dbl \<Rightarrow> dbl \<Rightarrow> dbl" where
  "dadd (Fin a) (Fin b) = Fin (rnd (a + b))"
| "dadd PInf (Fin b) = PInf"
| "dadd (Fin a) PInf = PInf"
| "dadd NInf (Fin b) = NInf"
| "dadd (Fin a) NInf = NInf"
| "dadd PInf PInf = PInf"
| "dadd NInf NInf = NInf"
| "dadd _ _ = NaN"

section \<open>Relative error\<close>

definition approx :: "rat \<Rightarrow> rat \<Rightarrow> rat \<Rightarrow> bool" where
  "approx eps x y \<longleftrightarrow> \<bar>y - x\<bar> \<le> eps * \<bar>x\<bar>"

lemma approx_rnd: "approx unit_roundoff x (rnd x)"
  by (simp add: approx_def rnd_error)

lemma approx_mono: "approx a x y \<Longrightarrow> a \<le> b \<Longrightarrow> approx b x y"
  unfolding approx_def by (meson abs_ge_zero mult_right_mono order_trans)

lemma approx_trans:
  assumes "approx a x y" and "approx b y z" and "0 \<le> b"
  shows "approx (a + b + a * b) x z"
proof -
  have "\<bar>y\<bar> \<le> \<bar>x\<bar> + a * \<bar>x\<bar>" using assms(1) unfolding approx_def by linarith
  then have "b * \<bar>y\<bar> \<le> b * (\<bar>x\<bar> + a * \<bar>x\<bar>)" using assms(3) by (rule mult_left_mono)
  moreover have "\<bar>z - x\<bar> \<le> a * \<bar>x\<bar> + b * \<bar>y\<bar>" using assms(1,2) unfolding approx_def by linarith
  ultimately show ?thesis unfolding approx_def by (simp add: algebra_simps)
qed

lemma approx_divide:
  assumes x: "approx a x x'" and y: "approx b y y'" and "y \<noteq> 0" and b: "0 \<le> b" "b < 1" and a: "0 \<le> a"
  shows "y' \<noteq> 0" and "approx ((a + b) / (1 - b)) (x / y) (x' / y')"
proof -
  have low: "(1 - b) * \<bar>y\<bar> \<le> \<bar>y'\<bar>" using y unfolding approx_def by (simp add: algebra_simps; linarith)
  moreover have "0 < (1 - b) * \<bar>y\<bar>" using \<open>y \<noteq> 0\<close> b by simp
  ultimately show y': "y' \<noteq> 0" by auto
  have "\<bar>x' * y - x * y'\<bar> = \<bar>(x' - x) * y - x * (y' - y)\<bar>" by (simp add: algebra_simps)
  also have "\<dots> \<le> \<bar>x' - x\<bar> * \<bar>y\<bar> + \<bar>x\<bar> * \<bar>y' - y\<bar>"
    by (metis abs_mult abs_triangle_ineq4)
  also have "\<dots> \<le> (a * \<bar>x\<bar>) * \<bar>y\<bar> + \<bar>x\<bar> * (b * \<bar>y\<bar>)"
    using x y unfolding approx_def by (intro add_mono mult_left_mono mult_right_mono) simp_all
  finally have num: "\<bar>x' * y - x * y'\<bar> \<le> (a + b) * (\<bar>x\<bar> * \<bar>y\<bar>)" by (simp add: algebra_simps)
  have "x' / y' - x / y = (x' * y - x * y') / (y * y')"
    using y' \<open>y \<noteq> 0\<close> by (simp add: field_simps)
  then have "\<bar>x' / y' - x / y\<bar> = \<bar>x' * y - x * y'\<bar> / (\<bar>y\<bar> * \<bar>y'\<bar>)"
    by (simp add: abs_mult)
  also have "\<dots> \<le> ((a + b) * (\<bar>x\<bar> * \<bar>y\<bar>)) / (\<bar>y\<bar> * ((1 - b) * \<bar>y\<bar>))"
    using num low b a \<open>y \<noteq> 0\<close> by (intro frac_le mult_left_mono) (simp_all add: mult_pos_pos)
  also have "\<dots> = (a + b) / (1 - b) * \<bar>x / y\<bar>"
    using \<open>y \<noteq> 0\<close> b by (simp add: field_simps)
  finally show "approx ((a + b) / (1 - b)) (x / y) (x' / y')" by (simp add: approx_def)
qed

lemma approx_add_nonneg:
  assumes "approx a x x'" and "approx a y y'" and "0 \<le> x" and "0 \<le> y"
  shows "approx a (x + y) (x' + y')"
  using assms unfolding approx_def by (simp add: algebra_simps; linarith)

text \<open>
  The shape of every figure of a report: an integer over \<open>10\<^sup>6\<close> over an interval that is
  itself an integer over \<open>10\<^sup>9\<close>, with a rounding at each of the five steps.
\<close>

definition rate :: "dbl \<Rightarrow> dbl \<Rightarrow> dbl" where
  "rate amount interval_sec = ddiv (ddiv amount (Fin 1000000)) interval_sec"

definition interval_seconds :: "int \<Rightarrow> dbl" where
  "interval_seconds ns = ddiv (double_of_int ns) (Fin 1000000000)"

lemma approx_scaled:
  assumes "c \<noteq> 0"
  shows "approx (3 * unit_roundoff) (of_int n / c) (rnd (rnd (of_int n) / c))"
proof -
  have "approx unit_roundoff (of_int n / c) (rnd (of_int n) / c)"
    using approx_rnd [of "of_int n"] assms
    by (simp add: approx_def diff_divide_distrib [symmetric] divide_right_mono)
  from approx_trans [OF this approx_rnd] show ?thesis
    by (rule approx_mono) (simp_all add: unit_roundoff_def)
qed

lemma rate_approx:
  assumes "ns \<noteq> 0"
  shows "\<exists>v. rate (double_of_int n) (interval_seconds ns) = Fin v \<and>
             approx (8 * unit_roundoff) (of_int n / 10 ^ 6 / (of_int ns / 10 ^ 9)) v"
proof -
  let ?num = "rnd (rnd (of_int n) / 1000000)" and ?den = "rnd (rnd (of_int ns) / 1000000000)"
  have num: "approx (3 * unit_roundoff) (of_int n / 10 ^ 6) ?num"
    using approx_scaled [of "10 ^ 6" n] by simp
  have den: "approx (3 * unit_roundoff) (of_int ns / 10 ^ 9) ?den"
    using approx_scaled [of "10 ^ 9" ns] by simp
  have "?den \<noteq> 0"
    and "approx ((3 * unit_roundoff + 3 * unit_roundoff) / (1 - 3 * unit_roundoff))
           (of_int n / 10 ^ 6 / (of_int ns / 10 ^ 9)) (?num / ?den)"
    using approx_divide [OF num den] assms by (simp_all add: unit_roundoff_def)
  from approx_trans [OF this(2) approx_rnd]
  have "approx (8 * unit_roundoff) (of_int n / 10 ^ 6 / (of_int ns / 10 ^ 9)) (rnd (?num / ?den))"
    by (rule approx_mono) (simp_all add: unit_roundoff_def)
  then show ?thesis
    using \<open>?den \<noteq> 0\<close> by (simp add: rate_def interval_seconds_def double_of_int_def)
qed

lemma dadd_approx_nonneg:
  assumes "approx a x v" and "approx a y w" and "0 \<le> x" and "0 \<le> y" and "0 \<le> a"
  shows "\<exists>s. dadd (Fin v) (Fin w) = Fin s \<and> approx (a + unit_roundoff + a * unit_roundoff) (x + y) s"
  using approx_trans [OF approx_add_nonneg [OF assms(1-4)] approx_rnd]
  by (simp add: unit_roundoff_def)

end
