(* ===== verification/Stats.thy ===== *)
theory Stats
  imports Double
begin

text \<open>
  The interval statistics every server keeps: four 64-bit counters and the start of the
  interval, and \<^verbatim>\<open>CountStats\<close> / \<^verbatim>\<open>count_stats\<close>, which is called after a message has been
  echoed and, when its gate opens, prints a report of the interval and starts the next
  one. The four servers differ in the gate and in the last columns of the report. The
  locales state what a server relies on: nothing happens while the gate is shut, and an
  opening moves the whole of the counters into the report.
\<close>

section \<open>State\<close>

text \<open>
  The globals of the C programs, the members of the flashws server's \<^verbatim>\<open>Context\<close>. The start
  of the interval is an \<^verbatim>\<open>int64_t\<close> of nanoseconds.
\<close>

record stats =
  last_interval_send_bytes :: u64
  last_interval_recv_bytes :: u64
  last_interval_recv_msg_cnt :: u64
  last_interval_send_msg_cnt :: u64
  interval_start_ns :: int

definition init_stats :: stats where
  "init_stats =
     \<lparr>last_interval_send_bytes = 0, last_interval_recv_bytes = 0,
      last_interval_recv_msg_cnt = 0, last_interval_send_msg_cnt = 0, interval_start_ns = 0\<rparr>"

text \<open>The places where the code reads the clock; a clock gives the reading of each.\<close>

datatype clock_site = AtFirstMessage | AtReport | AtRestart

type_synonym clock = "clock_site \<Rightarrow> int"

section \<open>Reports\<close>

text \<open>
  What one opening of the gate prints: the operands (the counters and the length of the
  interval), the four figures of the CSV row, the two sums of the console line, and the
  columns that only one server has.
\<close>

record 'x report =
  rep_interval_ns :: int
  rep_recv_bytes :: u64
  rep_send_bytes :: u64
  rep_recv_msgs :: u64
  rep_send_msgs :: u64
  recv_throughput_mbps :: dbl
  send_throughput_mbps :: dbl
  recv_mm_msg_per_sec :: dbl
  send_mm_msg_per_sec :: dbl
  rep_goodput_mbps :: dbl
  rep_mm_msg_per_sec :: dbl
  rep_columns :: 'x

definition BITS_PER_BYTE :: u64 where
  "BITS_PER_BYTE = 8"

text \<open>
  \<^verbatim>\<open>last_interval_recv_bytes * BITS_PER_BYTE\<close> multiplies in \<^verbatim>\<open>uint64_t\<close>, and wraps.
\<close>

definition interval_report :: "'x \<Rightarrow> int \<Rightarrow> 'a stats_scheme \<Rightarrow> 'x report" where
  "interval_report columns now_ns st =
     (let interval_ns = now_ns - interval_start_ns st;
          interval_sec = interval_seconds interval_ns;
          recv_mbps = rate (double_of_u64 (last_interval_recv_bytes st * BITS_PER_BYTE)) interval_sec;
          send_mbps = rate (double_of_u64 (last_interval_send_bytes st * BITS_PER_BYTE)) interval_sec;
          recv_mps = rate (double_of_u64 (last_interval_recv_msg_cnt st)) interval_sec;
          send_mps = rate (double_of_u64 (last_interval_send_msg_cnt st)) interval_sec
      in \<lparr>rep_interval_ns = interval_ns,
          rep_recv_bytes = last_interval_recv_bytes st,
          rep_send_bytes = last_interval_send_bytes st,
          rep_recv_msgs = last_interval_recv_msg_cnt st,
          rep_send_msgs = last_interval_send_msg_cnt st,
          recv_throughput_mbps = recv_mbps, send_throughput_mbps = send_mbps,
          recv_mm_msg_per_sec = recv_mps, send_mm_msg_per_sec = send_mps,
          rep_goodput_mbps = dadd recv_mbps send_mbps,
          rep_mm_msg_per_sec = dadd recv_mps send_mps,
          rep_columns = columns\<rparr>)"

definition reset_interval :: "int \<Rightarrow> 'a stats_scheme \<Rightarrow> 'a stats_scheme" where
  "reset_interval now_ns st =
     st\<lparr>last_interval_recv_bytes := 0, last_interval_send_bytes := 0,
        last_interval_recv_msg_cnt := 0, last_interval_send_msg_cnt := 0,
        interval_start_ns := now_ns\<rparr>"

lemma interval_report_operands [simp]:
  "rep_interval_ns (interval_report x now st) = now - interval_start_ns st"
  "rep_recv_bytes (interval_report x now st) = last_interval_recv_bytes st"
  "rep_send_bytes (interval_report x now st) = last_interval_send_bytes st"
  "rep_recv_msgs (interval_report x now st) = last_interval_recv_msg_cnt st"
  "rep_send_msgs (interval_report x now st) = last_interval_send_msg_cnt st"
  "rep_columns (interval_report x now st) = x"
  by (simp_all add: interval_report_def Let_def)

lemma reset_interval_fields [simp]:
  "last_interval_recv_bytes (reset_interval now st) = 0"
  "last_interval_send_bytes (reset_interval now st) = 0"
  "last_interval_recv_msg_cnt (reset_interval now st) = 0"
  "last_interval_send_msg_cnt (reset_interval now st) = 0"
  "interval_start_ns (reset_interval now st) = now"
  "stats.more (reset_interval now st) = stats.more st"
  by (simp_all add: reset_interval_def)

text \<open>
  The steps with which the message-based servers count a message in and its echo out. The
  interval starts at the first message ever, when the start is still 0.
\<close>

definition start_interval :: "int \<Rightarrow> 'a stats_scheme \<Rightarrow> 'a stats_scheme" where
  "start_interval now_ns st =
     (if interval_start_ns st = 0 then st\<lparr>interval_start_ns := now_ns\<rparr> else st)"

definition count_recv_bytes :: "nat \<Rightarrow> 'a stats_scheme \<Rightarrow> 'a stats_scheme" where
  "count_recv_bytes n st =
     st\<lparr>last_interval_recv_bytes := last_interval_recv_bytes st + of_nat n\<rparr>"

definition count_recv_msg :: "'a stats_scheme \<Rightarrow> 'a stats_scheme" where
  "count_recv_msg st = st\<lparr>last_interval_recv_msg_cnt := last_interval_recv_msg_cnt st + 1\<rparr>"

definition count_sent :: "nat \<Rightarrow> 'a stats_scheme \<Rightarrow> 'a stats_scheme" where
  "count_sent n st =
     st\<lparr>last_interval_send_bytes := last_interval_send_bytes st + of_nat n,
        last_interval_send_msg_cnt := last_interval_send_msg_cnt st + 1\<rparr>"

lemma start_interval_counters [simp]:
  "last_interval_recv_bytes (start_interval t st) = last_interval_recv_bytes st"
  "last_interval_send_bytes (start_interval t st) = last_interval_send_bytes st"
  "last_interval_recv_msg_cnt (start_interval t st) = last_interval_recv_msg_cnt st"
  "last_interval_send_msg_cnt (start_interval t st) = last_interval_send_msg_cnt st"
  "stats.more (start_interval t st) = stats.more st"
  by (simp_all add: start_interval_def)

lemmas counting_defs = count_recv_bytes_def count_recv_msg_def count_sent_def

text \<open>
  What has been counted since the start: what the reports took plus what the counters
  still hold, in \<^verbatim>\<open>uint64_t\<close> arithmetic.
\<close>

definition total_recv_bytes :: "'a stats_scheme \<Rightarrow> 'x report list \<Rightarrow> u64" where
  "total_recv_bytes st reps = sum_list (map rep_recv_bytes reps) + last_interval_recv_bytes st"

definition total_send_bytes :: "'a stats_scheme \<Rightarrow> 'x report list \<Rightarrow> u64" where
  "total_send_bytes st reps = sum_list (map rep_send_bytes reps) + last_interval_send_bytes st"

definition total_recv_msgs :: "'a stats_scheme \<Rightarrow> 'x report list \<Rightarrow> u64" where
  "total_recv_msgs st reps = sum_list (map rep_recv_msgs reps) + last_interval_recv_msg_cnt st"

definition total_send_msgs :: "'a stats_scheme \<Rightarrow> 'x report list \<Rightarrow> u64" where
  "total_send_msgs st reps = sum_list (map rep_send_msgs reps) + last_interval_send_msg_cnt st"

lemmas total_defs =
  total_recv_bytes_def total_send_bytes_def total_recv_msgs_def total_send_msgs_def

lemma totals_append:
  "total_recv_bytes st (rs @ qs) = sum_list (map rep_recv_bytes rs) + total_recv_bytes st qs"
  "total_send_bytes st (rs @ qs) = sum_list (map rep_send_bytes rs) + total_send_bytes st qs"
  "total_recv_msgs st (rs @ qs) = sum_list (map rep_recv_msgs rs) + total_recv_msgs st qs"
  "total_send_msgs st (rs @ qs) = sum_list (map rep_send_msgs rs) + total_send_msgs st qs"
  by (simp_all add: total_defs)

section \<open>Gates\<close>

text \<open>
  \<^verbatim>\<open>(cnt & mask) || cnt == 0\<close> is the condition under which three of the four servers return
  early; the period is \<^verbatim>\<open>mask + 1\<close>.
\<close>

definition gate_mask :: "u64 \<Rightarrow> 'a stats_scheme \<Rightarrow> bool" where
  "gate_mask low st \<longleftrightarrow>
     \<not> (last_interval_recv_msg_cnt st AND low \<noteq> 0 \<or> last_interval_recv_msg_cnt st = 0)"

text \<open>
  The websocketpp server also reports when the interval has received more than
  \<^verbatim>\<open>MAX_DATA_LEN * 4096UL\<close> bytes, a product in \<^verbatim>\<open>size_t\<close>.
\<close>

definition gate_mask_or_bytes :: "u64 \<Rightarrow> u64 \<Rightarrow> 'a stats_scheme \<Rightarrow> bool" where
  "gate_mask_or_bytes low max_data_len st \<longleftrightarrow>
     \<not> ((last_interval_recv_msg_cnt st AND low \<noteq> 0
          \<and> last_interval_recv_bytes st \<le> max_data_len * 4096)
         \<or> last_interval_recv_msg_cnt st = 0)"

lemma and_mask_iff: "(w :: u64) AND mask n = 0 \<longleftrightarrow> unat w mod 2 ^ n = 0"
proof -
  have "w AND mask n = 0 \<longleftrightarrow> unat (take_bit n w) = 0"
    by (simp add: take_bit_eq_mask unat_eq_zero)
  also have "unat (take_bit n w) = take_bit n (unat w)" by (rule unsigned_take_bit_eq)
  also have "\<dots> = unat w mod 2 ^ n" by (rule take_bit_eq_mod)
  finally show ?thesis .
qed

section \<open>The contract of a reporter\<close>

locale reporter =
  fixes count_stats :: "clock \<Rightarrow> 'a stats_scheme \<Rightarrow> 'a stats_scheme \<times> 'x report list"
    and gate :: "'a stats_scheme \<Rightarrow> bool"
  assumes quiet: "\<not> gate st \<Longrightarrow> count_stats now st = (st, [])"
    and fires: "gate st \<Longrightarrow> \<exists>x. count_stats now st =
                  (reset_interval (now AtRestart) st, [interval_report x (now AtReport) st])"
    and gate_needs_msgs: "gate st \<Longrightarrow> last_interval_recv_msg_cnt st \<noteq> 0"
begin

text \<open>Nothing is lost and nothing is counted twice by a report.\<close>

lemma conserves:
  assumes "count_stats now st = (st', reps)"
  shows "total_recv_bytes st' reps = last_interval_recv_bytes st"
    and "total_send_bytes st' reps = last_interval_send_bytes st"
    and "total_recv_msgs st' reps = last_interval_recv_msg_cnt st"
    and "total_send_msgs st' reps = last_interval_send_msg_cnt st"
  using assms quiet [of st now] fires [of st now] by (cases "gate st"; auto simp: total_defs)+

lemma frame: "count_stats now st = (st', reps) \<Longrightarrow> stats.more st' = stats.more st"
  using quiet [of st now] fires [of st now] by (cases "gate st") auto

lemma shut_after: "\<not> gate (fst (count_stats now st))"
proof (cases "gate st")
  case True
  then have "last_interval_recv_msg_cnt (fst (count_stats now st)) = 0" using fires [of st now] by auto
  then show ?thesis using gate_needs_msgs by blast
qed (simp add: quiet)

lemma reports_iff_gate: "snd (count_stats now st) \<noteq> [] \<longleftrightarrow> gate st"
  using quiet [of st now] fires [of st now] by (cases "gate st") auto

lemma at_most_one: "length (snd (count_stats now st)) \<le> 1"
  using quiet [of st now] fires [of st now] by (cases "gate st") auto

lemma report_cases:
  obtains (shut) "\<not> gate st" "count_stats now st = (st, [])"
  | (opened) x where "gate st" "count_stats now st =
      (reset_interval (now AtRestart) st, [interval_report x (now AtReport) st])"
  using quiet [of st now] fires [of st now] by blast

end

text \<open>
  A reporter whose gate opens at every \<open>period\<close>-th message: a counter that goes up by
  one between calls never reaches the period, and the number of reports is the number of
  whole periods.
\<close>

locale periodic_reporter = reporter +
  fixes period :: nat
  assumes gate_period: "gate st \<longleftrightarrow>
            unat (last_interval_recv_msg_cnt st) mod period = 0 \<and> last_interval_recv_msg_cnt st \<noteq> 0"
    and period_pos: "0 < period"
    and period_small: "period < 2 ^ 64"
begin

lemma bump_and_count:
  assumes cnt: "unat (last_interval_recv_msg_cnt st) = c + 1" and c: "c < period"
    and step: "count_stats now st = (st', reps)"
  shows "unat (last_interval_recv_msg_cnt st') = (c + 1) mod period"
    and "length reps = (c + 1) div period"
proof -
  have "last_interval_recv_msg_cnt st \<noteq> 0" using cnt by auto
  then have gate: "gate st \<longleftrightarrow> c + 1 = period"
    using c by (auto simp: gate_period cnt mod_eq_0_iff_dvd dest: dvd_imp_le)
  show "unat (last_interval_recv_msg_cnt st') = (c + 1) mod period"
    and "length reps = (c + 1) div period"
    using c step cnt gate period_pos
    by (cases rule: report_cases [of st now]; cases "c + 1 = period"; auto)+
qed

text \<open>The \<open>n\<close>-th message counted leaves \<open>n mod period\<close> in the counter and \<open>n div period\<close> reports.\<close>

lemma tick:
  assumes cnt: "unat (last_interval_recv_msg_cnt st) = n mod period"
    and reps: "length reps = n div period"
    and st1: "last_interval_recv_msg_cnt st1 = last_interval_recv_msg_cnt st + 1"
    and step: "count_stats now st1 = (st2, new)"
  shows "unat (last_interval_recv_msg_cnt st2) = Suc n mod period"
    and "length (reps @ new) = Suc n div period"
proof -
  have c: "n mod period < period" using period_pos by simp
  have "unat (last_interval_recv_msg_cnt st1) = n mod period + 1"
    using st1 cnt c period_small unat_plus_of_nat [of "last_interval_recv_msg_cnt st" 1] by simp
  note b = bump_and_count [OF this c step]
  show "unat (last_interval_recv_msg_cnt st2) = Suc n mod period"
    using b(1) by (simp add: mod_Suc_eq)
  have "Suc n = (n mod period + 1) + period * (n div period)" by simp
  then have "Suc n div period = n div period + (n mod period + 1) div period"
    using period_pos by (metis div_mult_self2 less_numeral_extra(3) add.commute)
  then show "length (reps @ new) = Suc n div period" using reps b(2) by simp
qed

end

section \<open>Property: the figures of a report\<close>

definition exact_rate :: "int \<Rightarrow> int \<Rightarrow> int \<Rightarrow> rat" where
  "exact_rate m n ns =
     of_int m / 10 ^ 6 / (of_int ns / 10 ^ 9) + of_int n / 10 ^ 6 / (of_int ns / 10 ^ 9)"

lemma rate_sum_approx:
  assumes "0 < ns" and "0 \<le> m" and "0 \<le> n"
  shows "\<exists>v. dadd (rate (double_of_int m) (interval_seconds ns)) (rate (double_of_int n) (interval_seconds ns))
             = Fin v \<and> approx (1 / 2 ^ 49) (exact_rate m n ns) v"
proof -
  have ns: "ns \<noteq> 0" using assms(1) by simp
  obtain v w where v: "rate (double_of_int m) (interval_seconds ns) = Fin v"
      "approx (8 * unit_roundoff) (of_int m / 10 ^ 6 / (of_int ns / 10 ^ 9)) v"
    and w: "rate (double_of_int n) (interval_seconds ns) = Fin w"
      "approx (8 * unit_roundoff) (of_int n / 10 ^ 6 / (of_int ns / 10 ^ 9)) w"
    using rate_approx [OF ns, of m] rate_approx [OF ns, of n] by blast
  from dadd_approx_nonneg [OF v(2) w(2)] assms obtain s where
      "dadd (Fin v) (Fin w) = Fin s"
      "approx (8 * unit_roundoff + unit_roundoff + 8 * unit_roundoff * unit_roundoff) (exact_rate m n ns) s"
    by (auto simp: unit_roundoff_def exact_rate_def)
  moreover have "8 * unit_roundoff + unit_roundoff + 8 * unit_roundoff * unit_roundoff \<le> 1 / 2 ^ 49"
    by (simp add: unit_roundoff_def)
  ultimately show ?thesis using v(1) w(1) approx_mono by auto
qed

lemma uint_bits:
  fixes w :: u64
  shows "uint w * 8 < 2 ^ 64 \<Longrightarrow> uint (w * BITS_PER_BYTE) = 8 * uint w"
  by (simp add: BITS_PER_BYTE_def uint_word_ariths)

text \<open>
  C24. When the interval has a positive length and the bit counts do not wrap, the goodput a
  report prints is the exact rate, bits received plus bits sent over \<open>10\<^sup>6\<close> over the interval
  in seconds, up to a relative error of \<open>2\<^sup>-\<^sup>4\<^sup>9\<close>, and so is its message rate.
\<close>

theorem report_figures_accurate:
  assumes "interval_start_ns st < now_ns"
    and "uint (last_interval_recv_bytes st) * 8 < 2 ^ 64"
    and "uint (last_interval_send_bytes st) * 8 < 2 ^ 64"
  shows "\<exists>goodput msgs.
       rep_goodput_mbps (interval_report columns now_ns st) = Fin goodput
     \<and> rep_mm_msg_per_sec (interval_report columns now_ns st) = Fin msgs
     \<and> approx (1 / 2 ^ 49)
          (exact_rate (8 * uint (last_interval_recv_bytes st)) (8 * uint (last_interval_send_bytes st))
             (now_ns - interval_start_ns st)) goodput
     \<and> approx (1 / 2 ^ 49)
          (exact_rate (uint (last_interval_recv_msg_cnt st)) (uint (last_interval_send_msg_cnt st))
             (now_ns - interval_start_ns st)) msgs"
proof -
  let ?ns = "now_ns - interval_start_ns st"
  have pos: "0 < ?ns" using assms(1) by simp
  show ?thesis
    using rate_sum_approx [OF pos, of "8 * uint (last_interval_recv_bytes st)"
        "8 * uint (last_interval_send_bytes st)"]
      rate_sum_approx [OF pos, of "uint (last_interval_recv_msg_cnt st)"
        "uint (last_interval_send_msg_cnt st)"]
    by (auto simp: interval_report_def Let_def double_of_u64_def uint_bits [OF assms(2)]
        uint_bits [OF assms(3)])
qed

definition sample_stats :: stats where
  "sample_stats =
     \<lparr>last_interval_send_bytes = 4194304, last_interval_recv_bytes = 4194304,
      last_interval_recv_msg_cnt = 65536, last_interval_send_msg_cnt = 65536,
      interval_start_ns = 1000\<rparr>"

theorem report_figures_accurate_witness:
  "\<exists>goodput msgs.
       rep_goodput_mbps (interval_report () 1235567 sample_stats) = Fin goodput
     \<and> rep_mm_msg_per_sec (interval_report () 1235567 sample_stats) = Fin msgs
     \<and> approx (1 / 2 ^ 49) (exact_rate 33554432 33554432 1234567) goodput
     \<and> approx (1 / 2 ^ 49) (exact_rate 65536 65536 1234567) msgs"
  using report_figures_accurate [of sample_stats 1235567 "()"]
  by (simp add: sample_stats_def)

end
