(* ===== verification/UsEcho.thy ===== *)
theory UsEcho
  imports Stats
begin

text \<open>
  The uSockets TCP/TLS echo server, \<^verbatim>\<open>src/usockets-tcp/echo_server.cpp\<close>: the per-socket
  extension with its 64-byte buffer, the handlers the library calls, \<^verbatim>\<open>CountStats\<close>, and
  the event loop as a run of handler calls.

  The library is not in the repository. What a handler gets from it is a parameter of the
  event: the bytes received, the memory of a fresh extension, the clock, and the value
  \<^verbatim>\<open>us_socket_write\<close> returns for the region it is offered (\<open>us_write\<close>). Documented and
  assumed of the last one where a theorem needs it (\<open>write_contract\<close>): it accepts a prefix
  of the region and returns its length.
\<close>

section \<open>State\<close>

definition MAX_DATA_LEN :: nat where
  "MAX_DATA_LEN = 64"

record buffer =
  buf_data :: "u8 list"
  buf_start_pos :: u64
  buf_size :: u64

record echo_socket =
  es_buf :: buffer
  active_conns_in_ctx :: int

text \<open>
  The globals of the file. The two connection counters are \<^verbatim>\<open>int64_t\<close>; they are integers
  here, and an invariant below bounds them by the number of open sockets.
\<close>

record us_globals = stats +
  active_connections :: int
  dup_act_conns :: int

type_synonym us_report = "(int \<times> int) report"

type_synonym us_outcome = "us_globals \<times> echo_socket \<times> u8 list \<times> us_report list"

section \<open>Handlers\<close>

definition CountStats :: "clock \<Rightarrow> us_globals \<Rightarrow> us_globals \<times> us_report list" where
  "CountStats now g =
     (if last_interval_recv_msg_cnt g AND 0xffff \<noteq> 0 \<or> last_interval_recv_msg_cnt g = 0
      then (g, [])
      else (reset_interval (now AtRestart) g,
            [interval_report (active_connections g, dup_act_conns g) (now AtReport) g]))"

text \<open>A region that a write was offered, and the bytes it took from the front.\<close>

definition accepted :: "int \<Rightarrow> u8 list \<Rightarrow> u8 list" where
  "accepted written region = take (nat written) region"

definition add_sent :: "int \<Rightarrow> us_globals \<Rightarrow> us_globals" where
  "add_sent written g =
     g\<lparr>last_interval_send_bytes := last_interval_send_bytes g + word_of_int written\<rparr>"

definition count_sent_msg :: "us_globals \<Rightarrow> us_globals" where
  "count_sent_msg g = g\<lparr>last_interval_send_msg_cnt := last_interval_send_msg_cnt g + 1\<rparr>"

text \<open>
  Continue writing the backlog. \<open>us_socket_write\<close> is handed \<open>size\<close> bytes at
  \<open>data + start_pos\<close>; they must lie in the buffer.
\<close>

definition on_echo_socket_writable ::
  "(u8 list \<Rightarrow> int) \<Rightarrow> clock \<Rightarrow> us_globals \<Rightarrow> echo_socket \<Rightarrow> us_outcome result" where
  "on_echo_socket_writable us_write now g es =
     (let b = es_buf es in
      bindE (mem_read (buf_data b) (unat (buf_start_pos b)) (unat (buf_size b))) (\<lambda>region.
        let written = us_write region;
            b = b\<lparr>buf_size := buf_size b - word_of_int written,
                  buf_start_pos := buf_start_pos b + word_of_int written\<rparr>;
            g = add_sent written g
        in if buf_size b = 0
           then (let (g, reps) = CountStats now (count_sent_msg g)
                 in Inr (g, es\<lparr>es_buf := b\<lparr>buf_start_pos := 0\<rparr>\<rparr>, accepted written region, reps))
           else Inr (g, es\<lparr>es_buf := b\<rparr>, accepted written region, [])))"

definition on_echo_socket_close :: "us_globals \<Rightarrow> echo_socket \<Rightarrow> us_globals \<times> echo_socket" where
  "on_echo_socket_close g es =
     (let conns = active_conns_in_ctx es - 1
      in (g\<lparr>active_connections := active_connections g - 1, dup_act_conns := conns\<rparr>,
          es\<lparr>active_conns_in_ctx := conns\<rparr>))"

text \<open>
  The commands a handler issues to the library without touching the extension.
\<close>

datatype us_command = UsShutdown | UsClose

definition on_echo_socket_end :: "us_command list" where
  "on_echo_socket_end = [UsShutdown, UsClose]"

definition on_echo_socket_timeout :: "us_command list" where
  "on_echo_socket_timeout = [UsClose]"

definition on_echo_socket_open :: "us_globals \<Rightarrow> echo_socket \<Rightarrow> us_globals \<times> echo_socket" where
  "on_echo_socket_open g es =
     (let es = es\<lparr>es_buf := (es_buf es)\<lparr>buf_start_pos := 0, buf_size := 0\<rparr>, active_conns_in_ctx := 0\<rparr>;
          conns = active_conns_in_ctx es + 1
      in (g\<lparr>dup_act_conns := conns, active_connections := active_connections g + 1\<rparr>,
          es\<lparr>active_conns_in_ctx := conns\<rparr>))"

text \<open>
  \<^verbatim>\<open>memcpy(es->buf.data, data + written, length - written)\<close>: outside \<open>0 \<le> written \<le> length\<close>
  the source or the converted length is out of range.
\<close>

definition unwritten_tail :: "int \<Rightarrow> u8 list \<Rightarrow> u8 list result" where
  "unwritten_tail written dat =
     (if 0 \<le> written \<and> written \<le> int (length dat)
      then Inr (drop (nat written) dat) else Inl BufferOverrun)"

text \<open>
  A whole message is written straight from the receive buffer and its unwritten tail is
  stored at the start of the socket's buffer; anything else is appended at \<open>data + size\<close>,
  and the buffer is written when it holds a whole message.
\<close>

definition on_echo_socket_data ::
  "(u8 list \<Rightarrow> int) \<Rightarrow> clock \<Rightarrow> u8 list \<Rightarrow> us_globals \<Rightarrow> echo_socket \<Rightarrow> us_outcome result" where
  "on_echo_socket_data us_write now dat g es =
     (let len = length dat;
          g = g\<lparr>last_interval_recv_bytes := last_interval_recv_bytes g + of_nat len\<rparr>;
          g = (if 0 < len
               then g\<lparr>last_interval_recv_msg_cnt := last_interval_recv_msg_cnt g + 1\<rparr> else g);
          b = es_buf es
      in if len = MAX_DATA_LEN
         then (let written = us_write dat;
                   g = add_sent written g
               in if written \<noteq> int len
                  then bindE (unwritten_tail written dat) (\<lambda>rest.
                       bindE (mem_write (buf_data b) 0 rest) (\<lambda>bytes.
                         Inr (g, es\<lparr>es_buf := b\<lparr>buf_data := bytes, buf_size := of_nat (length rest)\<rparr>\<rparr>,
                              accepted written dat, [])))
                  else (let (g, reps) = CountStats now (count_sent_msg g)
                        in Inr (g, es, accepted written dat, reps)))
         else bindE (mem_write (buf_data b) (unat (buf_size b)) dat) (\<lambda>bytes.
              let b = b\<lparr>buf_data := bytes, buf_size := buf_size b + of_nat len\<rparr>
              in if buf_size b = of_nat MAX_DATA_LEN
                 then bindE (mem_read bytes 0 (unat (buf_size b))) (\<lambda>region.
                      let written = us_write region;
                          b = b\<lparr>buf_start_pos := buf_start_pos b + word_of_int written,
                                buf_size := buf_size b - word_of_int written\<rparr>;
                          g = add_sent written g
                      in if buf_size b = 0
                         then (let (g, reps) = CountStats now (count_sent_msg g)
                               in Inr (g, es\<lparr>es_buf := b\<lparr>buf_start_pos := 0\<rparr>\<rparr>,
                                       accepted written region, reps))
                         else Inr (g, es\<lparr>es_buf := b\<rparr>, accepted written region, []))
                 else Inr (g, es\<lparr>es_buf := b\<rparr>, [], [])))"

section \<open>The event loop\<close>

text \<open>
  The server with its sockets. \<open>us_rx\<close> and \<open>us_tx\<close> are what a socket has received and what
  the library has accepted from it since it was opened; the totals count over all sockets,
  closed ones included: bytes and non-empty deliveries received, bytes accepted, and
  messages echoed in full. They are the observation the properties are about, no
  handler reads them.
\<close>

record us_server =
  us_state :: us_globals
  us_sockets :: "nat \<rightharpoonup> echo_socket"
  us_reports :: "us_report list"
  us_commands :: "(nat \<times> us_command) list"
  us_rx :: "nat \<Rightarrow> u8 list"
  us_tx :: "nat \<Rightarrow> u8 list"
  us_rx_total :: nat
  us_deliveries :: nat
  us_tx_total :: nat
  us_echoed :: nat

definition us_init :: us_server where
  "us_init =
     \<lparr>us_state = stats.extend init_stats (us_globals.fields 0 0), us_sockets = Map.empty,
      us_reports = [], us_commands = [], us_rx = (\<lambda>_. []), us_tx = (\<lambda>_. []),
      us_rx_total = 0, us_deliveries = 0, us_tx_total = 0, us_echoed = 0\<rparr>"

datatype us_event =
    Opened nat echo_socket
  | Received nat clock "u8 list" "u8 list \<Rightarrow> int"
  | Writable nat clock "u8 list \<Rightarrow> int"
  | HalfClosed nat
  | TimedOut nat
  | Closed nat

definition with_socket :: "nat \<Rightarrow> us_server \<Rightarrow> (echo_socket \<Rightarrow> 'b result) \<Rightarrow> 'b result" where
  "with_socket i s f = (case us_sockets s i of None \<Rightarrow> Inl NoSuchSocket | Some es \<Rightarrow> f es)"

text \<open>The effect of a data or writable handler of socket \<open>i\<close> that was given \<open>dat\<close>.\<close>

definition us_commit :: "nat \<Rightarrow> u8 list \<Rightarrow> us_server \<Rightarrow> us_outcome \<Rightarrow> us_server" where
  "us_commit i dat s outcome =
     (case outcome of (g, es, out, reps) \<Rightarrow>
       s\<lparr>us_state := g, us_sockets := (us_sockets s)(i \<mapsto> es), us_reports := us_reports s @ reps,
         us_rx := (us_rx s)(i := us_rx s i @ dat), us_tx := (us_tx s)(i := us_tx s i @ out),
         us_rx_total := us_rx_total s + length dat,
         us_deliveries := us_deliveries s + (if length dat = 0 then 0 else 1), us_tx_total := us_tx_total s + length out,
         us_echoed := us_echoed s + (length (us_tx s i @ out) div MAX_DATA_LEN
                                      - length (us_tx s i) div MAX_DATA_LEN)\<rparr>)"

text \<open>The handlers \<^verbatim>\<open>main\<close> registers, each called for its event.\<close>

fun us_step :: "us_event \<Rightarrow> us_server \<Rightarrow> us_server result" where
  "us_step (Opened i ext) s =
     (let (g, es) = on_echo_socket_open (us_state s) ext
      in Inr (s\<lparr>us_state := g, us_sockets := (us_sockets s)(i \<mapsto> es),
                us_rx := (us_rx s)(i := []), us_tx := (us_tx s)(i := [])\<rparr>))"
| "us_step (Received i now dat us_write) s =
     with_socket i s (\<lambda>es.
       bindE (on_echo_socket_data us_write now dat (us_state s) es)
         (\<lambda>outcome. Inr (us_commit i dat s outcome)))"
| "us_step (Writable i now us_write) s =
     with_socket i s (\<lambda>es.
       bindE (on_echo_socket_writable us_write now (us_state s) es)
         (\<lambda>outcome. Inr (us_commit i [] s outcome)))"
| "us_step (HalfClosed i) s =
     with_socket i s (\<lambda>es.
       Inr (s\<lparr>us_commands := us_commands s @ map (Pair i) on_echo_socket_end\<rparr>))"
| "us_step (TimedOut i) s =
     with_socket i s (\<lambda>es.
       Inr (s\<lparr>us_commands := us_commands s @ map (Pair i) on_echo_socket_timeout\<rparr>))"
| "us_step (Closed i) s =
     with_socket i s (\<lambda>es.
       let (g, es) = on_echo_socket_close (us_state s) es
       in Inr (s\<lparr>us_state := g, us_sockets := (us_sockets s)(i := None)\<rparr>))"

section \<open>Reporting\<close>

definition us_gate :: "us_globals \<Rightarrow> bool" where
  "us_gate = gate_mask 0xffff"

interpretation us_reporter: periodic_reporter CountStats us_gate 65536
proof
  fix g :: us_globals and now :: clock
  show "\<not> us_gate g \<Longrightarrow> CountStats now g = (g, [])"
    by (simp add: us_gate_def gate_mask_def CountStats_def)
  show "us_gate g \<Longrightarrow> \<exists>x. CountStats now g =
          (reset_interval (now AtRestart) g, [interval_report x (now AtReport) g])"
    by (auto simp: us_gate_def gate_mask_def CountStats_def)
  show "us_gate g \<Longrightarrow> last_interval_recv_msg_cnt g \<noteq> 0"
    by (simp add: us_gate_def gate_mask_def)
  show "us_gate g \<longleftrightarrow> unat (last_interval_recv_msg_cnt g) mod 65536 = 0
          \<and> last_interval_recv_msg_cnt g \<noteq> 0"
    using and_mask_iff [of "last_interval_recv_msg_cnt g" 16]
    by (simp add: us_gate_def gate_mask_def mask_eq_exp_minus_1)
qed simp_all

text \<open>
  \<open>counted g g' reps rb rm sb sm\<close>: between \<open>g\<close> and \<open>g'\<close> the statistics have taken in \<open>rb\<close>
  bytes in \<open>rm\<close> deliveries and \<open>sb\<close> bytes sent in \<open>sm\<close> messages, of which \<open>reps\<close> took part.
\<close>

definition counted ::
  "us_globals \<Rightarrow> us_globals \<Rightarrow> us_report list \<Rightarrow> nat \<Rightarrow> nat \<Rightarrow> nat \<Rightarrow> nat \<Rightarrow> bool" where
  "counted g g' reps rb rm sb sm \<longleftrightarrow>
     total_recv_bytes g' reps = last_interval_recv_bytes g + of_nat rb
   \<and> total_recv_msgs g' reps = last_interval_recv_msg_cnt g + of_nat rm
   \<and> total_send_bytes g' reps = last_interval_send_bytes g + of_nat sb
   \<and> total_send_msgs g' reps = last_interval_send_msg_cnt g + of_nat sm
   \<and> active_connections g' = active_connections g \<and> dup_act_conns g' = dup_act_conns g"

lemma CountStats_frame:
  assumes "CountStats now g = (g', reps)"
  shows "active_connections g' = active_connections g" and "dup_act_conns g' = dup_act_conns g"
  using assms by (auto simp: CountStats_def reset_interval_def split: if_splits)

lemma counted_CountStats:
  assumes "CountStats now g1 = (g', reps)" and "counted g g1 [] rb rm sb sm"
  shows "counted g g' reps rb rm sb sm"
  using assms us_reporter.conserves [OF assms(1)] CountStats_frame [OF assms(1)]
  by (simp add: counted_def total_defs)

lemma counted_received:
  "counted g (let g1 = g\<lparr>last_interval_recv_bytes := last_interval_recv_bytes g + of_nat n\<rparr>
              in if 0 < n then g1\<lparr>last_interval_recv_msg_cnt := last_interval_recv_msg_cnt g1 + 1\<rparr>
                 else g1)
     [] n (if n = 0 then 0 else 1) 0 0"
  by (simp add: counted_def total_defs Let_def)

lemma counted_add_sent:
  "counted g g1 [] rb rm 0 0 \<Longrightarrow> counted g (add_sent (int k) g1) [] rb rm k 0"
  by (simp add: counted_def total_defs add_sent_def)

lemma counted_sent_msg:
  "counted g g1 [] rb rm k 0 \<Longrightarrow> counted g (count_sent_msg g1) [] rb rm k 1"
  by (simp add: counted_def total_defs count_sent_msg_def)

lemma counted_refl: "counted g g [] 0 0 0 0"
  by (simp add: counted_def total_defs)

section \<open>One socket\<close>

definition write_contract :: "(u8 list \<Rightarrow> int) \<Rightarrow> bool" where
  "write_contract us_write \<longleftrightarrow> (\<forall>region. 0 \<le> us_write region \<and> us_write region \<le> int (length region))"

lemma write_contractE:
  assumes "write_contract us_write"
  obtains k where "us_write region = int k" and "k \<le> length region"
    and "accepted (us_write region) region = take k region"
  using assms unfolding write_contract_def accepted_def by (metis nonneg_int_cases nat_int of_nat_le_iff)

text \<open>The bytes the buffer holds.\<close>

definition pending :: "echo_socket \<Rightarrow> u8 list" where
  "pending es =
     slice (buf_data (es_buf es)) (unat (buf_start_pos (es_buf es))) (unat (buf_size (es_buf es)))"

text \<open>
  The socket after \<open>rx\<close> has come in and \<open>tx\<close> has gone out: what is missing from \<open>tx\<close> is what
  the buffer holds. Either the buffer collects an incomplete message from its start, or it
  holds the unsent rest of complete messages.
\<close>

definition sock_rel :: "echo_socket \<Rightarrow> u8 list \<Rightarrow> u8 list \<Rightarrow> bool" where
  "sock_rel es rx tx \<longleftrightarrow>
     length (buf_data (es_buf es)) = MAX_DATA_LEN
   \<and> unat (buf_start_pos (es_buf es)) + unat (buf_size (es_buf es)) \<le> MAX_DATA_LEN
   \<and> rx = tx @ pending es
   \<and> (buf_start_pos (es_buf es) = 0 \<and> unat (buf_size (es_buf es)) = length rx mod MAX_DATA_LEN
      \<or> length rx mod MAX_DATA_LEN = 0 \<and> buf_size (es_buf es) \<noteq> 0)"

text \<open>Every complete message has been echoed: the client may send more.\<close>

definition settled :: "u8 list \<Rightarrow> u8 list \<Rightarrow> bool" where
  "settled rx tx \<longleftrightarrow> MAX_DATA_LEN * (length rx div MAX_DATA_LEN) \<le> length tx"

lemma settledI: "length rx \<le> length tx \<Longrightarrow> settled rx tx"
  unfolding settled_def by (rule order_trans [OF times_div_less_eq_dividend])

lemma sock_rel_lengths:
  assumes "sock_rel es rx tx"
  shows "length rx = length tx + unat (buf_size (es_buf es))"
  using assms by (auto simp: sock_rel_def pending_def length_slice)

lemma sock_rel_settled:
  assumes "sock_rel es rx tx"
  shows "settled rx tx \<longleftrightarrow>
           buf_start_pos (es_buf es) = 0 \<and> unat (buf_size (es_buf es)) = length rx mod MAX_DATA_LEN"
proof -
  have "MAX_DATA_LEN * (length rx div MAX_DATA_LEN) + length rx mod MAX_DATA_LEN = length rx"
    by (rule mult_div_mod_eq)
  then have "settled rx tx \<longleftrightarrow> unat (buf_size (es_buf es)) \<le> length rx mod MAX_DATA_LEN"
    unfolding settled_def using sock_rel_lengths [OF assms] by linarith
  then show ?thesis
    using assms by (auto simp: sock_rel_def unat_eq_zero)
qed


text \<open>What an idle or collecting socket looks like.\<close>

lemma sock_rel_collecting:
  assumes "sock_rel es rx tx" and "settled rx tx"
  shows "buf_start_pos (es_buf es) = 0"
    and "unat (buf_size (es_buf es)) = length rx mod MAX_DATA_LEN"
    and "length tx = MAX_DATA_LEN * (length rx div MAX_DATA_LEN)"
    and "rx = tx @ take (length rx mod MAX_DATA_LEN) (buf_data (es_buf es))"
    and "length (buf_data (es_buf es)) = MAX_DATA_LEN"
proof -
  show start: "buf_start_pos (es_buf es) = 0"
    and size: "unat (buf_size (es_buf es)) = length rx mod MAX_DATA_LEN"
    using assms sock_rel_settled by blast+
  show "length tx = MAX_DATA_LEN * (length rx div MAX_DATA_LEN)"
    using size sock_rel_lengths [OF assms(1)] mult_div_mod_eq [of MAX_DATA_LEN "length rx"]
    by linarith
  show "length (buf_data (es_buf es)) = MAX_DATA_LEN" using assms(1) by (simp add: sock_rel_def)
  have "rx = tx @ pending es" using assms(1) by (simp add: sock_rel_def)
  then show "rx = tx @ take (length rx mod MAX_DATA_LEN) (buf_data (es_buf es))"
    using start size by (simp add: pending_def slice_def)
qed

lemma sock_rel_collectingI:
  assumes "length (buf_data (es_buf es)) = MAX_DATA_LEN" and "buf_start_pos (es_buf es) = 0"
    and "unat (buf_size (es_buf es)) = length rx mod MAX_DATA_LEN"
    and "rx = tx @ take (unat (buf_size (es_buf es))) (buf_data (es_buf es))"
  shows "sock_rel es rx tx"
proof -
  have "unat (buf_size (es_buf es)) < MAX_DATA_LEN" using assms(3) by (simp add: MAX_DATA_LEN_def)
  with assms show ?thesis by (simp add: sock_rel_def pending_def slice_def)
qed

lemma sock_rel_backlogI:
  assumes "length (buf_data (es_buf es)) = MAX_DATA_LEN" and "buf_size (es_buf es) \<noteq> 0"
    and "unat (buf_start_pos (es_buf es)) + unat (buf_size (es_buf es)) \<le> MAX_DATA_LEN"
    and "length rx mod MAX_DATA_LEN = 0" and "rx = tx @ pending es"
  shows "sock_rel es rx tx"
  using assms by (simp add: sock_rel_def)

lemma messages_done:
  assumes "length rx mod MAX_DATA_LEN = 0" and "n + m = length rx" and "0 < m" and "m \<le> MAX_DATA_LEN"
  shows "n div MAX_DATA_LEN = length rx div MAX_DATA_LEN - 1" and "0 < length rx div MAX_DATA_LEN"
proof -
  obtain q where q: "length rx = MAX_DATA_LEN * q" using assms(1) by (metis mod_0_imp_dvd dvdE)
  then have "0 < q" using assms by (cases q) auto
  then obtain r where r: "q = Suc r" by (cases q) auto
  have "n div MAX_DATA_LEN = r" using assms(2-4) q r by (intro div_nat_eqI) (simp_all add: MAX_DATA_LEN_def)
  then show "n div MAX_DATA_LEN = length rx div MAX_DATA_LEN - 1" and "0 < length rx div MAX_DATA_LEN"
    using q r by (simp_all add: MAX_DATA_LEN_def)
qed

lemma writable_ok:
  assumes rel: "sock_rel es rx tx" and busy: "\<not> settled rx tx" and w: "write_contract us_write"
  shows "\<exists>g' es' out reps. on_echo_socket_writable us_write now g es = Inr (g', es', out, reps)
       \<and> out = accepted (us_write (pending es)) (pending es)
       \<and> sock_rel es' rx (tx @ out) \<and> active_conns_in_ctx es' = active_conns_in_ctx es
       \<and> counted g g' reps 0 0 (length out)
            (length (tx @ out) div MAX_DATA_LEN - length tx div MAX_DATA_LEN)"
proof -
  let ?b = "es_buf es"
  let ?start = "unat (buf_start_pos ?b)" and ?size = "unat (buf_size ?b)"
  have whole: "length rx mod MAX_DATA_LEN = 0" and size: "0 < ?size"
    and bound: "?start + ?size \<le> MAX_DATA_LEN" and data: "length (buf_data ?b) = MAX_DATA_LEN"
    and rx: "rx = tx @ pending es"
    using rel busy sock_rel_settled [OF rel] by (auto simp: sock_rel_def unat_gt_0)
  have len: "length tx + ?size = length rx" using sock_rel_lengths [OF rel] by simp
  have region: "mem_read (buf_data ?b) ?start ?size = Inr (pending es)"
    using bound data by (simp add: mem_read_ok pending_def)
  obtain k where k: "us_write (pending es) = int k" "k \<le> ?size"
    and out: "accepted (us_write (pending es)) (pending es) = take k (pending es)"
    using write_contractE [OF w, of "pending es"] bound data
    by (metis length_slice pending_def)
  let ?size' = "buf_size ?b - of_nat k" and ?start' = "buf_start_pos ?b + of_nat k"
  have size': "unat ?size' = ?size - k" using k(2) by (rule unat_minus_of_nat)
  have start': "unat ?start' = ?start + k"
    using bound k(2) by (intro unat_plus_of_nat) (simp add: MAX_DATA_LEN_def)
  have g1: "counted g (add_sent (int k) g) [] 0 0 k 0" by (rule counted_add_sent [OF counted_refl])
  have lp: "length (pending es) = ?size" using bound data by (simp add: pending_def length_slice)
  show ?thesis
  proof (cases "k = ?size")
    case True
    then have z: "?size' = 0" using size' by (simp add: unat_eq_zero)
    obtain g' reps where cs: "CountStats now (count_sent_msg (add_sent (int k) g)) = (g', reps)"
      by (metis surj_pair)
    have "counted g g' reps 0 0 k 1" by (rule counted_CountStats [OF cs counted_sent_msg [OF g1]])
    moreover have "take k (pending es) = pending es" using True lp by simp
    moreover have "length rx div MAX_DATA_LEN - length tx div MAX_DATA_LEN = 1"
      using messages_done [OF whole len size] bound by simp
    moreover have "sock_rel (es\<lparr>es_buf := ?b\<lparr>buf_size := 0, buf_start_pos := 0\<rparr>\<rparr>) rx rx"
      by (rule sock_rel_collectingI) (simp_all add: data whole)
    ultimately show ?thesis
      using region k(1) out z cs rx True lp
      by (simp add: on_echo_socket_writable_def Let_def)
  next
    case False
    then have nz: "?size' \<noteq> 0" using size' k(2) by (metis diff_is_0_eq le_antisym unat_0)
    have rel': "sock_rel (es\<lparr>es_buf := ?b\<lparr>buf_size := ?size', buf_start_pos := ?start'\<rparr>\<rparr>)
                  rx (tx @ take k (pending es))"
    proof (rule sock_rel_backlogI)
      show "rx = (tx @ take k (pending es)) @
              pending (es\<lparr>es_buf := ?b\<lparr>buf_size := ?size', buf_start_pos := ?start'\<rparr>\<rparr>)"
        using rx append_take_drop_id [of k "pending es"] size' start'
        by (simp add: pending_def drop_slice)
    qed (use data nz whole start' size' bound k in simp_all)
    have "(length tx + k) div MAX_DATA_LEN = length rx div MAX_DATA_LEN - 1"
      using messages_done(1) [OF whole, of "length tx + k" "?size - k"] len k(2) False bound by simp
    then have "counted g (add_sent (int k) g) [] 0 0 k
                 (length (tx @ take k (pending es)) div MAX_DATA_LEN - length tx div MAX_DATA_LEN)"
      using g1 messages_done(1) [OF whole len size] bound lp k(2) by simp
    with rel' show ?thesis
      using region k out nz lp by (simp add: on_echo_socket_writable_def Let_def)
  qed
qed

text \<open>
  The three ways a delivery is handled on a socket that collects: it completes nothing, it
  is a whole message by itself, it completes the message in the buffer.
\<close>

abbreviation outcome_ok ::
  "us_globals \<Rightarrow> echo_socket \<Rightarrow> u8 list \<Rightarrow> u8 list \<Rightarrow> u8 list \<Rightarrow> us_outcome result \<Rightarrow> bool" where
  "outcome_ok g es dat rx tx r \<equiv>
     \<exists>g' es' out reps. r = Inr (g', es', out, reps)
       \<and> sock_rel es' (rx @ dat) (tx @ out) \<and> active_conns_in_ctx es' = active_conns_in_ctx es
       \<and> counted g g' reps (length dat) (if length dat = 0 then 0 else 1) (length out)
            (length (tx @ out) div MAX_DATA_LEN - length tx div MAX_DATA_LEN)"

lemma data_partial_ok:
  assumes rel: "sock_rel es rx tx" and settled: "settled rx tx"
    and fit: "length rx mod MAX_DATA_LEN + length dat < MAX_DATA_LEN"
  shows "outcome_ok g es dat rx tx (on_echo_socket_data us_write now dat g es)"
proof -
  note c = sock_rel_collecting [OF rel settled]
  let ?b = "es_buf es" and ?n = "length rx mod MAX_DATA_LEN"
  let ?bytes = "take ?n (buf_data ?b) @ dat @ drop (?n + length dat) (buf_data ?b)"
  have stored: "mem_write (buf_data ?b) (unat (buf_size ?b)) dat = Inr ?bytes"
    using c(2,5) fit by (simp add: mem_write_ok)
  have size: "unat (buf_size ?b + of_nat (length dat)) = ?n + length dat"
    using c(2) fit by (subst unat_plus_of_nat) (simp_all add: MAX_DATA_LEN_def)
  then have "buf_size ?b + of_nat (length dat) \<noteq> of_nat MAX_DATA_LEN"
    using fit by (auto simp: MAX_DATA_LEN_def)
  moreover have "sock_rel (es\<lparr>es_buf := ?b\<lparr>buf_data := ?bytes,
                   buf_size := buf_size ?b + of_nat (length dat)\<rparr>\<rparr>) (rx @ dat) tx"
  proof (rule sock_rel_collectingI)
    show "rx @ dat = tx @ take (unat (buf_size (es_buf (es\<lparr>es_buf := ?b\<lparr>buf_data := ?bytes,
            buf_size := buf_size ?b + of_nat (length dat)\<rparr>\<rparr>)))) (buf_data (es_buf
            (es\<lparr>es_buf := ?b\<lparr>buf_data := ?bytes, buf_size := buf_size ?b + of_nat (length dat)\<rparr>\<rparr>)))"
      using size c(4,5) fit by simp
    show "unat (buf_size (es_buf (es\<lparr>es_buf := ?b\<lparr>buf_data := ?bytes,
            buf_size := buf_size ?b + of_nat (length dat)\<rparr>\<rparr>))) = length (rx @ dat) mod MAX_DATA_LEN"
      using size fit mod_add_left_eq [of "length rx" MAX_DATA_LEN "length dat"] by simp
  qed (use c(1,5) fit in simp_all)
  moreover have "length dat \<noteq> MAX_DATA_LEN" using fit by simp
  ultimately show ?thesis
    using stored counted_received [of g "length dat"]
    by (simp add: on_echo_socket_data_def Let_def)
qed

lemma sent_after_complete:
  assumes "length tx = MAX_DATA_LEN * q" and "k \<le> MAX_DATA_LEN"
  shows "(length tx + k) div MAX_DATA_LEN - length tx div MAX_DATA_LEN
           = (if k = MAX_DATA_LEN then 1 else 0)"
  using assms by (auto simp: MAX_DATA_LEN_def)

lemma data_whole_ok:
  assumes rel: "sock_rel es rx tx" and settled: "settled rx tx" and w: "write_contract us_write"
    and empty: "length rx mod MAX_DATA_LEN = 0" and whole: "length dat = MAX_DATA_LEN"
  shows "outcome_ok g es dat rx tx (on_echo_socket_data us_write now dat g es)"
proof -
  note c = sock_rel_collecting [OF rel settled]
  let ?b = "es_buf es"
  have rx: "rx = tx" using c(4) empty by simp
  obtain k where k: "us_write dat = int k" "k \<le> MAX_DATA_LEN"
    and out: "accepted (us_write dat) dat = take k dat"
    using write_contractE [OF w, of dat] whole by metis
  note sent = sent_after_complete [OF c(3) k(2)]
  let ?g1 = "let g1 = g\<lparr>last_interval_recv_bytes := last_interval_recv_bytes g + of_nat (length dat)\<rparr>
             in if 0 < length dat
                then g1\<lparr>last_interval_recv_msg_cnt := last_interval_recv_msg_cnt g1 + 1\<rparr> else g1"
  have g2: "counted g (add_sent (int k) ?g1) [] (length dat) (if length dat = 0 then 0 else 1) k 0"
    by (rule counted_add_sent [OF counted_received])
  show ?thesis
  proof (cases "k = MAX_DATA_LEN")
    case True
    obtain g' reps where cs: "CountStats now (count_sent_msg (add_sent (int k) ?g1)) = (g', reps)"
      by (metis surj_pair)
    have "counted g g' reps (length dat) (if length dat = 0 then 0 else 1) k 1"
      by (rule counted_CountStats [OF cs counted_sent_msg [OF g2]])
    moreover have "sock_rel es (rx @ dat) (tx @ dat)"
      using c(1,2,5) empty whole rx by (intro sock_rel_collectingI) simp_all
    ultimately show ?thesis
      using k out cs whole True sent by (simp add: on_echo_socket_data_def Let_def)
  next
    case False
    let ?rest = "drop k dat"
    let ?bytes = "?rest @ drop (MAX_DATA_LEN - k) (buf_data ?b)"
    let ?es' = "es\<lparr>es_buf := ?b\<lparr>buf_data := ?bytes, buf_size := of_nat (length ?rest)\<rparr>\<rparr>"
    have tail: "unwritten_tail (int k) dat = Inr ?rest"
      using k(2) whole by (simp add: unwritten_tail_def)
    have stored: "mem_write (buf_data ?b) 0 ?rest = Inr ?bytes"
      using c(5) whole by (simp add: mem_write_ok)
    have size: "unat (of_nat (length ?rest) :: u64) = MAX_DATA_LEN - k"
      using whole by (simp add: unat_of_nat_small MAX_DATA_LEN_def)
    have "sock_rel ?es' (rx @ dat) (tx @ take k dat)"
    proof (rule sock_rel_backlogI)
      have "unat (of_nat (length ?rest) :: u64) \<noteq> 0" using size False k(2) by simp
      then show "buf_size (es_buf ?es') \<noteq> 0" by (simp del: of_nat_diff length_drop) auto
      show "rx @ dat = (tx @ take k dat) @ pending ?es'"
        using size c(1) rx whole by (simp add: pending_def slice_def del: of_nat_diff)
    qed (use c(1,5) empty whole size k(2) in \<open>simp_all del: of_nat_diff\<close>)
    moreover have "us_write dat \<noteq> int (length dat)" using k(1) whole False by simp
    ultimately show ?thesis
      using k out tail stored whole False sent g2
      by (simp add: on_echo_socket_data_def Let_def del: of_nat_diff length_drop)
  qed
qed

lemma data_completing_ok:
  assumes rel: "sock_rel es rx tx" and settled: "settled rx tx" and w: "write_contract us_write"
    and full: "length rx mod MAX_DATA_LEN + length dat = MAX_DATA_LEN"
    and part: "length dat \<noteq> MAX_DATA_LEN"
  shows "outcome_ok g es dat rx tx (on_echo_socket_data us_write now dat g es)"
proof -
  note c = sock_rel_collecting [OF rel settled]
  let ?b = "es_buf es" and ?n = "length rx mod MAX_DATA_LEN"
  define region where "region = take ?n (buf_data ?b) @ dat"
  have region_len: "length region = MAX_DATA_LEN" using c(5) full by (simp add: region_def)
  have stored: "mem_write (buf_data ?b) (unat (buf_size ?b)) dat = Inr region"
    using c(2,5) full by (simp add: mem_write_ok region_def)
  have size: "buf_size ?b + of_nat (length dat) = of_nat MAX_DATA_LEN"
  proof -
    have "unat (buf_size ?b + of_nat (length dat)) = MAX_DATA_LEN"
      using c(2) full by (subst unat_plus_of_nat) (simp_all add: MAX_DATA_LEN_def)
    then show ?thesis by (simp add: word_unat_eq_iff MAX_DATA_LEN_def)
  qed
  have usize: "unat (of_nat MAX_DATA_LEN :: u64) = MAX_DATA_LEN" by (simp add: MAX_DATA_LEN_def)
  have fetched: "mem_read region 0 (unat (of_nat MAX_DATA_LEN :: u64)) = Inr region"
    using region_len usize slice_full [of region] by (simp add: mem_read_ok)
  have rx: "rx @ dat = tx @ region" unfolding region_def using c(4) by (metis append_assoc)
  have rx_whole: "length (rx @ dat) mod MAX_DATA_LEN = 0"
    using full by (metis length_append mod_add_left_eq mod_self)
  obtain k where k: "us_write region = int k" "k \<le> MAX_DATA_LEN"
    and out: "accepted (us_write region) region = take k region"
    using write_contractE [OF w, of region] region_len by metis
  note sent = sent_after_complete [OF c(3) k(2)]
  let ?g1 = "let g1 = g\<lparr>last_interval_recv_bytes := last_interval_recv_bytes g + of_nat (length dat)\<rparr>
             in if 0 < length dat
                then g1\<lparr>last_interval_recv_msg_cnt := last_interval_recv_msg_cnt g1 + 1\<rparr> else g1"
  have g2: "counted g (add_sent (int k) ?g1) [] (length dat) (if length dat = 0 then 0 else 1) k 0"
    by (rule counted_add_sent [OF counted_received])
  have size': "unat (of_nat MAX_DATA_LEN - of_nat k :: u64) = MAX_DATA_LEN - k"
    using k(2) usize unat_minus_of_nat [of k "of_nat MAX_DATA_LEN"] by simp
  have out_len: "length (take k region) = k" using region_len k(2) by simp
  show ?thesis
  proof (cases "k = MAX_DATA_LEN")
    case True
    obtain g' reps where cs: "CountStats now (count_sent_msg (add_sent (int k) ?g1)) = (g', reps)"
      by (metis surj_pair)
    have "counted g g' reps (length dat) (if length dat = 0 then 0 else 1) k 1"
      by (rule counted_CountStats [OF cs counted_sent_msg [OF g2]])
    moreover have all: "take k region = region"
      using True region_len by simp
    moreover have "sock_rel (es\<lparr>es_buf := ?b\<lparr>buf_data := region, buf_size := 0, buf_start_pos := 0\<rparr>\<rparr>)
                     (rx @ dat) (tx @ take k region)"
      unfolding all by (rule sock_rel_collectingI) (use rx rx_whole region_len in simp_all)
    ultimately show ?thesis
      using k out cs part True sent stored fetched size out_len c(1)
      by (simp add: on_echo_socket_data_def Let_def)
  next
    case False
    let ?es' = "es\<lparr>es_buf := ?b\<lparr>buf_data := region, buf_start_pos := of_nat k,
                  buf_size := of_nat MAX_DATA_LEN - of_nat k\<rparr>\<rparr>"
    have nz: "(of_nat MAX_DATA_LEN - of_nat k :: u64) \<noteq> 0" using size' False k(2) by fastforce
    have start: "unat (of_nat k :: u64) = k"
      using k(2) by (simp add: unat_of_nat_small MAX_DATA_LEN_def)
    have "sock_rel ?es' (rx @ dat) (tx @ take k region)"
    proof (rule sock_rel_backlogI)
      have "pending ?es' = slice region k (length region - k)"
        unfolding region_len pending_def by (simp add: start size')
      also have "\<dots> = drop k region" by (rule slice_suffix)
      finally have "pending ?es' = drop k region" .
      then show "rx @ dat = (tx @ take k region) @ pending ?es'"
        using rx append_take_drop_id [of k region] by simp
    qed (use nz region_len start size' k(2) rx_whole in simp_all)
    then show ?thesis
      using k out part False sent stored fetched size nz out_len c(1) g2
      by (simp add: on_echo_socket_data_def Let_def)
  qed
qed

lemma data_ok:
  assumes "sock_rel es rx tx" and "settled rx tx" and "write_contract us_write"
    and "length rx mod MAX_DATA_LEN + length dat \<le> MAX_DATA_LEN"
  shows "outcome_ok g es dat rx tx (on_echo_socket_data us_write now dat g es)"
proof (cases "length rx mod MAX_DATA_LEN + length dat < MAX_DATA_LEN")
  case True
  then show ?thesis by (rule data_partial_ok [OF assms(1,2)])
next
  case False
  with assms(4) have full: "length rx mod MAX_DATA_LEN + length dat = MAX_DATA_LEN" by simp
  show ?thesis
  proof (cases "length dat = MAX_DATA_LEN")
    case True
    with full show ?thesis by (intro data_whole_ok [OF assms(1-3)]) simp_all
  next
    case False
    with full show ?thesis by (rule data_completing_ok [OF assms(1-3)])
  qed
qed

section \<open>The server under closed-loop clients\<close>

text \<open>
  What the environment keeps: a fresh extension has the size the context was created with,
  data arrives only on a socket whose complete messages have all been echoed and does not
  run past the end of the message, and a socket is reported writable only while a backlog
  waits. This is the traffic of the benchmark's clients, which send a message only after
  the echo of the one before.
\<close>

fun us_turn :: "us_server \<Rightarrow> us_event \<Rightarrow> bool" where
  "us_turn s (Opened i ext) \<longleftrightarrow>
     us_sockets s i = None \<and> length (buf_data (es_buf ext)) = MAX_DATA_LEN"
| "us_turn s (Received i now dat us_write) \<longleftrightarrow>
     us_sockets s i \<noteq> None \<and> settled (us_rx s i) (us_tx s i)
     \<and> length (us_rx s i) mod MAX_DATA_LEN + length dat \<le> MAX_DATA_LEN"
| "us_turn s (Writable i now us_write) \<longleftrightarrow>
     us_sockets s i \<noteq> None \<and> \<not> settled (us_rx s i) (us_tx s i)"
| "us_turn s (HalfClosed i) \<longleftrightarrow> us_sockets s i \<noteq> None"
| "us_turn s (TimedOut i) \<longleftrightarrow> us_sockets s i \<noteq> None"
| "us_turn s (Closed i) \<longleftrightarrow> us_sockets s i \<noteq> None"

fun writes_ok :: "us_event \<Rightarrow> bool" where
  "writes_ok (Received i now dat us_write) \<longleftrightarrow> write_contract us_write"
| "writes_ok (Writable i now us_write) \<longleftrightarrow> write_contract us_write"
| "writes_ok _ \<longleftrightarrow> True"

definition us_ok :: "us_server \<Rightarrow> us_event \<Rightarrow> bool" where
  "us_ok s e \<longleftrightarrow> writes_ok e \<and> us_turn s e"

lemma admissible_us_ok:
  assumes "\<And>e. e \<in> set es \<Longrightarrow> writes_ok e" and "admissible us_step us_turn s es"
  shows "admissible us_step us_ok s es"
proof -
  have "us_ok = (\<lambda>s e. writes_ok e \<and> us_turn s e)" by (intro ext) (simp add: us_ok_def)
  with admissible_conj [of es writes_ok, OF assms] show ?thesis by simp
qed

definition us_sockets_inv :: "us_server \<Rightarrow> bool" where
  "us_sockets_inv s \<longleftrightarrow>
     (\<forall>i es. us_sockets s i = Some es \<longrightarrow>
        sock_rel es (us_rx s i) (us_tx s i) \<and> active_conns_in_ctx es = 1)"

definition us_counts_inv :: "us_server \<Rightarrow> bool" where
  "us_counts_inv s \<longleftrightarrow>
     finite (dom (us_sockets s))
   \<and> active_connections (us_state s) = int (card (dom (us_sockets s)))
   \<and> dup_act_conns (us_state s) \<in> {0, 1}"

definition us_totals_inv :: "us_server \<Rightarrow> bool" where
  "us_totals_inv s \<longleftrightarrow>
     total_recv_bytes (us_state s) (us_reports s) = of_nat (us_rx_total s)
   \<and> total_recv_msgs (us_state s) (us_reports s) = of_nat (us_deliveries s)
   \<and> total_send_bytes (us_state s) (us_reports s) = of_nat (us_tx_total s)
   \<and> total_send_msgs (us_state s) (us_reports s) = of_nat (us_echoed s)"

definition us_inv :: "us_server \<Rightarrow> bool" where
  "us_inv s \<longleftrightarrow> us_sockets_inv s \<and> us_counts_inv s \<and> us_totals_inv s"

lemmas us_inv_defs = us_inv_def us_sockets_inv_def us_counts_inv_def us_totals_inv_def

lemma us_inv_init: "us_inv us_init"
  by (simp add: us_inv_defs us_init_def init_stats_def total_defs stats.defs us_globals.defs)

lemma total_counted:
  assumes "counted g g' reps rb rm sb sm"
  shows "total_recv_bytes g' (rs @ reps) = total_recv_bytes g rs + of_nat rb"
    and "total_recv_msgs g' (rs @ reps) = total_recv_msgs g rs + of_nat rm"
    and "total_send_bytes g' (rs @ reps) = total_send_bytes g rs + of_nat sb"
    and "total_send_msgs g' (rs @ reps) = total_send_msgs g rs + of_nat sm"
  using assms unfolding totals_append counted_def by (simp_all add: total_defs add.assoc)

lemma us_commit_inv:
  assumes inv: "us_inv s" and es: "us_sockets s i = Some es"
    and rel: "sock_rel es' (us_rx s i @ dat) (us_tx s i @ out)"
    and conns: "active_conns_in_ctx es' = active_conns_in_ctx es"
    and counted: "counted (us_state s) g' reps (length dat) (if length dat = 0 then 0 else 1) (length out)
                   (length (us_tx s i @ out) div MAX_DATA_LEN - length (us_tx s i) div MAX_DATA_LEN)"
  shows "us_inv (us_commit i dat s (g', es', out, reps))"
proof -
  have dom: "dom ((us_sockets s)(i \<mapsto> es')) = dom (us_sockets s)" using es by auto
  have frame: "active_connections g' = active_connections (us_state s)"
    "dup_act_conns g' = dup_act_conns (us_state s)"
    using counted by (simp_all add: counted_def)
  show ?thesis
    unfolding us_inv_def
  proof (intro conjI)
    show "us_sockets_inv (us_commit i dat s (g', es', out, reps))"
      using inv es rel conns by (auto simp: us_inv_defs us_commit_def)
    show "us_counts_inv (us_commit i dat s (g', es', out, reps))"
      using inv dom frame by (simp add: us_inv_def us_counts_inv_def us_commit_def)
    show "us_totals_inv (us_commit i dat s (g', es', out, reps))"
      using inv total_counted [OF counted, of "us_reports s"]
      by (simp add: us_inv_def us_totals_inv_def us_commit_def)
  qed
qed

lemma open_inv:
  assumes "us_inv s" and "us_ok s (Opened i ext)"
  shows "\<exists>s'. us_step (Opened i ext) s = Inr s' \<and> us_inv s'"
proof -
  have "sock_rel (snd (on_echo_socket_open (us_state s) ext)) [] []"
    using assms(2) by (intro sock_rel_collectingI) (simp_all add: us_ok_def on_echo_socket_open_def Let_def)
  then show ?thesis
    using assms
    by (auto simp: us_ok_def us_inv_defs on_echo_socket_open_def Let_def total_defs domIff)
qed

lemma close_inv:
  assumes "us_inv s" and "us_ok s (Closed i)"
  shows "\<exists>s'. us_step (Closed i) s = Inr s' \<and> us_inv s'"
proof -
  obtain es where es: "us_sockets s i = Some es" using assms(2) by (auto simp: us_ok_def)
  then have "int (card (dom (us_sockets s) - {i})) = int (card (dom (us_sockets s))) - 1"
    using card_dom_delete [of "us_sockets s" i] assms(1) by (simp add: us_inv_defs)
  then show ?thesis
    using assms es
    by (auto simp: us_inv_defs on_echo_socket_close_def Let_def total_defs with_socket_def)
qed

lemma us_step_safe:
  assumes inv: "us_inv s" and ok: "us_ok s e"
  shows "\<exists>s'. us_step e s = Inr s' \<and> us_inv s'"
proof (cases e)
  case (Received i now dat us_write)
  with ok obtain es where es: "us_sockets s i = Some es" by (auto simp: us_ok_def)
  with inv have "sock_rel es (us_rx s i) (us_tx s i)" by (simp add: us_inv_defs)
  with ok Received have "outcome_ok (us_state s) es dat (us_rx s i) (us_tx s i)
      (on_echo_socket_data us_write now dat (us_state s) es)"
    by (intro data_ok) (simp_all add: us_ok_def)
  then show ?thesis
    using es Received us_commit_inv [OF inv es] by (auto simp: with_socket_def)
next
  case (Writable i now us_write)
  with ok obtain es where es: "us_sockets s i = Some es" by (auto simp: us_ok_def)
  with inv have rel: "sock_rel es (us_rx s i) (us_tx s i)" by (simp add: us_inv_defs)
  from ok Writable show ?thesis
    using writable_ok [OF rel, of us_write now "us_state s"] es
      us_commit_inv [OF inv es, where dat = "[]"]
    by (auto simp: us_ok_def with_socket_def)
next
  case (Opened i ext)
  with assms show ?thesis using open_inv by simp
next
  case (Closed i)
  with assms show ?thesis using close_inv by simp
qed (use assms in \<open>auto simp: us_ok_def with_socket_def us_inv_defs\<close>)

interpretation us_machine: safe_machine us_step us_ok us_inv
  by unfold_locales (rule us_step_safe)

section \<open>Outside the closed loop\<close>

lemma data_overrun:
  assumes "length dat \<noteq> MAX_DATA_LEN"
    and "length (buf_data (es_buf es)) < unat (buf_size (es_buf es)) + length dat"
  shows "on_echo_socket_data us_write now dat g es = Inl BufferOverrun"
  using assms mem_write_overrun [OF assms(2)] by (simp add: on_echo_socket_data_def Let_def)

lemma data_over_backlog:
  assumes data: "length (buf_data (es_buf es)) = MAX_DATA_LEN"
    and dat: "length dat = MAX_DATA_LEN" and k: "us_write dat = int k" "k < MAX_DATA_LEN"
    and start: "buf_start_pos (es_buf es) = 0"
  obtains g' es' where "on_echo_socket_data us_write now dat g es = Inr (g', es', take k dat, [])"
    and "pending es' = drop k dat"
proof -
  let ?rest = "drop k dat"
  let ?bytes = "?rest @ drop (length ?rest) (buf_data (es_buf es))"
  let ?es' = "es\<lparr>es_buf := (es_buf es)\<lparr>buf_data := ?bytes, buf_size := of_nat (length ?rest)\<rparr>\<rparr>"
  have tail: "unwritten_tail (int k) dat = Inr ?rest" using k(2) dat by (simp add: unwritten_tail_def)
  have stored: "mem_write (buf_data (es_buf es)) 0 ?rest = Inr ?bytes"
    using data dat by (simp add: mem_write_ok)
  have size: "unat (of_nat (length ?rest) :: u64) = length ?rest"
    using dat by (intro unat_of_nat_small) (simp add: MAX_DATA_LEN_def)
  have "pending ?es' = ?rest"
    using size start unfolding pending_def by (simp add: slice_def del: length_drop of_nat_diff)
  moreover have "\<exists>g'. on_echo_socket_data us_write now dat g es = Inr (g', ?es', take k dat, [])"
    using tail stored k dat
    by (simp add: on_echo_socket_data_def Let_def accepted_def del: length_drop of_nat_diff)
  ultimately show thesis using that by blast
qed

section \<open>The backlog drains\<close>

definition takes_some :: "(u8 list \<Rightarrow> int) \<Rightarrow> bool" where
  "takes_some us_write \<longleftrightarrow> (\<forall>region. region \<noteq> [] \<longrightarrow> 1 \<le> us_write region)"



section \<open>Properties\<close>

text \<open>
  The witnesses below run the server on one socket: a message of 64 bytes that arrives in
  two deliveries of 40 and 24, a write that takes 10 bytes, and a writable event that takes
  the rest.
\<close>

definition takes_all :: "u8 list \<Rightarrow> int" where
  "takes_all region = int (length region)"

definition takes_ten :: "u8 list \<Rightarrow> int" where
  "takes_ten region = min 10 (int (length region))"

definition fresh_ext :: echo_socket where
  "fresh_ext =
     \<lparr>es_buf = \<lparr>buf_data = replicate 64 0, buf_start_pos = 9, buf_size = 3\<rparr>, active_conns_in_ctx = 5\<rparr>"

definition one_backlog :: "us_event list" where
  "one_backlog =
     [Opened 0 fresh_ext, Received 0 (\<lambda>_. 5) (replicate 40 1) takes_ten,
      Received 0 (\<lambda>_. 5) (replicate 24 2) takes_ten]"

definition one_echo :: "us_event list" where
  "one_echo = one_backlog @ [Writable 0 (\<lambda>_. 6) takes_all]"

lemma takes_contract:
  "write_contract takes_all" "write_contract takes_ten" "takes_some takes_all" "takes_some takes_ten"
  by (auto simp: write_contract_def takes_some_def takes_all_def takes_ten_def Suc_le_eq)


lemma one_echo_admissible: "admissible us_step us_ok us_init one_echo"
proof (rule admissible_us_ok)
  show "admissible us_step us_turn us_init one_echo" by code_simp
qed (auto simp: one_echo_def one_backlog_def takes_contract)





text \<open>
  The connection counters: \<^verbatim>\<open>active_connections\<close> is the number of open sockets, while
  \<^verbatim>\<open>dup_act_conns\<close>, printed as the count of the context, is never anything but 0 or 1, the
  extension being the socket's and not the context's.
\<close>

theorem us_connection_counters:
  assumes "admissible us_step us_ok us_init es" and "run us_step es us_init = Inr s"
  shows "finite (dom (us_sockets s))
    \<and> active_connections (us_state s) = int (card (dom (us_sockets s)))
    \<and> dup_act_conns (us_state s) \<in> {0, 1}"
  using us_machine.run_inv [OF us_inv_init assms] by (simp_all add: us_inv_def us_counts_inv_def)

theorem us_connection_counters_witness:
  "\<exists>s. run us_step one_echo us_init = Inr s
     \<and> active_connections (us_state s) = int (card (dom (us_sockets s)))
     \<and> dup_act_conns (us_state s) \<in> {0, 1}"
  using us_machine.run_safe [OF us_inv_init one_echo_admissible]
    us_connection_counters [OF one_echo_admissible] by blast



text \<open>
  C26. TCP does not keep message boundaries. When a delivery that is not exactly one message
  runs past the end of the message being collected (two messages coalesced, for one), the
  copy into the 64-byte buffer runs past its end.
\<close>

theorem us_coalesced_overrun:
  assumes "admissible us_step us_ok us_init es" and "run us_step es us_init = Inr s"
    and "us_sockets s i \<noteq> None" and "settled (us_rx s i) (us_tx s i)"
    and "MAX_DATA_LEN < length (us_rx s i) mod MAX_DATA_LEN + length dat"
    and "length dat \<noteq> MAX_DATA_LEN"
  shows "us_step (Received i now dat us_write) s = Inl BufferOverrun"
proof -
  obtain sock where sock: "us_sockets s i = Some sock" using assms(3) by auto
  with us_machine.run_inv [OF us_inv_init assms(1,2)]
  have "sock_rel sock (us_rx s i) (us_tx s i)" by (simp add: us_inv_defs)
  from sock_rel_collecting(2,5) [OF this assms(4)] assms(5,6)
  have "on_echo_socket_data us_write now dat (us_state s) sock = Inl BufferOverrun"
    by (intro data_overrun) simp_all
  with sock show ?thesis by (simp add: with_socket_def)
qed

theorem us_coalesced_overrun_witness:
  "\<exists>s. run us_step one_echo us_init = Inr s
     \<and> us_step (Received 0 (\<lambda>_. 7) (replicate 128 1) takes_all) s = Inl BufferOverrun"
proof -
  obtain s where s: "run us_step one_echo us_init = Inr s"
    using us_machine.run_safe [OF us_inv_init one_echo_admissible] by blast
  have "(case run us_step one_echo us_init of Inl _ \<Rightarrow> False | Inr s \<Rightarrow>
          us_sockets s 0 \<noteq> None \<and> settled (us_rx s 0) (us_tx s 0)
          \<and> MAX_DATA_LEN < length (us_rx s 0) mod MAX_DATA_LEN + 128)"
    by code_simp
  with s us_coalesced_overrun [OF one_echo_admissible s, of 0 "replicate 128 1" "\<lambda>_. 7" takes_all]
  show ?thesis by (simp add: MAX_DATA_LEN_def)
qed

text \<open>
  C27. A whole message that arrives while a backlog waits at the start of the buffer and is
  not written in full overwrites the backlog: what was sent and what is kept no longer add
  up to what was received.
\<close>

theorem us_backlog_lost:
  assumes "admissible us_step us_ok us_init es" and "run us_step es us_init = Inr s"
    and "us_sockets s i = Some sock" and "\<not> settled (us_rx s i) (us_tx s i)"
    and "buf_start_pos (es_buf sock) = 0" and "length dat = MAX_DATA_LEN"
    and "us_write dat = int k" and "k < MAX_DATA_LEN"
  shows "\<exists>s' sock'. us_step (Received i now dat us_write) s = Inr s' \<and> us_sockets s' i = Some sock'
     \<and> pending sock' = drop k dat
     \<and> length (us_tx s' i) + length (pending sock') < length (us_rx s' i)"
proof -
  have rel: "sock_rel sock (us_rx s i) (us_tx s i)"
    using us_machine.run_inv [OF us_inv_init assms(1,2)] assms(3) by (simp add: us_inv_defs)
  have "length (us_tx s i) < length (us_rx s i)" using settledI assms(4) not_less by blast
  moreover have data: "length (buf_data (es_buf sock)) = MAX_DATA_LEN"
    using rel by (simp add: sock_rel_def)
  obtain g' sock' where
      "on_echo_socket_data us_write now dat (us_state s) sock = Inr (g', sock', take k dat, [])"
      and "pending sock' = drop k dat"
    by (rule data_over_backlog [where us_write = us_write, OF data assms(6-8,5)])
  ultimately show ?thesis using assms(3,6,8) by (simp add: with_socket_def us_commit_def)
qed

definition whole_backlog :: "us_event list" where
  "whole_backlog = [Opened 0 fresh_ext, Received 0 (\<lambda>_. 5) (replicate 64 1) takes_ten]"

lemma whole_backlog_admissible: "admissible us_step us_ok us_init whole_backlog"
proof (rule admissible_us_ok)
  show "admissible us_step us_turn us_init whole_backlog" by code_simp
qed (auto simp: whole_backlog_def takes_contract)

theorem us_backlog_lost_witness:
  "\<exists>s s' sock'. run us_step whole_backlog us_init = Inr s
     \<and> us_step (Received 0 (\<lambda>_. 7) (replicate 64 2) takes_ten) s = Inr s'
     \<and> us_sockets s' 0 = Some sock' \<and> pending sock' = replicate 54 2
     \<and> length (us_tx s' 0) + length (pending sock') < length (us_rx s' 0)"
proof -
  obtain s where s: "run us_step whole_backlog us_init = Inr s"
    using us_machine.run_safe [OF us_inv_init whole_backlog_admissible] by blast
  have "(case run us_step whole_backlog us_init of Inl _ \<Rightarrow> False | Inr s \<Rightarrow>
          (case us_sockets s 0 of None \<Rightarrow> False | Some sock \<Rightarrow>
            \<not> settled (us_rx s 0) (us_tx s 0) \<and> buf_start_pos (es_buf sock) = 0))"
    by code_simp
  with s obtain sock where "us_sockets s 0 = Some sock" "\<not> settled (us_rx s 0) (us_tx s 0)"
      "buf_start_pos (es_buf sock) = 0"
    by (auto split: option.splits)
  from us_backlog_lost [OF whole_backlog_admissible s this, of "replicate 64 2" takes_ten 10]
  show ?thesis using s by (simp add: MAX_DATA_LEN_def takes_ten_def)
qed

end
