(* ===== verification/HttpsClient.thy ===== *)
theory HttpsClient
  imports Prelude
begin

text \<open>
  The HTTPS test client, \<^verbatim>\<open>src/usockets-tcp/https_client.cpp\<close>: it sends one fixed request,
  in as many writes as the library needs, and prints what comes back. The value of
  \<^verbatim>\<open>us_socket_write\<close> is a parameter of the event, as in the echo server.
\<close>

section \<open>State\<close>

definition crlf :: string where
  "crlf = [CHR 0x0D, CHR 0x0A]"

definition REAL_HOST :: string where
  "REAL_HOST = ''10.5.96.3''"

definition request :: string where
  "request = ''GET / HTTP/1.1'' @ crlf @ ''Host: '' @ REAL_HOST @ crlf @ crlf"

text \<open>Both counters are C \<^verbatim>\<open>int\<close>s.\<close>

record client_context =
  has_written_bytes :: int
  received_bytes :: int

definition int_add :: "int \<Rightarrow> int \<Rightarrow> int result" where
  "int_add a b = (if - (2 ^ 31) \<le> a + b \<and> a + b < 2 ^ 31 then Inr (a + b) else Inl SignedOverflow)"

datatype console_line =
    RequestLength int
  | DataLength int
  | FirstChars char char char char
  | Body string
  | ConnectOnOpen
  | ConnectionClosed int
  | ConnectionEnd
  | MinuteMark
  | OnTimeout
  | CannotConnect

datatype https_command = CloseSocket | ArmTimeout | ArmLongTimeout nat

section \<open>Handlers\<close>

text \<open>
  A handler returns the new context, the bytes the library took, the lines printed and the
  commands given to the library. \<open>sizeof(request) - 1\<close> is the length of the literal
  without its final NUL.
\<close>

type_synonym https_outcome = "client_context \<times> string \<times> console_line list \<times> https_command list"

definition try_request :: "(string \<Rightarrow> int) \<Rightarrow> client_context \<Rightarrow> https_outcome result" where
  "try_request us_write ctx =
     (let has_written = has_written_bytes ctx;
          target_written = int (length request)
      in if has_written < target_written
         then if has_written < 0 then Inl OutOfBoundsRead
              else (let region = drop (nat has_written) request;
                        written = us_write region
                    in bindE (int_add (has_written_bytes ctx) written) (\<lambda>total.
                         Inr (ctx\<lparr>has_written_bytes := total\<rparr>, take (nat written) region,
                              [RequestLength total], [])))
         else Inr (ctx, [], [RequestLength has_written], []))"

definition on_http_socket_writable :: "(string \<Rightarrow> int) \<Rightarrow> client_context \<Rightarrow> https_outcome result" where
  "on_http_socket_writable us_write ctx = try_request us_write ctx"

definition on_http_socket_close :: "int \<Rightarrow> client_context \<Rightarrow> https_outcome" where
  "on_http_socket_close code ctx = (ctx, [], [ConnectionClosed code], [])"

definition on_http_socket_end :: "client_context \<Rightarrow> https_outcome" where
  "on_http_socket_end ctx = (ctx, [], [ConnectionEnd], [CloseSocket])"

definition on_http_socket_data :: "string \<Rightarrow> client_context \<Rightarrow> https_outcome result" where
  "on_http_socket_data dat ctx =
     bindE (int_add (received_bytes ctx) (int (length dat))) (\<lambda>total.
       Inr (ctx\<lparr>received_bytes := total\<rparr>, [],
            [DataLength (int (length dat))]
            @ (if 3 < length dat then [FirstChars (dat ! 0) (dat ! 1) (dat ! 2) (dat ! 3)] else [])
            @ [Body dat], []))"

definition on_http_socket_open :: "(string \<Rightarrow> int) \<Rightarrow> client_context \<Rightarrow> https_outcome result" where
  "on_http_socket_open us_write ctx =
     bindE (try_request us_write (ctx\<lparr>has_written_bytes := 0, received_bytes := 0\<rparr>))
       (\<lambda>(ctx, out, lines, cmds). Inr (ctx, out, ConnectOnOpen # lines, cmds))"

definition on_http_socket_long_timeout :: "client_context \<Rightarrow> https_outcome" where
  "on_http_socket_long_timeout ctx = (ctx, [], [MinuteMark], [ArmLongTimeout 1])"

definition on_http_socket_timeout :: "client_context \<Rightarrow> https_outcome" where
  "on_http_socket_timeout ctx = (ctx, [], [OnTimeout], [ArmTimeout])"

definition on_http_socket_connect_error :: "int \<Rightarrow> client_context \<Rightarrow> https_outcome" where
  "on_http_socket_connect_error code ctx = (ctx, [], [CannotConnect], [])"

section \<open>The event loop\<close>

text \<open>
  \<open>hc_sent\<close> and \<open>hc_received\<close> are what the library took and delivered since the connection
  was opened.
\<close>

record https_client =
  hc_ctx :: client_context
  hc_sent :: string
  hc_received :: string
  hc_lines :: "console_line list"
  hc_commands :: "https_command list"

datatype https_event =
    HOpen "string \<Rightarrow> int"
  | HWritable "string \<Rightarrow> int"
  | HData string
  | HEnd
  | HClose int
  | HTimeout
  | HLongTimeout
  | HConnectError int

definition hc_commit :: "string \<Rightarrow> https_client \<Rightarrow> https_outcome \<Rightarrow> https_client" where
  "hc_commit dat s outcome =
     (case outcome of (ctx, out, lines, cmds) \<Rightarrow>
       s\<lparr>hc_ctx := ctx, hc_sent := hc_sent s @ out, hc_received := hc_received s @ dat,
         hc_lines := hc_lines s @ lines, hc_commands := hc_commands s @ cmds\<rparr>)"

fun https_step :: "https_event \<Rightarrow> https_client \<Rightarrow> https_client result" where
  "https_step (HOpen w) s =
     bindE (on_http_socket_open w (hc_ctx s))
       (\<lambda>r. Inr (hc_commit [] (s\<lparr>hc_sent := [], hc_received := []\<rparr>) r))"
| "https_step (HWritable w) s =
     bindE (on_http_socket_writable w (hc_ctx s)) (\<lambda>r. Inr (hc_commit [] s r))"
| "https_step (HData dat) s =
     bindE (on_http_socket_data dat (hc_ctx s)) (\<lambda>r. Inr (hc_commit dat s r))"
| "https_step HEnd s = Inr (hc_commit [] s (on_http_socket_end (hc_ctx s)))"
| "https_step (HClose code) s = Inr (hc_commit [] s (on_http_socket_close code (hc_ctx s)))"
| "https_step HTimeout s = Inr (hc_commit [] s (on_http_socket_timeout (hc_ctx s)))"
| "https_step HLongTimeout s = Inr (hc_commit [] s (on_http_socket_long_timeout (hc_ctx s)))"
| "https_step (HConnectError code) s =
     Inr (hc_commit [] s (on_http_socket_connect_error code (hc_ctx s)))"

definition hc_init :: https_client where
  "hc_init = \<lparr>hc_ctx = \<lparr>has_written_bytes = 0, received_bytes = 0\<rparr>, hc_sent = [], hc_received = [],
              hc_lines = [], hc_commands = []\<rparr>"

section \<open>Invariant\<close>

definition request_write_contract :: "(string \<Rightarrow> int) \<Rightarrow> bool" where
  "request_write_contract w \<longleftrightarrow> (\<forall>region. 0 \<le> w region \<and> w region \<le> int (length region))"

fun hc_writes_ok :: "https_event \<Rightarrow> bool" where
  "hc_writes_ok (HOpen w) \<longleftrightarrow> request_write_contract w"
| "hc_writes_ok (HWritable w) \<longleftrightarrow> request_write_contract w"
| "hc_writes_ok _ \<longleftrightarrow> True"

fun hc_small :: "https_client \<Rightarrow> https_event \<Rightarrow> bool" where
  "hc_small s (HData dat) \<longleftrightarrow> int (length (hc_received s)) + int (length dat) < 2 ^ 31"
| "hc_small s _ \<longleftrightarrow> True"

definition hc_ok :: "https_client \<Rightarrow> https_event \<Rightarrow> bool" where
  "hc_ok s e \<longleftrightarrow> hc_writes_ok e \<and> hc_small s e"

definition hc_inv :: "https_client \<Rightarrow> bool" where
  "hc_inv s \<longleftrightarrow>
     has_written_bytes (hc_ctx s) = int (length (hc_sent s))
   \<and> length (hc_sent s) \<le> length request
   \<and> hc_sent s = take (length (hc_sent s)) request
   \<and> received_bytes (hc_ctx s) = int (length (hc_received s))
   \<and> length (hc_received s) < 2 ^ 31"

lemma request_length [simp]: "length request = 35"
  by (simp add: request_def crlf_def REAL_HOST_def)

lemma try_request_ok:
  assumes written: "has_written_bytes ctx = int n" "n \<le> length request" and w: "request_write_contract w"
  shows "\<exists>k lines. try_request w ctx =
             Inr (ctx\<lparr>has_written_bytes := int (n + k)\<rparr>, take k (drop n request), lines, [])
           \<and> n + k \<le> length request
           \<and> (n < length request \<longrightarrow> int k = w (drop n request))"
proof (cases "n < length request")
  case True
  have "0 \<le> w (drop n request)" "w (drop n request) \<le> int (length request - n)"
    using w unfolding request_write_contract_def by (metis length_drop)+
  then obtain k where k: "w (drop n request) = int k" "k \<le> length request - n"
    by (metis nonneg_int_cases of_nat_le_iff)
  have "try_request w ctx =
          Inr (ctx\<lparr>has_written_bytes := int (n + k)\<rparr>, take k (drop n request), [RequestLength (int (n + k))], [])"
    using True written k by (simp add: try_request_def int_add_def Let_def)
  then show ?thesis
    using k True by (intro exI [of _ k] exI [of _ "[RequestLength (int (n + k))]"] conjI) simp_all
next
  case False
  then show ?thesis
    using written
    by (intro exI [of _ 0] exI [of _ "[RequestLength (int n)]"] conjI) (simp_all add: try_request_def)
qed

lemma take_more:
  assumes "xs = take (length xs) ys" and "length xs + k \<le> length ys"
  shows "xs @ take k (drop (length xs) ys) = take (length xs + k) ys"
  using assms by (simp add: take_add)

lemma hc_step_safe:
  assumes inv: "hc_inv s" and ok: "hc_ok s e"
  shows "\<exists>s'. https_step e s = Inr s' \<and> hc_inv s'"
proof (cases e)
  case (HOpen w)
  with ok have w: "request_write_contract w" by (simp add: hc_ok_def)
  let ?ctx = "(hc_ctx s)\<lparr>has_written_bytes := 0, received_bytes := 0\<rparr>"
  obtain k lines where "try_request w ?ctx =
      Inr (?ctx\<lparr>has_written_bytes := int (0 + k)\<rparr>, take k (drop 0 request), lines, [])"
      and "0 + k \<le> length request"
    using try_request_ok [of ?ctx 0 w] w by auto
  with HOpen show ?thesis by (simp add: on_http_socket_open_def hc_commit_def hc_inv_def)
next
  case (HWritable w)
  with ok have w: "request_write_contract w" by (simp add: hc_ok_def)
  from inv have n: "has_written_bytes (hc_ctx s) = int (length (hc_sent s))"
    and le: "length (hc_sent s) \<le> length request" by (simp_all add: hc_inv_def)
  obtain k lines where "try_request w (hc_ctx s) =
      Inr ((hc_ctx s)\<lparr>has_written_bytes := int (length (hc_sent s) + k)\<rparr>,
           take k (drop (length (hc_sent s)) request), lines, [])"
      and "length (hc_sent s) + k \<le> length request"
    using try_request_ok [OF n le w] by blast
  with inv take_more [of "hc_sent s" request k] HWritable show ?thesis
    by (simp add: on_http_socket_writable_def hc_commit_def hc_inv_def)
next
  case (HData dat)
  with assms show ?thesis
    by (simp add: on_http_socket_data_def int_add_def hc_commit_def hc_inv_def hc_ok_def)
qed (use inv in \<open>simp_all add: hc_inv_def hc_commit_def on_http_socket_end_def on_http_socket_close_def
       on_http_socket_timeout_def on_http_socket_long_timeout_def on_http_socket_connect_error_def\<close>)

interpretation https_machine: safe_machine https_step hc_ok hc_inv
  by unfold_locales (rule hc_step_safe)

lemma hc_inv_init: "hc_inv hc_init"
  by (simp add: hc_inv_def hc_init_def)

section \<open>Progress\<close>

definition request_write_progress :: "(string \<Rightarrow> int) \<Rightarrow> bool" where
  "request_write_progress w \<longleftrightarrow> (\<forall>region. region \<noteq> [] \<longrightarrow> 1 \<le> w region)"

lemma hc_writable:
  assumes inv: "hc_inv s" and w: "request_write_contract w"
  obtains s' k where "https_step (HWritable w) s = Inr s'" and "hc_inv s'"
    and "length (hc_sent s') = length (hc_sent s) + k" and "hc_received s' = hc_received s"
    and "length (hc_sent s) < length request \<Longrightarrow> request_write_progress w \<Longrightarrow> 0 < k"
    and "length (hc_sent s) = length request \<Longrightarrow> hc_sent s' = hc_sent s \<and> hc_ctx s' = hc_ctx s"
proof -
  let ?n = "length (hc_sent s)"
  from inv have n: "has_written_bytes (hc_ctx s) = int ?n" and le: "?n \<le> length request"
    by (simp_all add: hc_inv_def)
  obtain k lines where try_req: "try_request w (hc_ctx s) =
      Inr ((hc_ctx s)\<lparr>has_written_bytes := int (?n + k)\<rparr>, take k (drop ?n request), lines, [])"
      and k: "?n + k \<le> length request" "?n < length request \<Longrightarrow> int k = w (drop ?n request)"
    using try_request_ok [OF n le w] by blast
  let ?s' = "hc_commit [] s ((hc_ctx s)\<lparr>has_written_bytes := int (?n + k)\<rparr>,
               take k (drop ?n request), lines, [])"
  have step: "https_step (HWritable w) s = Inr ?s'"
    using try_req by (simp add: on_http_socket_writable_def)
  show thesis
  proof (rule that [OF step])
    show "hc_inv ?s'" using hc_step_safe [OF inv, of "HWritable w"] step w by (simp add: hc_ok_def)
    show "length (hc_sent ?s') = ?n + k" using k(1) by (simp add: hc_commit_def)
    show "hc_received ?s' = hc_received s" by (simp add: hc_commit_def)
    show "0 < k" if less: "?n < length request" and "request_write_progress w"
    proof -
      have "1 \<le> w (drop ?n request)" using that by (simp add: request_write_progress_def)
      with k(2) [OF less] show ?thesis by simp
    qed
    show "hc_sent ?s' = hc_sent s \<and> hc_ctx ?s' = hc_ctx s" if "?n = length request"
      using that k(1) n by (simp add: hc_commit_def)
  qed
qed

lemma request_completes:
  assumes "hc_inv s"
    and "\<And>w. w \<in> set ws \<Longrightarrow> request_write_contract w \<and> request_write_progress w"
    and "length request - length (hc_sent s) \<le> length ws"
  shows "\<exists>s'. run https_step (map HWritable ws) s = Inr s' \<and> hc_inv s' \<and> hc_sent s' = request"
  using assms
proof (induction ws arbitrary: s)
  case Nil
  then have "length (hc_sent s) = length request" by (auto simp: hc_inv_def)
  with Nil.prems(1) have "hc_sent s = request" unfolding hc_inv_def by (metis take_all_iff le_refl)
  with Nil.prems(1) show ?case by simp
next
  case (Cons w ws)
  then have w: "request_write_contract w" "request_write_progress w" by simp_all
  obtain s' k where s': "https_step (HWritable w) s = Inr s'" "hc_inv s'"
      "length (hc_sent s') = length (hc_sent s) + k"
      and k: "length (hc_sent s) < length request \<Longrightarrow> request_write_progress w \<Longrightarrow> 0 < k"
    using hc_writable [OF Cons.prems(1) w(1)] by metis
  have "length request - length (hc_sent s') \<le> length ws"
    using s'(3) k w(2) Cons.prems(3) by (cases "length (hc_sent s) < length request") auto
  then obtain t where "run https_step (map HWritable ws) s' = Inr t \<and> hc_inv t \<and> hc_sent t = request"
    using Cons.IH [OF s'(2)] Cons.prems(2) by auto
  with s'(1) show ?case by simp
qed

section \<open>Properties\<close>

definition all_of :: "string \<Rightarrow> int" where
  "all_of region = int (length region)"

definition five_of :: "string \<Rightarrow> int" where
  "five_of region = min 5 (int (length region))"

definition short_exchange :: "https_event list" where
  "short_exchange = [HOpen five_of, HWritable five_of, HData ''HTTP/1.1 200 OK'', HEnd, HClose 0]"

lemma writes_contract:
  "request_write_contract all_of" "request_write_contract five_of"
  "request_write_progress all_of" "request_write_progress five_of"
  by (auto simp: request_write_contract_def request_write_progress_def all_of_def five_of_def Suc_le_eq)

lemma short_exchange_admissible: "admissible https_step hc_ok hc_init short_exchange"
proof -
  have "admissible https_step hc_small hc_init short_exchange" by code_simp
  then have "admissible https_step (\<lambda>s e. hc_writes_ok e \<and> hc_small s e) hc_init short_exchange"
    by (rule admissible_conj [rotated]) (auto simp: short_exchange_def writes_contract)
  moreover have "hc_ok = (\<lambda>s e. hc_writes_ok e \<and> hc_small s e)" by (intro ext) (simp add: hc_ok_def)
  ultimately show ?thesis by simp
qed

text \<open>
  C23. Whatever the sizes of the partial writes, what the client has put on the wire is the
  prefix of the request whose length is \<^verbatim>\<open>has_written_bytes\<close>: no part of the request is sent
  twice or skipped, and \<^verbatim>\<open>received_bytes\<close> is what the connection has delivered.
\<close>

theorem https_request_prefix:
  assumes "admissible https_step hc_ok hc_init es"
  shows "\<exists>s. run https_step es hc_init = Inr s
     \<and> hc_sent s = take (nat (has_written_bytes (hc_ctx s))) request
     \<and> 0 \<le> has_written_bytes (hc_ctx s) \<and> has_written_bytes (hc_ctx s) \<le> int (length request)
     \<and> received_bytes (hc_ctx s) = int (length (hc_received s))"
  using https_machine.run_safe [OF hc_inv_init assms] unfolding hc_inv_def by auto

theorem https_request_prefix_witness:
  "\<exists>s. run https_step short_exchange hc_init = Inr s
     \<and> hc_sent s = take (nat (has_written_bytes (hc_ctx s))) request"
  using https_request_prefix [OF short_exchange_admissible] by blast

text \<open>
  C22. The request is sent in full: if every write takes at least one byte, then after as
  many writable events as bytes are left the whole request, and nothing else, has been
  sent.
\<close>

theorem https_request_completes:
  assumes "admissible https_step hc_ok hc_init es" and "run https_step es hc_init = Inr s"
    and "\<And>w. w \<in> set ws \<Longrightarrow> request_write_contract w \<and> request_write_progress w"
    and "length request - length (hc_sent s) \<le> length ws"
  shows "\<exists>s'. run https_step (map HWritable ws) s = Inr s' \<and> hc_sent s' = request"
  using request_completes [OF https_machine.run_inv [OF hc_inv_init assms(1,2)] assms(3,4)] by blast

theorem https_request_completes_witness:
  "\<exists>s s'. run https_step short_exchange hc_init = Inr s
     \<and> run https_step (map HWritable (replicate 35 five_of)) s = Inr s' \<and> hc_sent s' = request"
proof -
  obtain s where s: "run https_step short_exchange hc_init = Inr s"
    using https_machine.run_safe [OF hc_inv_init short_exchange_admissible] by blast
  from https_request_completes [OF short_exchange_admissible s, of "replicate 35 five_of"]
  show ?thesis using s writes_contract by auto
qed

end
