(* ===== verification/MsgEcho.thy ===== *)
theory MsgEcho
  imports Stats
begin

text \<open>
  The uWebSockets echo server, \<^verbatim>\<open>src/uwebsockets/echo_server.cpp\<close>, and the websocketpp echo
  server, \<^verbatim>\<open>src/websocketpp/echo_server.cpp\<close>. Both libraries deliver whole messages, and
  both programs count a message, send it back with its opcode, count it again and call
  \<^verbatim>\<open>count_stats\<close>. Whether a send is dropped (uWebSockets, over its backpressure limit) or
  throws (websocketpp) is decided by the library and is a parameter of the event.
\<close>

section \<open>State\<close>

text \<open>The locals that the uWebSockets lambdas capture, the globals of the websocketpp file.\<close>

record echo_stats = stats +
  last_msg_size :: u64
  conn_count :: int

type_synonym frame = "u8 \<times> u8 list"

type_synonym echo_report = "(u64 \<times> int) report"

record echo_server =
  srv_stats :: echo_stats
  srv_reports :: "echo_report list"
  srv_conns :: "nat set"
  srv_out :: "nat \<Rightarrow> frame list"

definition init_echo_stats :: echo_stats where
  "init_echo_stats = stats.extend init_stats (echo_stats.fields 0 0)"

definition init_server :: echo_server where
  "init_server =
     \<lparr>srv_stats = init_echo_stats, srv_reports = [], srv_conns = {}, srv_out = (\<lambda>_. [])\<rparr>"

text \<open>The library adds and removes the connection around the callbacks \<open>f\<close>.\<close>

definition opened :: "nat \<Rightarrow> (echo_stats \<Rightarrow> echo_stats) \<Rightarrow> echo_server \<Rightarrow> echo_server" where
  "opened i f s =
     s\<lparr>srv_stats := f (srv_stats s), srv_conns := insert i (srv_conns s),
       srv_out := (srv_out s)(i := [])\<rparr>"

definition closed :: "nat \<Rightarrow> (echo_stats \<Rightarrow> echo_stats) \<Rightarrow> echo_server \<Rightarrow> echo_server" where
  "closed i f s = s\<lparr>srv_stats := f (srv_stats s), srv_conns := srv_conns s - {i}\<rparr>"

definition sent_to :: "nat \<Rightarrow> frame list \<Rightarrow> echo_server \<Rightarrow> echo_server" where
  "sent_to i fs s = s\<lparr>srv_out := (srv_out s)(i := srv_out s i @ fs)\<rparr>"

definition reported :: "echo_stats \<times> echo_report list \<Rightarrow> echo_server \<Rightarrow> echo_server" where
  "reported r s = s\<lparr>srv_stats := fst r, srv_reports := srv_reports s @ snd r\<rparr>"

section \<open>The uWebSockets server\<close>

definition uws_count_stats :: "clock \<Rightarrow> echo_stats \<Rightarrow> echo_stats \<times> echo_report list" where
  "uws_count_stats now st =
     (if last_interval_recv_msg_cnt st AND 0xffff \<noteq> 0 \<or> last_interval_recv_msg_cnt st = 0
      then (st, [])
      else (reset_interval (now AtRestart) st,
            [interval_report (last_msg_size st, conn_count st) (now AtReport) st]))"

definition uws_open :: "echo_stats \<Rightarrow> echo_stats" where
  "uws_open st = st\<lparr>conn_count := conn_count st + 1\<rparr>"

definition uws_close :: "echo_stats \<Rightarrow> echo_stats" where
  "uws_close st = st\<lparr>conn_count := conn_count st - 1\<rparr>"

text \<open>
  \<^verbatim>\<open>ws->send\<close> has three outcomes, none of which the handler looks at. A message is dropped
  when the backpressure limit is reached; otherwise it is written or queued.
\<close>

datatype send_status = Backpressure | Success | Dropped

definition uws_message :: "nat \<Rightarrow> clock \<Rightarrow> frame \<Rightarrow> send_status \<Rightarrow> echo_server \<Rightarrow> echo_server" where
  "uws_message i now msg status s =
     (let msg_size = length (snd msg);
          st = start_interval (now AtFirstMessage) (srv_stats s);
          st = count_recv_msg (count_recv_bytes msg_size st);
          s = sent_to i (if status = Dropped then [] else [msg]) s;
          st = count_sent msg_size (st\<lparr>last_msg_size := of_nat msg_size\<rparr>)
      in reported (uws_count_stats now st) s)"

datatype uws_event =
    UwsOpen nat
  | UwsMessage nat clock frame send_status
  | UwsDrain nat
  | UwsPing nat
  | UwsPong nat
  | UwsClose nat

fun uws_step :: "uws_event \<Rightarrow> echo_server \<Rightarrow> echo_server result" where
  "uws_step (UwsOpen i) s = Inr (opened i uws_open s)"
| "uws_step (UwsMessage i now msg status) s = Inr (uws_message i now msg status s)"
| "uws_step (UwsDrain i) s = Inr s"
| "uws_step (UwsPing i) s = Inr s"
| "uws_step (UwsPong i) s = Inr s"
| "uws_step (UwsClose i) s = Inr (closed i uws_close s)"

section \<open>The websocketpp server\<close>

definition tpp_count_stats :: "u64 \<Rightarrow> clock \<Rightarrow> echo_stats \<Rightarrow> echo_stats \<times> echo_report list" where
  "tpp_count_stats max_data_len now st =
     (if (last_interval_recv_msg_cnt st AND 0xfffff \<noteq> 0
           \<and> last_interval_recv_bytes st \<le> max_data_len * 4096)
         \<or> last_interval_recv_msg_cnt st = 0
      then (st, [])
      else (reset_interval (now AtRestart) st,
            [interval_report (last_msg_size st, conn_count st) (now AtReport) st]))"

definition tpp_on_open :: "echo_stats \<Rightarrow> echo_stats" where
  "tpp_on_open st = st\<lparr>conn_count := conn_count st + 1\<rparr>"

definition tpp_on_close :: "echo_stats \<Rightarrow> echo_stats" where
  "tpp_on_close st = st\<lparr>conn_count := conn_count st - 1\<rparr>"

text \<open>
  \<open>throws\<close>: \<^verbatim>\<open>s->send\<close> raises a \<^verbatim>\<open>websocketpp::exception\<close>, which the handler catches after
  the received message has been counted.
\<close>

definition tpp_on_message ::
  "u64 \<Rightarrow> nat \<Rightarrow> clock \<Rightarrow> frame \<Rightarrow> bool \<Rightarrow> echo_server \<Rightarrow> echo_server" where
  "tpp_on_message max_data_len i now msg throws s =
     (let msg_size = length (snd msg);
          st = start_interval (now AtFirstMessage) (srv_stats s);
          st = count_recv_msg (count_recv_bytes msg_size st)
      in if throws then s\<lparr>srv_stats := st\<rparr>
         else (let s = sent_to i [msg] s;
                   st = count_sent msg_size (st\<lparr>last_msg_size := of_nat msg_size\<rparr>)
               in reported (tpp_count_stats max_data_len now st) s))"

datatype tpp_event =
    TppOpen nat
  | TppMessage nat clock frame bool
  | TppClose nat

fun tpp_step :: "u64 \<Rightarrow> tpp_event \<Rightarrow> echo_server \<Rightarrow> echo_server result" where
  "tpp_step max_data_len (TppOpen i) s = Inr (opened i tpp_on_open s)"
| "tpp_step max_data_len (TppMessage i now msg throws) s =
     Inr (tpp_on_message max_data_len i now msg throws s)"
| "tpp_step max_data_len (TppClose i) s = Inr (closed i tpp_on_close s)"

section \<open>Reporting\<close>

definition uws_gate :: "echo_stats \<Rightarrow> bool" where
  "uws_gate = gate_mask 0xffff"

definition tpp_gate :: "u64 \<Rightarrow> echo_stats \<Rightarrow> bool" where
  "tpp_gate = gate_mask_or_bytes 0xfffff"

interpretation uws_reporter: periodic_reporter uws_count_stats uws_gate 65536
proof
  fix st :: echo_stats and now :: clock
  show "\<not> uws_gate st \<Longrightarrow> uws_count_stats now st = (st, [])"
    by (simp add: uws_gate_def gate_mask_def uws_count_stats_def)
  show "uws_gate st \<Longrightarrow> \<exists>x. uws_count_stats now st =
          (reset_interval (now AtRestart) st, [interval_report x (now AtReport) st])"
    by (auto simp: uws_gate_def gate_mask_def uws_count_stats_def)
  show "uws_gate st \<Longrightarrow> last_interval_recv_msg_cnt st \<noteq> 0"
    by (simp add: uws_gate_def gate_mask_def)
  show "uws_gate st \<longleftrightarrow> unat (last_interval_recv_msg_cnt st) mod 65536 = 0
          \<and> last_interval_recv_msg_cnt st \<noteq> 0"
    using and_mask_iff [of "last_interval_recv_msg_cnt st" 16]
    by (simp add: uws_gate_def gate_mask_def mask_eq_exp_minus_1)
qed simp_all

interpretation tpp_reporter: reporter "tpp_count_stats max_data_len" "tpp_gate max_data_len"
  for max_data_len
  by unfold_locales
    (auto simp: tpp_gate_def gate_mask_or_bytes_def tpp_count_stats_def)

section \<open>What a message server promises\<close>

text \<open>
  The abstract server knows no intervals: it counts messages and bytes in unbounded
  numbers, keeps the open connections, and lists the frames sent on each.
\<close>

record echo_spec =
  sp_recv_msgs :: nat
  sp_recv_bytes :: nat
  sp_send_msgs :: nat
  sp_send_bytes :: nat
  sp_conns :: "nat set"
  sp_out :: "nat \<Rightarrow> frame list"

definition init_spec :: echo_spec where
  "init_spec =
     \<lparr>sp_recv_msgs = 0, sp_recv_bytes = 0, sp_send_msgs = 0, sp_send_bytes = 0, sp_conns = {},
      sp_out = (\<lambda>_. [])\<rparr>"

definition sp_open :: "nat \<Rightarrow> echo_spec \<Rightarrow> echo_spec" where
  "sp_open i a = a\<lparr>sp_conns := insert i (sp_conns a), sp_out := (sp_out a)(i := [])\<rparr>"

definition sp_close :: "nat \<Rightarrow> echo_spec \<Rightarrow> echo_spec" where
  "sp_close i a = a\<lparr>sp_conns := sp_conns a - {i}\<rparr>"

definition sp_receive :: "frame \<Rightarrow> echo_spec \<Rightarrow> echo_spec" where
  "sp_receive msg a =
     a\<lparr>sp_recv_msgs := sp_recv_msgs a + 1, sp_recv_bytes := sp_recv_bytes a + length (snd msg)\<rparr>"

definition sp_send :: "nat \<Rightarrow> frame \<Rightarrow> frame list \<Rightarrow> echo_spec \<Rightarrow> echo_spec" where
  "sp_send i msg fs a =
     a\<lparr>sp_send_msgs := sp_send_msgs a + 1, sp_send_bytes := sp_send_bytes a + length (snd msg),
       sp_out := (sp_out a)(i := sp_out a i @ fs)\<rparr>"

lemmas sp_defs = sp_open_def sp_close_def sp_receive_def sp_send_def

fun uws_spec_step :: "uws_event \<Rightarrow> echo_spec \<Rightarrow> echo_spec" where
  "uws_spec_step (UwsOpen i) a = sp_open i a"
| "uws_spec_step (UwsMessage i now msg status) a =
     sp_send i msg (if status = Dropped then [] else [msg]) (sp_receive msg a)"
| "uws_spec_step (UwsClose i) a = sp_close i a"
| "uws_spec_step _ a = a"

fun tpp_spec_step :: "tpp_event \<Rightarrow> echo_spec \<Rightarrow> echo_spec" where
  "tpp_spec_step (TppOpen i) a = sp_open i a"
| "tpp_spec_step (TppMessage i now msg throws) a =
     (if throws then sp_receive msg a else sp_send i msg [msg] (sp_receive msg a))"
| "tpp_spec_step (TppClose i) a = sp_close i a"

text \<open>A library opens a connection once and calls back only for open ones.\<close>

fun uws_ok :: "echo_server \<Rightarrow> uws_event \<Rightarrow> bool" where
  "uws_ok s (UwsOpen i) \<longleftrightarrow> i \<notin> srv_conns s"
| "uws_ok s (UwsMessage i now msg status) \<longleftrightarrow> i \<in> srv_conns s"
| "uws_ok s (UwsDrain i) \<longleftrightarrow> i \<in> srv_conns s"
| "uws_ok s (UwsPing i) \<longleftrightarrow> i \<in> srv_conns s"
| "uws_ok s (UwsPong i) \<longleftrightarrow> i \<in> srv_conns s"
| "uws_ok s (UwsClose i) \<longleftrightarrow> i \<in> srv_conns s"

fun tpp_ok :: "echo_server \<Rightarrow> tpp_event \<Rightarrow> bool" where
  "tpp_ok s (TppOpen i) \<longleftrightarrow> i \<notin> srv_conns s"
| "tpp_ok s (TppMessage i now msg throws) \<longleftrightarrow> i \<in> srv_conns s"
| "tpp_ok s (TppClose i) \<longleftrightarrow> i \<in> srv_conns s"

text \<open>
  The concrete server refines it: same connections and output; the 64-bit totals are the
  abstract ones modulo \<open>2\<^sup>6\<^sup>4\<close>.
\<close>

definition echo_refines :: "echo_server \<Rightarrow> echo_spec \<Rightarrow> bool" where
  "echo_refines s a \<longleftrightarrow>
     finite (sp_conns a) \<and> srv_conns s = sp_conns a \<and> srv_out s = sp_out a
   \<and> conn_count (srv_stats s) = int (card (sp_conns a))
   \<and> total_recv_bytes (srv_stats s) (srv_reports s) = of_nat (sp_recv_bytes a)
   \<and> total_recv_msgs (srv_stats s) (srv_reports s) = of_nat (sp_recv_msgs a)
   \<and> total_send_bytes (srv_stats s) (srv_reports s) = of_nat (sp_send_bytes a)
   \<and> total_send_msgs (srv_stats s) (srv_reports s) = of_nat (sp_send_msgs a)"

definition uws_R :: "echo_server \<Rightarrow> echo_spec \<Rightarrow> bool" where
  "uws_R s a \<longleftrightarrow> echo_refines s a
     \<and> unat (last_interval_recv_msg_cnt (srv_stats s)) = sp_recv_msgs a mod 65536
     \<and> length (srv_reports s) = sp_recv_msgs a div 65536"

lemma echo_refines_init: "echo_refines init_server init_spec"
  by (simp add: echo_refines_def init_server_def init_spec_def init_echo_stats_def init_stats_def
      stats.defs echo_stats.defs total_defs)

lemma uws_R_init: "uws_R init_server init_spec"
  using echo_refines_init
  by (simp add: uws_R_def init_server_def init_spec_def init_echo_stats_def init_stats_def stats.defs)

lemma opened_refines:
  assumes "echo_refines s a" and "i \<notin> srv_conns s"
    and "f = (\<lambda>st. st\<lparr>conn_count := conn_count st + 1\<rparr>)"
  shows "echo_refines (opened i f s) (sp_open i a)"
  using assms by (auto simp: echo_refines_def opened_def sp_open_def total_defs)

lemma closed_refines:
  assumes "echo_refines s a" and "i \<in> srv_conns s"
    and "f = (\<lambda>st. st\<lparr>conn_count := conn_count st - 1\<rparr>)"
  shows "echo_refines (closed i f s) (sp_close i a)"
proof -
  have "card (sp_conns a) = Suc (card (sp_conns a - {i}))"
    using assms by (intro card.remove) (auto simp: echo_refines_def)
  with assms show ?thesis by (simp add: echo_refines_def closed_def sp_close_def total_defs)
qed

lemma conn_count_start_interval [simp]: "conn_count (start_interval t st) = conn_count st"
  by (simp add: start_interval_def)

text \<open>A message counted in, and its echo counted out, with whatever the gate then does.\<close>

lemma received_refines:
  assumes "echo_refines s a"
  shows "echo_refines (s\<lparr>srv_stats := count_recv_msg (count_recv_bytes (length (snd msg))
           (start_interval t (srv_stats s)))\<rparr>) (sp_receive msg a)"
  using assms
  by (simp add: echo_refines_def sp_receive_def total_defs counting_defs add.assoc [symmetric])

lemma echoed_refines:
  assumes ref: "echo_refines (s\<lparr>srv_stats := st\<rparr>) a"
    and st1: "st1 = count_sent (length (snd msg)) (st\<lparr>last_msg_size := n\<rparr>)"
    and tot: "total_recv_bytes st2 new = last_interval_recv_bytes st1"
      "total_send_bytes st2 new = last_interval_send_bytes st1"
      "total_recv_msgs st2 new = last_interval_recv_msg_cnt st1"
      "total_send_msgs st2 new = last_interval_send_msg_cnt st1"
      "stats.more st2 = stats.more st1"
  shows "echo_refines (reported (st2, new) (sent_to i fs s)) (sp_send i msg fs a)"
proof -
  have "conn_count st2 = conn_count st"
    using tot(5) st1 by (cases st2; cases st) (simp add: count_sent_def echo_stats.defs)
  then show ?thesis
    using ref unfolding echo_refines_def reported_def sent_to_def sp_send_def totals_append
    by (simp add: totals_append tot(1-4) st1 counting_defs) (simp add: total_defs algebra_simps)
qed

lemma uws_message_simulates:
  assumes R: "uws_R s a" and conn: "i \<in> srv_conns s"
  shows "uws_R (uws_message i now msg status s) (uws_spec_step (UwsMessage i now msg status) a)"
proof -
  define st where "st = count_recv_msg (count_recv_bytes (length (snd msg))
                          (start_interval (now AtFirstMessage) (srv_stats s)))"
  define st1 where "st1 = count_sent (length (snd msg)) (st\<lparr>last_msg_size := of_nat (length (snd msg))\<rparr>)"
  let ?fs = "if status = Dropped then [] else [msg]"
  obtain st2 new where cs: "uws_count_stats now st1 = (st2, new)" by (metis surj_pair)
  have msg: "uws_message i now msg status s = reported (st2, new) (sent_to i ?fs s)"
    by (simp add: uws_message_def Let_def st_def [symmetric] st1_def [symmetric] cs del: if_split)
  have "echo_refines (s\<lparr>srv_stats := st\<rparr>) (sp_receive msg a)"
    unfolding st_def using R by (intro received_refines) (simp add: uws_R_def)
  from echoed_refines [OF this st1_def uws_reporter.conserves [OF cs] uws_reporter.frame [OF cs]]
  have ref: "echo_refines (reported (st2, new) (sent_to i ?fs s)) (sp_send i msg ?fs (sp_receive msg a))" .
  have cnt: "last_interval_recv_msg_cnt st1 = last_interval_recv_msg_cnt (srv_stats s) + 1"
    by (simp add: st1_def st_def counting_defs)
  note tick = uws_reporter.tick [OF _ _ cnt cs, of "sp_recv_msgs a" "srv_reports s"]
  from R ref msg tick show ?thesis
    by (simp add: uws_R_def reported_def sent_to_def sp_defs)
qed

interpretation uws_sim: simulation uws_step uws_ok uws_spec_step uws_R
proof
  fix s a e
  assume R: "uws_R s a" and ok: "uws_ok s e"
  show "\<exists>s'. uws_step e s = Inr s' \<and> uws_R s' (uws_spec_step e a)"
  proof (cases e)
    case (UwsMessage i now msg status)
    with ok uws_message_simulates [OF R, of i now msg status] show ?thesis by simp
  next
    case (UwsOpen i)
    have "echo_refines (opened i uws_open s) (sp_open i a)"
      by (rule opened_refines) (use R ok UwsOpen in \<open>simp_all add: uws_R_def uws_open_def fun_eq_iff\<close>)
    with R UwsOpen show ?thesis by (simp add: uws_R_def opened_def uws_open_def sp_open_def)
  next
    case (UwsClose i)
    have "echo_refines (closed i uws_close s) (sp_close i a)"
      by (rule closed_refines) (use R ok UwsClose in \<open>simp_all add: uws_R_def uws_close_def fun_eq_iff\<close>)
    with R UwsClose show ?thesis by (simp add: uws_R_def closed_def uws_close_def sp_close_def)
  qed (use R in simp_all)
qed

lemma tpp_message_simulates:
  assumes R: "echo_refines s a"
  shows "echo_refines (tpp_on_message mx i now msg throws s) (tpp_spec_step (TppMessage i now msg throws) a)"
proof -
  define st where "st = count_recv_msg (count_recv_bytes (length (snd msg))
                          (start_interval (now AtFirstMessage) (srv_stats s)))"
  define st1 where "st1 = count_sent (length (snd msg)) (st\<lparr>last_msg_size := of_nat (length (snd msg))\<rparr>)"
  obtain st2 new where cs: "tpp_count_stats mx now st1 = (st2, new)" by (metis surj_pair)
  have recv: "echo_refines (s\<lparr>srv_stats := st\<rparr>) (sp_receive msg a)"
    unfolding st_def by (rule received_refines [OF R])
  from echoed_refines [OF this st1_def tpp_reporter.conserves [OF cs] tpp_reporter.frame [OF cs]]
  have "echo_refines (reported (st2, new) (sent_to i [msg] s)) (sp_send i msg [msg] (sp_receive msg a))" .
  moreover have "tpp_on_message mx i now msg throws s =
      (if throws then s\<lparr>srv_stats := st\<rparr> else reported (st2, new) (sent_to i [msg] s))"
    by (simp add: tpp_on_message_def Let_def st_def [symmetric] st1_def [symmetric] cs)
  ultimately show ?thesis using recv by simp
qed

interpretation tpp_sim: simulation "tpp_step mx" tpp_ok tpp_spec_step echo_refines
  for mx
proof
  fix s a e
  assume R: "echo_refines s a" and ok: "tpp_ok s e"
  show "\<exists>s'. tpp_step mx e s = Inr s' \<and> echo_refines s' (tpp_spec_step e a)"
  proof (cases e)
    case (TppMessage i now msg throws)
    with tpp_message_simulates [OF R, of mx i now msg throws] show ?thesis by simp
  next
    case (TppOpen i)
    have "echo_refines (opened i tpp_on_open s) (sp_open i a)"
      by (rule opened_refines) (use R ok TppOpen in \<open>simp_all add: tpp_on_open_def fun_eq_iff\<close>)
    with TppOpen show ?thesis by simp
  next
    case (TppClose i)
    have "echo_refines (closed i tpp_on_close s) (sp_close i a)"
      by (rule closed_refines) (use R ok TppClose in \<open>simp_all add: tpp_on_close_def fun_eq_iff\<close>)
    with TppClose show ?thesis by simp
  qed
qed

section \<open>Properties\<close>

definition uws_sample :: "uws_event list" where
  "uws_sample =
     [UwsOpen 1, UwsOpen 2, UwsMessage 1 (\<lambda>_. 5) (2, [10, 11]) Success,
      UwsMessage 2 (\<lambda>_. 6) (1, [12]) Dropped, UwsPing 1, UwsMessage 1 (\<lambda>_. 7) (1, []) Backpressure,
      UwsClose 2]"

definition tpp_sample :: "tpp_event list" where
  "tpp_sample =
     [TppOpen 1, TppMessage 1 (\<lambda>_. 5) (2, [10, 11]) False, TppMessage 1 (\<lambda>_. 6) (1, [12]) True,
      TppMessage 1 (\<lambda>_. 7) (1, [13]) False, TppClose 1]"

lemma uws_sample_admissible: "admissible uws_step uws_ok init_server uws_sample"
  by (simp add: uws_sample_def init_server_def opened_def uws_message_def Let_def reported_def
      sent_to_def)

lemma tpp_sample_admissible: "admissible (tpp_step 64) tpp_ok init_server tpp_sample"
  by (simp add: tpp_sample_def init_server_def opened_def tpp_on_message_def Let_def reported_def
      sent_to_def)

text \<open>
  C10. The uWebSockets server refines the abstract message server in every run: on each
  connection it sends back exactly the messages that were received and not dropped, in
  order, with their opcodes; its connection counter is the number of open connections; and
  what its reports took plus what its counters hold is, modulo \<open>2\<^sup>6\<^sup>4\<close>, the number of
  messages and bytes received and echoed, dropped ones included.
\<close>

theorem uws_refines_spec:
  assumes "admissible uws_step uws_ok init_server es"
  shows "\<exists>s. run uws_step es init_server = Inr s
     \<and> (let a = fold uws_spec_step es init_spec in
          srv_out s = sp_out a
        \<and> conn_count (srv_stats s) = int (card (sp_conns a))
        \<and> total_recv_msgs (srv_stats s) (srv_reports s) = of_nat (sp_recv_msgs a)
        \<and> total_recv_bytes (srv_stats s) (srv_reports s) = of_nat (sp_recv_bytes a)
        \<and> total_send_msgs (srv_stats s) (srv_reports s) = of_nat (sp_send_msgs a)
        \<and> total_send_bytes (srv_stats s) (srv_reports s) = of_nat (sp_send_bytes a))"
  using uws_sim.run_simulates [OF uws_R_init assms]
  unfolding uws_R_def echo_refines_def Let_def by blast

theorem uws_refines_spec_witness:
  "\<exists>s. run uws_step uws_sample init_server = Inr s
     \<and> srv_out s 1 = [(2, [10, 11]), (1, [])] \<and> srv_out s 2 = []
     \<and> conn_count (srv_stats s) = 1
     \<and> total_send_msgs (srv_stats s) (srv_reports s) = 3"
  using uws_refines_spec [OF uws_sample_admissible]
  by (auto simp: uws_sample_def init_spec_def sp_defs)

text \<open>
  The uWebSockets server reports once every 65536 messages: after any number of
  messages the number of reports is that number divided by 65536 and the interval counter
  is the remainder.
\<close>

theorem uws_reporting_period:
  assumes "admissible uws_step uws_ok init_server es" and "run uws_step es init_server = Inr s"
  shows "length (srv_reports s) = sp_recv_msgs (fold uws_spec_step es init_spec) div 65536
     \<and> unat (last_interval_recv_msg_cnt (srv_stats s))
         = sp_recv_msgs (fold uws_spec_step es init_spec) mod 65536"
  using uws_sim.run_simulates [OF uws_R_init assms(1)] assms(2) by (simp add: uws_R_def)

theorem uws_reporting_period_witness:
  "\<exists>s. run uws_step uws_sample init_server = Inr s \<and> srv_reports s = []
     \<and> unat (last_interval_recv_msg_cnt (srv_stats s)) = 3"
proof -
  obtain s where s: "run uws_step uws_sample init_server = Inr s"
    using uws_sim.run_simulates [OF uws_R_init uws_sample_admissible] by blast
  from uws_reporting_period [OF uws_sample_admissible s] s show ?thesis
    by (simp add: uws_sample_def init_spec_def sp_defs)
qed

text \<open>
  C21. The websocketpp server refines the abstract message server whichever sends throw: a
  message whose echo throws is counted as received and neither counted nor sent as an echo,
  every other message is sent back unchanged and in order.
\<close>

theorem tpp_refines_spec:
  assumes "admissible (tpp_step max_data_len) tpp_ok init_server es"
  shows "\<exists>s. run (tpp_step max_data_len) es init_server = Inr s
     \<and> (let a = fold tpp_spec_step es init_spec in
          srv_out s = sp_out a
        \<and> conn_count (srv_stats s) = int (card (sp_conns a))
        \<and> total_recv_msgs (srv_stats s) (srv_reports s) = of_nat (sp_recv_msgs a)
        \<and> total_recv_bytes (srv_stats s) (srv_reports s) = of_nat (sp_recv_bytes a)
        \<and> total_send_msgs (srv_stats s) (srv_reports s) = of_nat (sp_send_msgs a)
        \<and> total_send_bytes (srv_stats s) (srv_reports s) = of_nat (sp_send_bytes a))"
  using tpp_sim.run_simulates [OF echo_refines_init assms]
  unfolding echo_refines_def Let_def by blast

theorem tpp_refines_spec_witness:
  "\<exists>s. run (tpp_step 64) tpp_sample init_server = Inr s
     \<and> srv_out s 1 = [(2, [10, 11]), (1, [13])]
     \<and> total_recv_msgs (srv_stats s) (srv_reports s) = 3
     \<and> total_send_msgs (srv_stats s) (srv_reports s) = 2"
  using tpp_refines_spec [OF tpp_sample_admissible]
  by (auto simp: tpp_sample_def init_spec_def sp_defs)

text \<open>
  The websocketpp interval is bounded: after every message that is echoed, either the
  interval has just been reported and its counters are zero, or it holds at most
  \<^verbatim>\<open>MAX_DATA_LEN * 4096\<close> bytes and its message count is not a multiple of \<open>2\<^sup>2\<^sup>0\<close>.
\<close>

theorem tpp_interval_bounded:
  "last_interval_recv_msg_cnt (srv_stats (tpp_on_message mx i now msg False s)) = 0
   \<or> last_interval_recv_bytes (srv_stats (tpp_on_message mx i now msg False s)) \<le> mx * 4096
     \<and> unat (last_interval_recv_msg_cnt (srv_stats (tpp_on_message mx i now msg False s))) mod 2 ^ 20 \<noteq> 0"
proof -
  obtain st where "srv_stats (tpp_on_message mx i now msg False s) = fst (tpp_count_stats mx now st)"
    by (simp add: tpp_on_message_def Let_def reported_def)
  then have "\<not> tpp_gate mx (srv_stats (tpp_on_message mx i now msg False s))"
    using tpp_reporter.shut_after by simp
  then show ?thesis
    using and_mask_iff [of _ 20]
    by (auto simp: tpp_gate_def gate_mask_or_bytes_def mask_eq_exp_minus_1)
qed

end
