(* ===== verification/IoBuf.thy ===== *)
theory IoBuf
  imports Prelude
begin

text \<open>
  The message buffers of the flashws programs. The type \<^verbatim>\<open>fws::IOBuffer\<close> and the allocator
  \<^verbatim>\<open>fws::RequestBuf\<close> belong to the flashws library; the programs use the fields \<^verbatim>\<open>data\<close>,
  \<^verbatim>\<open>start_pos\<close> and \<^verbatim>\<open>size\<close>, copy a part behind what the buffer holds, and move whole buffers.
  A moved-from buffer is \<open>None\<close>. What a fresh buffer looks like is the allocator's choice, so
  it comes as a parameter; documented of it is \<open>fresh_for\<close>: a block of at least the size
  requested, holding nothing.
\<close>

section \<open>The interface\<close>

locale reassembly_buffer =
  fixes append :: "'b \<Rightarrow> u8 list \<Rightarrow> 'b result"
    and contents :: "'b \<Rightarrow> u8 list"
    and room :: "'b \<Rightarrow> nat"
    and valid :: "'b \<Rightarrow> bool"
  assumes append_fits: "valid b \<Longrightarrow> length xs \<le> room b \<Longrightarrow>
      \<exists>b'. append b xs = Inr b' \<and> valid b' \<and> contents b' = contents b @ xs
           \<and> room b' = room b - length xs"
    and append_too_long: "valid b \<Longrightarrow> room b < length xs \<Longrightarrow> append b xs = Inl BufferOverrun"
begin

lemma append_Inr:
  assumes "valid b" and "append b xs = Inr b'"
  shows "valid b' \<and> contents b' = contents b @ xs \<and> length xs \<le> room b \<and> room b' = room b - length xs"
  using assms append_fits [of b xs] append_too_long [of b xs] by (cases "length xs \<le> room b") auto

fun append_all :: "'b \<Rightarrow> u8 list list \<Rightarrow> 'b result" where
  "append_all b [] = Inr b"
| "append_all b (xs # xss) = bindE (append b xs) (\<lambda>b. append_all b xss)"

text \<open>Parts that fit together are reassembled, in order and without a gap.\<close>

lemma append_all_fits:
  "valid b \<Longrightarrow> length (concat xss) \<le> room b \<Longrightarrow>
   \<exists>b'. append_all b xss = Inr b' \<and> valid b' \<and> contents b' = contents b @ concat xss"
proof (induction xss arbitrary: b)
  case Nil
  then show ?case by simp
next
  case (Cons xs xss)
  then obtain b1 where "append b xs = Inr b1" "valid b1" "contents b1 = contents b @ xs"
      "room b1 = room b - length xs"
    using append_fits [of b xs] by auto
  with Cons.IH [of b1] Cons.prems show ?case by auto
qed

end

section \<open>The flashws buffer\<close>

record iobuf =
  io_data :: "u8 list"
  io_start_pos :: nat
  io_size :: nat

definition io_contents :: "iobuf \<Rightarrow> u8 list" where
  "io_contents b = slice (io_data b) (io_start_pos b) (io_size b)"

definition io_room :: "iobuf \<Rightarrow> nat" where
  "io_room b = length (io_data b) - (io_start_pos b + io_size b)"

definition io_valid :: "iobuf \<Rightarrow> bool" where
  "io_valid b \<longleftrightarrow> io_start_pos b + io_size b \<le> length (io_data b)"

text \<open>
  \<^verbatim>\<open>memcpy(buf.data + buf.start_pos + buf.size, part, n); buf.size += n\<close>, as both programs
  write it. There is no check against the capacity.
\<close>

definition io_append :: "iobuf \<Rightarrow> u8 list \<Rightarrow> iobuf result" where
  "io_append b part =
     bindE (mem_write (io_data b) (io_start_pos b + io_size b) part)
       (\<lambda>bytes. Inr (b\<lparr>io_data := bytes, io_size := io_size b + length part\<rparr>))"

text \<open>\<^verbatim>\<open>RequestBuf(n)\<close> followed by \<^verbatim>\<open>start_pos = reserve\<close>.\<close>

definition fresh_for :: "nat \<Rightarrow> iobuf \<Rightarrow> bool" where
  "fresh_for n b \<longleftrightarrow> n \<le> length (io_data b) \<and> io_size b = 0"

definition with_reserve :: "nat \<Rightarrow> iobuf \<Rightarrow> iobuf" where
  "with_reserve reserve b = b\<lparr>io_start_pos := reserve\<rparr>"

text \<open>The use of a buffer that may have been moved away.\<close>

definition use_buffer :: "iobuf option \<Rightarrow> iobuf result" where
  "use_buffer b = (case b of None \<Rightarrow> Inl NullBuffer | Some b \<Rightarrow> Inr b)"

lemma io_contents_length: "io_valid b \<Longrightarrow> length (io_contents b) = io_size b"
  by (simp add: io_valid_def io_contents_def length_slice)

interpretation io: reassembly_buffer io_append io_contents io_room io_valid
proof
  fix b :: iobuf and xs :: "u8 list"
  assume valid: "io_valid b"
  show "\<exists>b'. io_append b xs = Inr b' \<and> io_valid b' \<and> io_contents b' = io_contents b @ xs
           \<and> io_room b' = io_room b - length xs"
    if fits: "length xs \<le> io_room b"
  proof -
    let ?off = "io_start_pos b + io_size b"
    have len: "?off + length xs \<le> length (io_data b)"
      using valid fits by (simp add: io_valid_def io_room_def)
    obtain bytes where bytes: "mem_write (io_data b) ?off xs = Inr bytes"
      using mem_write_ok [OF len] by blast
    let ?b' = "b\<lparr>io_data := bytes, io_size := io_size b + length xs\<rparr>"
    have "io_contents ?b' = io_contents b @ xs"
      using slice_mem_write_append [OF bytes, of "io_start_pos b"] by (simp add: io_contents_def)
    then show ?thesis
      using bytes len mem_write_length [OF bytes]
      by (simp add: io_append_def io_valid_def io_room_def)
  qed
  show "io_append b xs = Inl BufferOverrun" if "io_room b < length xs"
    using that mem_write_overrun [of "io_data b" "io_start_pos b + io_size b" xs] valid
    by (simp add: io_append_def io_valid_def io_room_def)
qed

lemma fresh_buffer:
  assumes "fresh_for (n + reserve) b"
  shows "io_valid (with_reserve reserve b)" and "io_contents (with_reserve reserve b) = []"
    and "n \<le> io_room (with_reserve reserve b)" and "io_size (with_reserve reserve b) = 0"
  using assms by (auto simp: fresh_for_def with_reserve_def io_valid_def io_contents_def io_room_def)

end
