(* ===== verification/FwsServer.thy ===== *)
theory FwsServer
  imports Stats IoBuf
begin

text \<open>
  The flashws echo server, \<^verbatim>\<open>src/flashws/echo_server.cpp\<close>: the connection context with its
  reassembly buffer, the three callbacks that \<^verbatim>\<open>TestWsServer\<close> installs, and \<^verbatim>\<open>CountStats\<close>.
  The library delivers a message in parts; the server collects them in the connection's
  buffer and sends the whole message back at its last part.

  Parameters from the library: the constants of \<open>fws_config\<close>, the fresh buffer an
  allocation returns, the value \<^verbatim>\<open>WriteFrame\<close> returns, and \<^verbatim>\<open>loop.socket_count()\<close>. \<^verbatim>\<open>FWS_ASSERT\<close>
  is taken to stop the program when its condition is false.
\<close>

section \<open>State\<close>

text \<open>
  \<open>cfg_max_data_len\<close> is the \<^verbatim>\<open>MAX_DATA_LEN\<close> of \<^verbatim>\<open>TestWsServer\<close>, its third argument; \<open>cfg_reserve\<close>
  and \<open>cfg_pong\<close> are \<^verbatim>\<open>SUGGEST_RESERVE_WS_HDR_SIZE\<close> and \<^verbatim>\<open>WS_OPCODE_PONG\<close>.
\<close>

record fws_config =
  cfg_max_data_len :: nat
  cfg_reserve :: nat
  cfg_pong :: u32

record buffer_status =
  status_opcode :: u8
  status_is_msg_end :: u8

record connect_ctx =
  cc_io_buf :: "iobuf option"
  cc_status :: buffer_status

record fws_stats = stats +
  fws_last_msg_size :: u64

type_synonym fws_report = "(u64 \<times> u64) report"

record fws_server =
  fs_stats :: fws_stats
  fs_reports :: "fws_report list"
  fs_conns :: "nat \<rightharpoonup> connect_ctx"
  fs_out :: "nat \<Rightarrow> (u8 \<times> u8 list) list"

definition fs_init :: fws_server where
  "fs_init =
     \<lparr>fs_stats = stats.extend init_stats (fws_stats.fields 0), fs_reports = [],
      fs_conns = Map.empty, fs_out = (\<lambda>_. [])\<rparr>"

section \<open>Operations\<close>

text \<open>\<^verbatim>\<open>loop.socket_count() - 1U\<close> leaves out the listening socket; it is a \<^verbatim>\<open>size_t\<close>.\<close>

definition fws_CountStats :: "u64 \<Rightarrow> clock \<Rightarrow> fws_stats \<Rightarrow> fws_stats \<times> fws_report list" where
  "fws_CountStats socket_count now st =
     (if last_interval_recv_msg_cnt st AND 0x3fff \<noteq> 0 \<or> last_interval_recv_msg_cnt st = 0
      then (st, [])
      else (reset_interval (now AtRestart) st,
            [interval_report (fws_last_msg_size st, socket_count - 1) (now AtReport) st]))"

definition on_new_connection :: "fws_config \<Rightarrow> iobuf \<Rightarrow> connect_ctx" where
  "on_new_connection cfg new_buf =
     \<lparr>cc_io_buf = Some (with_reserve (cfg_reserve cfg) new_buf),
      cc_status = \<lparr>status_opcode = 0, status_is_msg_end = 0\<rparr>\<rparr>"

text \<open>What the library tells and returns during one \<^verbatim>\<open>OnRead\<close>.\<close>

record read_event =
  re_opcode :: u32
  re_part :: "u8 list"
  re_is_frame_end :: bool
  re_is_msg_end :: bool
  re_is_control_msg :: bool
  re_now :: clock
  re_write_ret :: int
  re_fresh :: iobuf
  re_socket_count :: u64

definition on_read ::
  "fws_config \<Rightarrow> read_event \<Rightarrow> fws_stats \<Rightarrow> connect_ctx
    \<Rightarrow> (fws_stats \<times> connect_ctx \<times> (u8 \<times> u8 list) list \<times> fws_report list) result" where
  "on_read cfg e st ctx =
     (if \<not> re_is_control_msg e
      then bindE (use_buffer (cc_io_buf ctx)) (\<lambda>buf.
           bindE (io_append buf (re_part e)) (\<lambda>buf.
             let st = start_interval (re_now e AtFirstMessage) st;
                 st = count_recv_bytes (length (re_part e)) st;
                 status = \<lparr>status_opcode = ucast (re_opcode e),
                           status_is_msg_end = (if re_is_msg_end e then 1 else 0)\<rparr>;
                 ctx = ctx\<lparr>cc_io_buf := Some buf, cc_status := status\<rparr>
             in if re_is_msg_end e
                then (let st = (count_recv_msg st)\<lparr>fws_last_msg_size := of_nat (io_size buf)\<rparr>;
                          target_size = io_size buf
                      in bindE (require AssertFailed (0 \<le> re_write_ret e)) (\<lambda>_.
                         let st = count_sent target_size st;
                             (st, reps) = fws_CountStats (re_socket_count e) (re_now e) st;
                             ctx = ctx\<lparr>cc_io_buf := Some (with_reserve (cfg_reserve cfg) (re_fresh e))\<rparr>
                         in Inr (st, ctx, [(status_opcode status, io_contents buf)], reps)))
                else Inr (st, ctx, [], [])))
      else if re_opcode e = cfg_pong cfg
           then bindE (require AssertFailed (re_is_frame_end e)) (\<lambda>_.
                bindE (require AssertFailed (re_is_msg_end e)) (\<lambda>_. Inr (st, ctx, [], [])))
           else Inr (st, ctx, [], []))"

datatype fws_event =
    FwsNewConnection nat iobuf
  | FwsRead nat read_event
  | FwsClose nat u32

definition fs_commit ::
  "nat \<Rightarrow> fws_server \<Rightarrow> fws_stats \<times> connect_ctx \<times> (u8 \<times> u8 list) list \<times> fws_report list \<Rightarrow> fws_server"
where
  "fs_commit i s r =
     (case r of (st, ctx, frames, reps) \<Rightarrow>
       s\<lparr>fs_stats := st, fs_reports := fs_reports s @ reps, fs_conns := (fs_conns s)(i \<mapsto> ctx),
         fs_out := (fs_out s)(i := fs_out s i @ frames)\<rparr>)"

text \<open>
  \<^verbatim>\<open>OnClose\<close> prints abnormal status codes and destroys the context; the callbacks are only
  called for connections that have one.
\<close>

fun fws_step :: "fws_config \<Rightarrow> fws_event \<Rightarrow> fws_server \<Rightarrow> fws_server result" where
  "fws_step cfg (FwsNewConnection i new_buf) s =
     Inr (s\<lparr>fs_conns := (fs_conns s)(i \<mapsto> on_new_connection cfg new_buf),
            fs_out := (fs_out s)(i := [])\<rparr>)"
| "fws_step cfg (FwsRead i e) s =
     (case fs_conns s i of
        None \<Rightarrow> Inl NoSuchSocket
      | Some ctx \<Rightarrow> bindE (on_read cfg e (fs_stats s) ctx) (\<lambda>r. Inr (fs_commit i s r)))"
| "fws_step cfg (FwsClose i status_code) s =
     (case fs_conns s i of
        None \<Rightarrow> Inl NoSuchSocket
      | Some ctx \<Rightarrow> Inr (s\<lparr>fs_conns := (fs_conns s)(i := None)\<rparr>))"

section \<open>Reporting\<close>

definition fws_gate :: "fws_stats \<Rightarrow> bool" where
  "fws_gate = gate_mask 0x3fff"

interpretation fws_reporter: periodic_reporter "fws_CountStats socket_count" fws_gate 16384
  for socket_count
proof
  fix st :: fws_stats and now :: clock
  show "\<not> fws_gate st \<Longrightarrow> fws_CountStats socket_count now st = (st, [])"
    by (simp add: fws_gate_def gate_mask_def fws_CountStats_def)
  show "fws_gate st \<Longrightarrow> \<exists>x. fws_CountStats socket_count now st =
          (reset_interval (now AtRestart) st, [interval_report x (now AtReport) st])"
    by (auto simp: fws_gate_def gate_mask_def fws_CountStats_def)
  show "fws_gate st \<Longrightarrow> last_interval_recv_msg_cnt st \<noteq> 0"
    by (simp add: fws_gate_def gate_mask_def)
  show "fws_gate st \<longleftrightarrow> unat (last_interval_recv_msg_cnt st) mod 16384 = 0
          \<and> last_interval_recv_msg_cnt st \<noteq> 0"
    using and_mask_iff [of "last_interval_recv_msg_cnt st" 14]
    by (simp add: fws_gate_def gate_mask_def mask_eq_exp_minus_1)
qed simp_all

section \<open>Specification\<close>

text \<open>
  The abstract server: an unbounded buffer per connection, a message sent back when its
  last part arrives, under the last part's opcode.
\<close>

record fws_spec =
  fp_partial :: "nat \<rightharpoonup> u8 list"
  fp_out :: "nat \<Rightarrow> (u8 \<times> u8 list) list"
  fp_recv_bytes :: nat
  fp_msgs :: nat
  fp_send_bytes :: nat

definition fp_init :: fws_spec where
  "fp_init = \<lparr>fp_partial = Map.empty, fp_out = (\<lambda>_. []), fp_recv_bytes = 0, fp_msgs = 0, fp_send_bytes = 0\<rparr>"

definition fp_part :: "nat \<Rightarrow> u8 list \<Rightarrow> fws_spec \<Rightarrow> fws_spec" where
  "fp_part i msg a = a\<lparr>fp_partial := (fp_partial a)(i \<mapsto> msg)\<rparr>"

fun fws_spec_step :: "fws_event \<Rightarrow> fws_spec \<Rightarrow> fws_spec" where
  "fws_spec_step (FwsNewConnection i new_buf) a =
     a\<lparr>fp_partial := (fp_partial a)(i \<mapsto> []), fp_out := (fp_out a)(i := [])\<rparr>"
| "fws_spec_step (FwsRead i e) a =
     (if re_is_control_msg e then a
      else let msg = the (fp_partial a i) @ re_part e;
               a = a\<lparr>fp_recv_bytes := fp_recv_bytes a + length (re_part e)\<rparr>
           in if re_is_msg_end e
              then a\<lparr>fp_partial := (fp_partial a)(i \<mapsto> []),
                     fp_out := (fp_out a)(i := fp_out a i @ [(ucast (re_opcode e), msg)]),
                     fp_msgs := fp_msgs a + 1, fp_send_bytes := fp_send_bytes a + length msg\<rparr>
              else fp_part i msg a)"
| "fws_spec_step (FwsClose i status_code) a = a\<lparr>fp_partial := (fp_partial a)(i := None)\<rparr>"

text \<open>
  What the environment keeps: allocations return what was asked for, a message is not
  longer than \<^verbatim>\<open>MAX_DATA_LEN\<close>, writes succeed, and control messages come in one piece.
\<close>

fun fws_ok :: "fws_config \<Rightarrow> fws_server \<Rightarrow> fws_event \<Rightarrow> bool" where
  "fws_ok cfg s (FwsNewConnection i new_buf) \<longleftrightarrow>
     fs_conns s i = None \<and> fresh_for (cfg_max_data_len cfg + cfg_reserve cfg) new_buf"
| "fws_ok cfg s (FwsRead i e) \<longleftrightarrow>
     (case fs_conns s i of
        None \<Rightarrow> False
      | Some ctx \<Rightarrow>
          if re_is_control_msg e then re_is_frame_end e \<and> re_is_msg_end e
          else 0 \<le> re_write_ret e
             \<and> fresh_for (cfg_max_data_len cfg + cfg_reserve cfg) (re_fresh e)
             \<and> (case cc_io_buf ctx of None \<Rightarrow> False
                | Some buf \<Rightarrow> length (io_contents buf) + length (re_part e) \<le> cfg_max_data_len cfg))"
| "fws_ok cfg s (FwsClose i status_code) \<longleftrightarrow> fs_conns s i \<noteq> None"

definition ctx_holds :: "fws_config \<Rightarrow> connect_ctx \<Rightarrow> u8 list \<Rightarrow> bool" where
  "ctx_holds cfg ctx msg \<longleftrightarrow>
     (\<exists>buf. cc_io_buf ctx = Some buf \<and> io_valid buf \<and> io_contents buf = msg
        \<and> cfg_max_data_len cfg \<le> io_room buf + length msg)"

definition fws_R :: "fws_config \<Rightarrow> fws_server \<Rightarrow> fws_spec \<Rightarrow> bool" where
  "fws_R cfg s a \<longleftrightarrow>
     dom (fs_conns s) = dom (fp_partial a) \<and> fs_out s = fp_out a
   \<and> (\<forall>i ctx msg. fs_conns s i = Some ctx \<longrightarrow> fp_partial a i = Some msg \<longrightarrow> ctx_holds cfg ctx msg)
   \<and> total_recv_bytes (fs_stats s) (fs_reports s) = of_nat (fp_recv_bytes a)
   \<and> total_recv_msgs (fs_stats s) (fs_reports s) = of_nat (fp_msgs a)
   \<and> total_send_bytes (fs_stats s) (fs_reports s) = of_nat (fp_send_bytes a)
   \<and> total_send_msgs (fs_stats s) (fs_reports s) = of_nat (fp_msgs a)
   \<and> unat (last_interval_recv_msg_cnt (fs_stats s)) = fp_msgs a mod 16384
   \<and> length (fs_reports s) = fp_msgs a div 16384"

section \<open>Refinement\<close>

lemma ctx_append:
  assumes "ctx_holds cfg ctx msg" and "length msg + length part \<le> cfg_max_data_len cfg"
  obtains buf buf' where "cc_io_buf ctx = Some buf" and "io_append buf part = Inr buf'"
    and "io_valid buf'" and "io_contents buf' = msg @ part" and "io_size buf' = length (msg @ part)"
    and "cfg_max_data_len cfg \<le> io_room buf' + length (msg @ part)"
proof -
  from assms(1) obtain buf where buf: "cc_io_buf ctx = Some buf" "io_valid buf" "io_contents buf = msg"
      "cfg_max_data_len cfg \<le> io_room buf + length msg"
    by (auto simp: ctx_holds_def)
  then have fits: "length part \<le> io_room buf" using assms(2) by simp
  obtain buf' where b': "io_append buf part = Inr buf'" "io_valid buf'" "io_contents buf' = msg @ part"
      "io_room buf' = io_room buf - length part"
    using io.append_fits [OF buf(2) fits] buf(3) by auto
  moreover have "io_size buf' = length (msg @ part)"
    using io_contents_length [OF b'(2)] b'(3) by simp
  moreover have "cfg_max_data_len cfg \<le> io_room buf' + length (msg @ part)"
    using b'(4) fits buf(4) by simp
  ultimately show thesis using that buf(1) by blast
qed

lemma on_read_more:
  assumes "\<not> re_is_control_msg e" and "\<not> re_is_msg_end e" and "ctx_holds cfg ctx msg"
    and "length msg + length (re_part e) \<le> cfg_max_data_len cfg"
  obtains ctx' where "on_read cfg e st ctx =
      Inr (count_recv_bytes (length (re_part e)) (start_interval (re_now e AtFirstMessage) st), ctx', [], [])"
    and "ctx_holds cfg ctx' (msg @ re_part e)"
proof -
  obtain buf buf' where "cc_io_buf ctx = Some buf" "io_append buf (re_part e) = Inr buf'" "io_valid buf'"
      "io_contents buf' = msg @ re_part e" "cfg_max_data_len cfg \<le> io_room buf' + length (msg @ re_part e)"
    by (rule ctx_append [OF assms(3,4)])
  then show thesis
    using assms(1,2)
    by (intro that [of "ctx\<lparr>cc_io_buf := Some buf', cc_status :=
          \<lparr>status_opcode = ucast (re_opcode e), status_is_msg_end = 0\<rparr>\<rparr>"])
      (simp_all add: on_read_def use_buffer_def ctx_holds_def Let_def)
qed

lemma on_read_last:
  assumes "\<not> re_is_control_msg e" and "re_is_msg_end e" and "ctx_holds cfg ctx msg"
    and "length msg + length (re_part e) \<le> cfg_max_data_len cfg"
    and "0 \<le> re_write_ret e" and "fresh_for (cfg_max_data_len cfg + cfg_reserve cfg) (re_fresh e)"
    and cs: "fws_CountStats (re_socket_count e) (re_now e)
           (count_sent (length (msg @ re_part e))
             ((count_recv_msg (count_recv_bytes (length (re_part e))
                 (start_interval (re_now e AtFirstMessage) st)))
              \<lparr>fws_last_msg_size := of_nat (length (msg @ re_part e))\<rparr>)) = (st2, new)"
  obtains ctx' where "on_read cfg e st ctx =
      Inr (st2, ctx', [(ucast (re_opcode e), msg @ re_part e)], new)"
    and "ctx_holds cfg ctx' []"
proof -
  obtain buf buf' where buf: "cc_io_buf ctx = Some buf" "io_append buf (re_part e) = Inr buf'"
      "io_contents buf' = msg @ re_part e" "io_size buf' = length (msg @ re_part e)"
    by (rule ctx_append [OF assms(3,4)])
  let ?ctx = "ctx\<lparr>cc_io_buf := Some (with_reserve (cfg_reserve cfg) (re_fresh e)), cc_status :=
          \<lparr>status_opcode = ucast (re_opcode e), status_is_msg_end = 1\<rparr>\<rparr>"
  have "ctx_holds cfg ?ctx []" using fresh_buffer [OF assms(6)] by (simp add: ctx_holds_def)
  moreover have "on_read cfg e st ctx =
      Inr (st2, ?ctx, [(ucast (re_opcode e), msg @ re_part e)], new)"
    using assms(1,2,5) buf cs by (simp add: on_read_def use_buffer_def Let_def)
  ultimately show thesis using that by blast
qed

lemma fws_R_conn:
  assumes "fws_R cfg s a" and "fs_conns s i = Some ctx"
  obtains msg where "fp_partial a i = Some msg" and "ctx_holds cfg ctx msg"
proof -
  from assms have "i \<in> dom (fp_partial a)" unfolding fws_R_def by blast
  then obtain msg where "fp_partial a i = Some msg" by auto
  with assms that show thesis by (auto simp: fws_R_def)
qed

lemma fws_read_simulates:
  assumes R: "fws_R cfg s a" and ok: "fws_ok cfg s (FwsRead i e)"
  shows "\<exists>s'. fws_step cfg (FwsRead i e) s = Inr s' \<and> fws_R cfg s' (fws_spec_step (FwsRead i e) a)"
proof -
  from ok obtain ctx where ctx: "fs_conns s i = Some ctx" by (auto split: option.splits)
  obtain msg where msg: "fp_partial a i = Some msg" and holds: "ctx_holds cfg ctx msg"
    by (rule fws_R_conn [OF R ctx])
  have doms: "dom ((fs_conns s)(i \<mapsto> c)) = dom ((fp_partial a)(i \<mapsto> m))" for c m
    using R by (simp add: fws_R_def)
  show ?thesis
  proof (cases "re_is_control_msg e")
    case True
    then have "on_read cfg e (fs_stats s) ctx = Inr (fs_stats s, ctx, [], [])"
      using ok ctx by (simp add: on_read_def)
    moreover have "(fs_conns s)(i \<mapsto> ctx) = fs_conns s" using ctx by auto
    ultimately show ?thesis using True ctx R by (simp add: fs_commit_def)
  next
    case data: False
    with ok ctx holds have fits: "length msg + length (re_part e) \<le> cfg_max_data_len cfg"
      and ret: "0 \<le> re_write_ret e"
      and fresh: "fresh_for (cfg_max_data_len cfg + cfg_reserve cfg) (re_fresh e)"
      by (auto simp: ctx_holds_def)
    show ?thesis
    proof (cases "re_is_msg_end e")
      case False
      obtain ctx' where "on_read cfg e (fs_stats s) ctx =
          Inr (count_recv_bytes (length (re_part e)) (start_interval (re_now e AtFirstMessage) (fs_stats s)),
               ctx', [], [])" "ctx_holds cfg ctx' (msg @ re_part e)"
        by (rule on_read_more [OF data False holds fits])
      then show ?thesis
        using R ctx msg data False doms
        by (auto simp: fws_R_def fs_commit_def fp_part_def total_defs counting_defs Let_def algebra_simps)
    next
      case True
      define st1 where "st1 = count_sent (length (msg @ re_part e))
             ((count_recv_msg (count_recv_bytes (length (re_part e))
                 (start_interval (re_now e AtFirstMessage) (fs_stats s))))
              \<lparr>fws_last_msg_size := of_nat (length (msg @ re_part e))\<rparr>)"
      obtain st2 new where cs: "fws_CountStats (re_socket_count e) (re_now e) st1 = (st2, new)"
        by (metis surj_pair)
      obtain ctx' where read: "on_read cfg e (fs_stats s) ctx =
          Inr (st2, ctx', [(ucast (re_opcode e), msg @ re_part e)], new)" "ctx_holds cfg ctx' []"
        by (rule on_read_last [OF data True holds fits ret fresh cs [unfolded st1_def]])
      have cnt: "last_interval_recv_msg_cnt st1 = last_interval_recv_msg_cnt (fs_stats s) + 1"
        by (simp add: st1_def counting_defs)
      note tick = fws_reporter.tick [OF _ _ cnt cs, of "fp_msgs a" "fs_reports s"]
      note cons = fws_reporter.conserves [OF cs]
      have totals: "total_recv_bytes st2 (fs_reports s @ new)
            = total_recv_bytes (fs_stats s) (fs_reports s) + of_nat (length (re_part e))"
          "total_recv_msgs st2 (fs_reports s @ new) = total_recv_msgs (fs_stats s) (fs_reports s) + 1"
          "total_send_bytes st2 (fs_reports s @ new)
            = total_send_bytes (fs_stats s) (fs_reports s) + of_nat (length (msg @ re_part e))"
          "total_send_msgs st2 (fs_reports s @ new) = total_send_msgs (fs_stats s) (fs_reports s) + 1"
        unfolding totals_append cons by (simp_all add: st1_def total_defs counting_defs)
      from R tick have ticks: "unat (last_interval_recv_msg_cnt st2) = Suc (fp_msgs a) mod 16384"
          "length (fs_reports s @ new) = Suc (fp_msgs a) div 16384"
        by (simp_all add: fws_R_def)
      show ?thesis
        using R ctx msg data True doms read totals ticks
        by (auto simp: fws_R_def fs_commit_def Let_def)
    qed
  qed
qed

interpretation fws_sim: simulation "fws_step cfg" "fws_ok cfg" fws_spec_step "fws_R cfg"
  for cfg
proof
  fix s a e
  assume R: "fws_R cfg s a" and ok: "fws_ok cfg s e"
  show "\<exists>s'. fws_step cfg e s = Inr s' \<and> fws_R cfg s' (fws_spec_step e a)"
  proof (cases e)
    case (FwsNewConnection i new_buf)
    then have "ctx_holds cfg (on_new_connection cfg new_buf) []"
      using ok fresh_buffer [of "cfg_max_data_len cfg" "cfg_reserve cfg" new_buf]
      by (auto simp: ctx_holds_def on_new_connection_def)
    with R FwsNewConnection show ?thesis by (auto simp: fws_R_def)
  next
    case (FwsRead i e')
    with fws_read_simulates [OF R] ok show ?thesis by blast
  next
    case (FwsClose i status_code)
    with R ok show ?thesis by (auto simp: fws_R_def)
  qed
qed

lemma fws_R_init: "fws_R cfg fs_init fp_init"
  by (simp add: fws_R_def fs_init_def fp_init_def init_stats_def stats.defs total_defs)

text \<open>The parts of one message, seen by the abstract server.\<close>

definition continues :: "read_event \<Rightarrow> bool" where
  "continues e \<longleftrightarrow> \<not> re_is_control_msg e \<and> \<not> re_is_msg_end e"

definition completes :: "read_event \<Rightarrow> bool" where
  "completes e \<longleftrightarrow> \<not> re_is_control_msg e \<and> re_is_msg_end e"

lemma spec_parts:
  assumes "\<And>e. e \<in> set parts \<Longrightarrow> continues e" and "fp_partial a i = Some msg"
  shows "fp_partial (fold fws_spec_step (map (FwsRead i) parts) a) i = Some (msg @ concat (map re_part parts))
       \<and> fp_out (fold fws_spec_step (map (FwsRead i) parts) a) = fp_out a"
  using assms
proof (induction parts arbitrary: a msg)
  case Nil
  then show ?case by simp
next
  case (Cons e parts)
  let ?a = "fws_spec_step (FwsRead i e) a"
  have "fp_partial ?a i = Some (msg @ re_part e)" and "fp_out ?a = fp_out a"
    using Cons.prems by (simp_all add: continues_def fp_part_def Let_def)
  with Cons.IH [of ?a "msg @ re_part e"] Cons.prems(1) show ?case by simp
qed

lemma reassembles:
  assumes "admissible (fws_step cfg) (fws_ok cfg) fs_init (es @ map (FwsRead i) (parts @ [last_part]))"
    and "run (fws_step cfg) es fs_init = Inr s"
    and "fp_partial (fold fws_spec_step es fp_init) i = Some []"
    and "\<And>e. e \<in> set parts \<Longrightarrow> continues e" and "completes last_part"
  shows "\<exists>s'. run (fws_step cfg) (map (FwsRead i) (parts @ [last_part])) s = Inr s'
     \<and> fs_out s' i = fs_out s i @
         [(ucast (re_opcode last_part), concat (map re_part (parts @ [last_part])))]"
proof -
  let ?a = "fold fws_spec_step es fp_init"
  let ?es = "map (FwsRead i) (parts @ [last_part])"
  obtain s' where s': "run (fws_step cfg) (es @ ?es) fs_init = Inr s'"
      and R': "fws_R cfg s' (fold fws_spec_step (es @ ?es) fp_init)"
    using fws_sim.run_simulates [OF fws_R_init assms(1)] by blast
  have "admissible (fws_step cfg) (fws_ok cfg) fs_init es" using assms(1) by (rule admissible_prefix)
  then have R: "fws_R cfg s ?a" using fws_sim.run_simulates [OF fws_R_init] assms(2) by fastforce
  from spec_parts [OF assms(4,3)] assms(5) have
    "fp_out (fold fws_spec_step (es @ ?es) fp_init) i =
       fp_out ?a i @ [(ucast (re_opcode last_part), concat (map re_part (parts @ [last_part])))]"
    by (simp add: completes_def Let_def)
  with R R' s' assms(2) show ?thesis by (simp add: fws_R_def run_append)
qed

section \<open>Properties\<close>

definition sample_cfg :: fws_config where
  "sample_cfg = \<lparr>cfg_max_data_len = 8, cfg_reserve = 2, cfg_pong = 10\<rparr>"

definition sample_buf :: iobuf where
  "sample_buf = \<lparr>io_data = replicate 10 0, io_start_pos = 0, io_size = 0\<rparr>"

definition sample_part :: "u32 \<Rightarrow> u8 list \<Rightarrow> bool \<Rightarrow> read_event" where
  "sample_part opcode part is_last =
     \<lparr>re_opcode = opcode, re_part = part, re_is_frame_end = True, re_is_msg_end = is_last,
      re_is_control_msg = False, re_now = (\<lambda>_. 3), re_write_ret = int (length part),
      re_fresh = sample_buf, re_socket_count = 2\<rparr>"

definition fws_sample :: "fws_event list" where
  "fws_sample =
     [FwsNewConnection 4 sample_buf, FwsRead 4 (sample_part 2 [1, 2, 3] False),
      FwsRead 4 (sample_part 2 [4, 5] True)]"

lemma fws_sample_admissible: "admissible (fws_step sample_cfg) (fws_ok sample_cfg) fs_init fws_sample"
  by code_simp



text \<open>
  C20. Reassembly does not depend on the fragmentation: a message that starts on a
  connection with nothing pending is sent back once, as the concatenation of its parts,
  under the opcode (its low eight bits) that came with the last of them.
\<close>

theorem fws_message_reassembled:
  assumes "admissible (fws_step cfg) (fws_ok cfg) fs_init (es @ map (FwsRead i) (parts @ [last_part]))"
    and "run (fws_step cfg) es fs_init = Inr s"
    and "fp_partial (fold fws_spec_step es fp_init) i = Some []"
    and "\<And>e. e \<in> set parts \<Longrightarrow> continues e" and "completes last_part"
  shows "\<exists>s'. run (fws_step cfg) (map (FwsRead i) (parts @ [last_part])) s = Inr s'
     \<and> fs_out s' i = fs_out s i @
         [(ucast (re_opcode last_part), concat (map re_part (parts @ [last_part])))]"
  by (rule reassembles [OF assms])

theorem fws_message_reassembled_witness:
  "\<exists>s s'. run (fws_step sample_cfg) [FwsNewConnection 4 sample_buf] fs_init = Inr s
     \<and> run (fws_step sample_cfg) (map (FwsRead 4) ([sample_part 2 [1, 2, 3] False] @ [sample_part 2 [4, 5] True])) s
         = Inr s'
     \<and> fs_out s' 4 = fs_out s 4 @ [(2, [1, 2, 3, 4, 5])]"
proof -
  have "admissible (fws_step sample_cfg) (fws_ok sample_cfg) fs_init
          ([FwsNewConnection 4 sample_buf] @
           map (FwsRead 4) ([sample_part 2 [1, 2, 3] False] @ [sample_part 2 [4, 5] True]))"
    using fws_sample_admissible by (simp add: fws_sample_def)
  from fws_message_reassembled [OF this] show ?thesis
    by (simp add: fp_init_def continues_def completes_def sample_part_def)
qed

text \<open>
  The flashws server reports once every 16384 messages.
\<close>

theorem fws_reporting_period:
  assumes "admissible (fws_step cfg) (fws_ok cfg) fs_init es" and "run (fws_step cfg) es fs_init = Inr s"
  shows "length (fs_reports s) = fp_msgs (fold fws_spec_step es fp_init) div 16384
     \<and> unat (last_interval_recv_msg_cnt (fs_stats s)) = fp_msgs (fold fws_spec_step es fp_init) mod 16384"
  using fws_sim.run_simulates [OF fws_R_init assms(1)] assms(2) by (simp add: fws_R_def)

theorem fws_reporting_period_witness:
  "\<exists>s. run (fws_step sample_cfg) fws_sample fs_init = Inr s \<and> fs_reports s = []
     \<and> unat (last_interval_recv_msg_cnt (fs_stats s)) = 1"
proof -
  obtain s where s: "run (fws_step sample_cfg) fws_sample fs_init = Inr s"
    using fws_sim.run_simulates [OF fws_R_init fws_sample_admissible] by blast
  from fws_reporting_period [OF fws_sample_admissible s] s show ?thesis
    by (simp add: fws_sample_def sample_part_def fp_init_def fp_part_def)
qed

text \<open>
  C28. Nothing in the server bounds a message by \<^verbatim>\<open>MAX_DATA_LEN\<close>: a part that is longer than
  what is left of the connection's buffer is copied past its end.
\<close>

theorem fws_oversize_overrun:
  assumes "admissible (fws_step cfg) (fws_ok cfg) fs_init es" and "run (fws_step cfg) es fs_init = Inr s"
    and "fs_conns s i = Some ctx" and "cc_io_buf ctx = Some buf"
    and "\<not> re_is_control_msg e" and "io_room buf < length (re_part e)"
  shows "fws_step cfg (FwsRead i e) s = Inl BufferOverrun"
proof -
  have "fws_R cfg s (fold fws_spec_step es fp_init)"
    using fws_sim.run_simulates [OF fws_R_init assms(1)] assms(2) by simp
  then obtain msg where "ctx_holds cfg ctx msg" using assms(3) by (rule fws_R_conn)
  then have "io_valid buf" using assms(4) by (simp add: ctx_holds_def)
  from io.append_too_long [OF this assms(6)] assms(3-5) show ?thesis
    by (simp add: on_read_def use_buffer_def)
qed

theorem fws_oversize_overrun_witness:
  "\<exists>s. run (fws_step sample_cfg) fws_sample fs_init = Inr s
     \<and> fws_step sample_cfg (FwsRead 4 (sample_part 2 [1, 2, 3, 4, 5, 6, 7, 8, 9] True)) s = Inl BufferOverrun"
proof -
  obtain s where s: "run (fws_step sample_cfg) fws_sample fs_init = Inr s"
    using fws_sim.run_simulates [OF fws_R_init fws_sample_admissible] by blast
  have "(case run (fws_step sample_cfg) fws_sample fs_init of Inl _ \<Rightarrow> False | Inr s \<Rightarrow>
          (case fs_conns s 4 of None \<Rightarrow> False | Some ctx \<Rightarrow>
             (case cc_io_buf ctx of None \<Rightarrow> False | Some buf \<Rightarrow> io_room buf = 8)))"
    by code_simp
  with s obtain ctx buf where "fs_conns s 4 = Some ctx" "cc_io_buf ctx = Some buf" "io_room buf = 8"
    by (auto split: option.splits)
  from fws_oversize_overrun [OF fws_sample_admissible s this(1,2)] this(3) s show ?thesis
    by (simp add: sample_part_def)
qed

end
