(* ===== verification/FwsClient.thy ===== *)
theory FwsClient
  imports Double IoBuf
begin

text \<open>
  The flashws benchmark client, \<^verbatim>\<open>src/flashws/echo_client.cpp\<close>: a ping-pong of one payload
  on each of \<^verbatim>\<open>CON_CLIENT_NUM\<close> connections. A connection exchanges \<^verbatim>\<open>MSG_LIMIT_PER_CLIENT\<close>
  messages and is then closed and replaced by a new one, until
  \<^verbatim>\<open>REBORN_LIMIT_FOR_CLIENT\<close> connections have lived in its place. The client ends when
  \<^verbatim>\<open>TOTAL_MSG_CNT\<close> messages came back.

  The flashws library is not in the repository. Its constants, \<^verbatim>\<open>RotateR\<close>, the length of a
  tick, the quantiles of the histogram and the sequence of \<^verbatim>\<open>rand()\<close> are parameters
  (\<open>cfg\<close>); so is what its functions return during a callback (the fields of an event),
  among it whether \<^verbatim>\<open>Close\<close> calls \<^verbatim>\<open>OnClose\<close> before it returns.
\<close>

section \<open>State\<close>

record client_cfg =
  cl_max_data_len :: nat
  cl_total :: u64
  cl_msg_limit :: u64
  cl_reborn_limit :: int
  cl_reserve :: nat
  cl_pong :: u32
  cl_rotr :: "u64 \<Rightarrow> nat \<Rightarrow> u64"
  cl_ns_per_tick :: rat
  cl_quantile :: "int list \<Rightarrow> rat \<Rightarrow> dbl"
  cl_rand :: "nat \<Rightarrow> int"

record client_ctx =
  reborn_cnt :: int
  msg_cnt :: u64
  temp_buf :: "iobuf option"
  start_write_tick :: u64

text \<open>
  A connection as the loop keeps it: the client's context and where the connection is,
  not yet open, with a frame under way to the server and back, or closed by the client and
  waiting for \<^verbatim>\<open>OnClose\<close>.
\<close>

datatype wire = Connecting | Awaiting "u8 list" | Closing

record conn =
  conn_ctx :: client_ctx
  conn_wire :: wire

datatype stream = NoFile | OpenFile | ClosedFile

text \<open>One row of the data file, and one line printed every 16384 messages.\<close>

record summary =
  sum_msg_size :: nat
  sum_goodput_mbps :: dbl
  sum_latency_us :: "dbl list"

record progress =
  pr_round_trip_us :: dbl
  pr_throughput_mbps :: dbl
  pr_hash :: u64
  pr_active_fds :: u64

text \<open>
  \<^verbatim>\<open>ContextClass\<close>, the loop's connections and whether it was told to stop. The byte sums are
  \<^verbatim>\<open>int64_t\<close>, kept as 64-bit words and read with \<open>sint\<close>. The last four fields are what the
  program has put out, the rows, the progress lines and the frames with their connection and
  opcode, and an observation no callback reads: the messages that connections still owed
  when the peer closed them.
\<close>

record client =
  loop_cnt :: u64
  send_bytes_sum :: u64
  recv_bytes_sum :: u64
  data_hash :: u64
  cl_start_ns :: int
  last_record_ns :: int
  wait_shutdown :: bool
  rtt_hist :: "int list"
  out_fp :: stream
  stopped :: bool
  conns :: "nat \<rightharpoonup> conn"
  rows :: "summary list"
  progress_lines :: "progress list"
  frames :: "(nat \<times> u8 \<times> u8 list) list"
  lost :: nat

section \<open>Operations\<close>

fun hash_from :: "(u64 \<Rightarrow> nat \<Rightarrow> u64) \<Rightarrow> u64 \<Rightarrow> u8 list \<Rightarrow> u64" where
  "hash_from rotr h [] = h"
| "hash_from rotr h (b # bs) = hash_from rotr (rotr (h XOR ucast b) 5) bs"

definition HashArr :: "(u64 \<Rightarrow> nat \<Rightarrow> u64) \<Rightarrow> u8 list \<Rightarrow> u64" where
  "HashArr rotr bs = hash_from rotr 0 bs"

text \<open>
  The row: the goodput multiplies the sum of both directions by an unsigned
  \<^verbatim>\<open>BITS_PER_BYTE\<close>, so the bits are an unsigned 64-bit number; the latencies are quantiles
  in microseconds.
\<close>

definition summary_row :: "client_cfg \<Rightarrow> int \<Rightarrow> client \<Rightarrow> summary" where
  "summary_row cfg now_ns s =
     \<lparr>sum_msg_size = cl_max_data_len cfg,
      sum_goodput_mbps = rate (double_of_u64 ((recv_bytes_sum s + send_bytes_sum s) * 8))
                              (interval_seconds (now_ns - cl_start_ns s)),
      sum_latency_us = map (\<lambda>q. ddiv (cl_quantile cfg (rtt_hist s) q) (Fin 1000))
                           [0, 1 / 2, 99 / 100, 999 / 1000, 1]\<rparr>"

text \<open>
  \<^verbatim>\<open>EndClient\<close> writes its row and closes the stream if there is one; the pointer is not
  reset, so a second call uses a closed stream.
\<close>

definition EndClient :: "client_cfg \<Rightarrow> int \<Rightarrow> client \<Rightarrow> client result" where
  "EndClient cfg now_ns s =
     (let s = s\<lparr>stopped := True, wait_shutdown := True\<rparr>
      in case out_fp s of
           NoFile \<Rightarrow> Inr s
         | OpenFile \<Rightarrow> Inr (s\<lparr>out_fp := ClosedFile, rows := rows s @ [summary_row cfg now_ns s]\<rparr>)
         | ClosedFile \<Rightarrow> Inl DoubleClose)"

definition put_conn :: "nat \<Rightarrow> client_ctx \<Rightarrow> wire \<Rightarrow> client \<Rightarrow> client" where
  "put_conn i ctx w s = s\<lparr>conns := (conns s)(i \<mapsto> \<lparr>conn_ctx = ctx, conn_wire = w\<rparr>)\<rparr>"

text \<open>
  \<^verbatim>\<open>WriteFrame(std::move(buf), 2, true)\<close> followed by a new buffer, as both senders do: a
  negative return value aborts.
\<close>

definition send_frame ::
  "client_cfg \<Rightarrow> nat \<Rightarrow> int \<Rightarrow> iobuf \<Rightarrow> client_ctx \<Rightarrow> iobuf \<Rightarrow> client \<Rightarrow> client result" where
  "send_frame cfg i write_ret buf ctx fresh s =
     bindE (require Aborted (0 \<le> write_ret)) (\<lambda>_.
       Inr (put_conn i (ctx\<lparr>temp_buf := Some (with_reserve (cl_reserve cfg) fresh)\<rparr>)
              (Awaiting (io_contents buf))
              (s\<lparr>send_bytes_sum := send_bytes_sum s + of_nat (io_size buf),
                 frames := frames s @ [(i, 2, io_contents buf)]\<rparr>)))"

record open_event =
  op_now_ns :: int
  op_start_tick :: u64
  op_write_ret :: int
  op_fresh :: iobuf

definition WriteFirstMsg ::
  "client_cfg \<Rightarrow> nat \<Rightarrow> open_event \<Rightarrow> client_ctx \<Rightarrow> client \<Rightarrow> client result" where
  "WriteFirstMsg cfg i e ctx s =
     bindE (use_buffer (temp_buf ctx)) (\<lambda>buf.
       let whole = (io_size buf = cl_max_data_len cfg);
           s = (if whole \<and> send_bytes_sum s = 0 then s\<lparr>cl_start_ns := op_now_ns e\<rparr> else s);
           ctx = (if whole then ctx\<lparr>start_write_tick := op_start_tick e\<rparr> else ctx)
       in send_frame cfg i (op_write_ret e) buf ctx (op_fresh e) s)"

definition OnOpen :: "client_cfg \<Rightarrow> nat \<Rightarrow> open_event \<Rightarrow> client \<Rightarrow> client result" where
  "OnOpen cfg i e s =
     (case conns s i of
        None \<Rightarrow> Inl NoSuchSocket
      | Some c \<Rightarrow> WriteFirstMsg cfg i e (conn_ctx c) s)"

text \<open>What \<^verbatim>\<open>Init\<close>, \<^verbatim>\<open>Connect\<close> and \<^verbatim>\<open>AddSocket\<close> return for a new socket.\<close>

record socket_rets =
  init_ret :: int
  con_ret :: int
  con_in_progress :: bool
  add_ret :: int

definition NewWSClient :: "socket_rets \<Rightarrow> bool" where
  "NewWSClient r \<longleftrightarrow> \<not> init_ret r < 0 \<and> \<not> (con_ret r < 0 \<and> \<not> con_in_progress r)"

definition OnClose :: "client_cfg \<Rightarrow> nat \<Rightarrow> int \<Rightarrow> client \<Rightarrow> client result" where
  "OnClose cfg i now_ns s =
     (case conns s i of
        None \<Rightarrow> Inl NoSuchSocket
      | Some c \<Rightarrow>
          (let s = s\<lparr>conns := (conns s)(i := None)\<rparr>
           in if cl_total cfg \<le> loop_cnt s then EndClient cfg now_ns s else Inr s))"

text \<open>What the library tells and returns during one \<^verbatim>\<open>OnRead\<close>.\<close>

record recv_event =
  rv_opcode :: u32
  rv_part :: "u8 list"
  rv_is_frame_end :: bool
  rv_is_msg_end :: bool
  rv_is_control_msg :: bool
  rv_stop_tick :: u64
  rv_start_tick :: u64
  rv_now_ns :: int
  rv_close_sync :: bool
  rv_socket_count :: u64
  rv_rets :: socket_rets
  rv_new_id :: nat
  rv_write_ret :: int
  rv_fresh :: iobuf

text \<open>
  The end of a connection's life: its buffer moves on to the connection that replaces it,
  or nothing is left to do.
\<close>

definition end_life ::
  "client_cfg \<Rightarrow> nat \<Rightarrow> recv_event \<Rightarrow> client_ctx \<Rightarrow> iobuf \<Rightarrow> client \<Rightarrow> client result" where
  "end_life cfg i e ctx old_buf s =
     bindE (require AssertFailed (io_size old_buf = cl_max_data_len cfg)) (\<lambda>_.
       let s = put_conn i (ctx\<lparr>temp_buf := None\<rparr>) Closing s
       in bindE (if rv_close_sync e then OnClose cfg i (rv_now_ns e) s else Inr s) (\<lambda>s.
            if reborn_cnt ctx < cl_reborn_limit cfg
            then bindE (require Aborted (NewWSClient (rv_rets e))) (\<lambda>_.
                 bindE (require Aborted (\<not> add_ret (rv_rets e) < 0)) (\<lambda>_.
                   Inr (put_conn (rv_new_id e)
                          \<lparr>reborn_cnt = reborn_cnt ctx + 1, msg_cnt = 0, temp_buf = Some old_buf,
                           start_write_tick = rv_stop_tick e\<rparr> Connecting s)))
            else if rv_socket_count e = 0 then EndClient cfg (rv_now_ns e) s else Inr s))"

text \<open>
  Every 16384 messages the echo is compared with the payload by hash. The throughputs are
  signed products here.
\<close>

definition record_progress ::
  "client_cfg \<Rightarrow> recv_event \<Rightarrow> int \<Rightarrow> iobuf \<Rightarrow> client \<Rightarrow> client result" where
  "record_progress cfg e round_trip_ns buf s =
     (if loop_cnt s AND 0x3fff = 0
      then (let temp_hash = HashArr (cl_rotr cfg) (io_contents buf);
                sec = interval_seconds (rv_now_ns e - cl_start_ns s);
                recv_mbps = rate (double_of_int (sint (recv_bytes_sum s * 8))) sec;
                send_mbps = rate (double_of_int (sint (send_bytes_sum s * 8))) sec;
                s = s\<lparr>last_record_ns := rv_now_ns e\<rparr>
            in bindE (require Aborted (temp_hash = data_hash s)) (\<lambda>_.
                 Inr (s\<lparr>progress_lines := progress_lines s @
                          [\<lparr>pr_round_trip_us = ddiv (double_of_int round_trip_ns) (Fin 1000),
                            pr_throughput_mbps = dadd recv_mbps send_mbps,
                            pr_hash = temp_hash, pr_active_fds = rv_socket_count e\<rparr>]\<rparr>)))
      else Inr s)"

text \<open>\<^verbatim>\<open>std::llround\<close> rounds half away from zero.\<close>

definition llround :: "rat \<Rightarrow> int" where
  "llround x = (if 0 \<le> x then \<lfloor>x + 1 / 2\<rfloor> else \<lceil>x - 1 / 2\<rceil>)"

definition round_trip :: "client_cfg \<Rightarrow> u64 \<Rightarrow> int" where
  "round_trip cfg pass_tick = llround (rnd (rnd (of_int (uint pass_tick)) * cl_ns_per_tick cfg))"

definition OnRead :: "client_cfg \<Rightarrow> nat \<Rightarrow> recv_event \<Rightarrow> client \<Rightarrow> client result" where
  "OnRead cfg i e s =
     (case conns s i of
        None \<Rightarrow> Inl NoSuchSocket
      | Some c \<Rightarrow>
          if \<not> rv_is_control_msg e
          then bindE (use_buffer (temp_buf (conn_ctx c))) (\<lambda>buf.
               bindE (io_append buf (rv_part e)) (\<lambda>buf.
                 let ctx = (conn_ctx c)\<lparr>temp_buf := Some buf\<rparr>;
                     s = s\<lparr>recv_bytes_sum := recv_bytes_sum s + of_nat (length (rv_part e))\<rparr>
                 in if rv_is_msg_end e
                    then (let ns = round_trip cfg (rv_stop_tick e - start_write_tick ctx);
                              s = s\<lparr>rtt_hist := rtt_hist s @ [ns], loop_cnt := loop_cnt s + 1\<rparr>;
                              ctx = ctx\<lparr>msg_cnt := msg_cnt ctx + 1\<rparr>
                          in if msg_cnt ctx = cl_msg_limit cfg then end_life cfg i e ctx buf s
                             else if cl_total cfg \<le> loop_cnt s
                                  then EndClient cfg (rv_now_ns e) (put_conn i ctx (conn_wire c) s)
                                  else bindE (record_progress cfg e ns buf s) (\<lambda>s.
                                       send_frame cfg i (rv_write_ret e) buf
                                         (ctx\<lparr>start_write_tick := rv_start_tick e\<rparr>) (rv_fresh e) s))
                    else Inr (put_conn i ctx (conn_wire c) s)))
          else if rv_opcode e = cl_pong cfg
               then bindE (require AssertFailed (rv_is_frame_end e)) (\<lambda>_.
                    bindE (require AssertFailed (rv_is_msg_end e)) (\<lambda>_. Inr s))
               else Inr s)"

section \<open>Start and event loop\<close>

text \<open>
  The loop of \<^verbatim>\<open>TestWsClient\<close> that creates the connections: every one gets a buffer with
  the same payload, since the generator is seeded anew for each.
\<close>

definition payload :: "client_cfg \<Rightarrow> u8 list" where
  "payload cfg = map (\<lambda>i. word_of_int (cl_rand cfg i mod 10 + 48)) [0..<cl_max_data_len cfg]"

record start_event =
  st_rets :: socket_rets
  st_id :: nat
  st_fresh :: iobuf

definition start_client :: "client_cfg \<Rightarrow> start_event \<Rightarrow> client \<Rightarrow> client result" where
  "start_client cfg e s =
     bindE (require (Exited (-1)) (NewWSClient (st_rets e))) (\<lambda>_.
     bindE (mem_write (io_data (st_fresh e)) (cl_reserve cfg) (payload cfg)) (\<lambda>bytes.
       let buf = (st_fresh e)\<lparr>io_data := bytes, io_start_pos := cl_reserve cfg,
                              io_size := cl_max_data_len cfg\<rparr>;
           s = s\<lparr>data_hash := HashArr (cl_rotr cfg) (io_contents buf)\<rparr>
       in bindE (require (Exited (-1)) (\<not> add_ret (st_rets e) < 0)) (\<lambda>_.
            Inr (put_conn (st_id e)
                   \<lparr>reborn_cnt = 1, msg_cnt = 0, temp_buf = Some buf, start_write_tick = 0\<rparr>
                   Connecting s))))"

fun start_clients :: "client_cfg \<Rightarrow> start_event list \<Rightarrow> client \<Rightarrow> client result" where
  "start_clients cfg [] s = Inr (s\<lparr>out_fp := OpenFile\<rparr>)"
| "start_clients cfg (e # es) s = bindE (start_client cfg e s) (start_clients cfg es)"

definition new_client :: client where
  "new_client =
     \<lparr>loop_cnt = 0, send_bytes_sum = 0, recv_bytes_sum = 0, data_hash = 0, cl_start_ns = 0,
      last_record_ns = 0, wait_shutdown = False, rtt_hist = [], out_fp = NoFile,
      stopped = False, conns = Map.empty, rows = [], progress_lines = [], frames = [], lost = 0\<rparr>"

datatype client_event =
    ConnOpen nat open_event
  | ConnRead nat recv_event
  | ConnClose nat u32 int

text \<open>
  The messages a connection and its replacements still have to exchange.
\<close>

definition owed :: "client_cfg \<Rightarrow> conn \<Rightarrow> nat" where
  "owed cfg c =
     (if conn_wire c = Closing then 0
      else nat (cl_reborn_limit cfg - reborn_cnt (conn_ctx c)) * unat (cl_msg_limit cfg)
           + (unat (cl_msg_limit cfg) - unat (msg_cnt (conn_ctx c))))"

definition lost_at :: "client_cfg \<Rightarrow> nat \<Rightarrow> client \<Rightarrow> nat" where
  "lost_at cfg i s = (case conns s i of None \<Rightarrow> 0 | Some c \<Rightarrow> owed cfg c)"

fun client_step :: "client_cfg \<Rightarrow> client_event \<Rightarrow> client \<Rightarrow> client result" where
  "client_step cfg (ConnOpen i e) s = OnOpen cfg i e s"
| "client_step cfg (ConnRead i e) s = OnRead cfg i e s"
| "client_step cfg (ConnClose i status_code now_ns) s =
     OnClose cfg i now_ns (s\<lparr>lost := lost s + lost_at cfg i s\<rparr>)"

end
