(* ===== verification/FwsClientProps.thy ===== *)
theory FwsClientProps
  imports FwsClient "HOL-Library.Sublist"
begin

text \<open>
  What the benchmark client promises: the contract of the library and of the echoing
  server, the invariant of the client (what every connection holds, and the books of
  messages, bytes and frames), its preservation by every callback, the start, and the
  properties.
\<close>

section \<open>What the library and the server promise\<close>

text \<open>
  A connection that was added opens once; while a frame is under way the server sends it
  back, in parts; a connection closed by the client reads nothing more; allocations and
  calls succeed; control messages come in one piece. The loop does not call back once it
  was told to stop. If \<^verbatim>\<open>Close\<close> calls \<^verbatim>\<open>OnClose\<close> itself, the connection still counts while its
  callback runs.
\<close>

definition room_for :: "client_cfg \<Rightarrow> iobuf \<Rightarrow> bool" where
  "room_for cfg fresh \<longleftrightarrow> fresh_for (cl_max_data_len cfg + cl_reserve cfg) fresh"

fun echo_part :: "wire \<Rightarrow> iobuf option \<Rightarrow> recv_event \<Rightarrow> bool" where
  "echo_part (Awaiting f) (Some buf) e \<longleftrightarrow>
     prefix (io_contents buf @ rv_part e) f
   \<and> (rv_is_msg_end e \<longleftrightarrow> io_contents buf @ rv_part e = f)"
| "echo_part _ _ e \<longleftrightarrow> False"

fun library_ok :: "client_cfg \<Rightarrow> client \<Rightarrow> client_event \<Rightarrow> bool" where
  "library_ok cfg s (ConnOpen i e) \<longleftrightarrow>
     \<not> stopped s
   \<and> (case conns s i of None \<Rightarrow> False
      | Some c \<Rightarrow> conn_wire c = Connecting \<and> 0 \<le> op_write_ret e \<and> room_for cfg (op_fresh e))"
| "library_ok cfg s (ConnRead i e) \<longleftrightarrow>
     \<not> stopped s
   \<and> (case conns s i of None \<Rightarrow> False
      | Some c \<Rightarrow>
          if rv_is_control_msg e then rv_is_frame_end e \<and> rv_is_msg_end e
          else echo_part (conn_wire c) (temp_buf (conn_ctx c)) e
             \<and> 0 \<le> rv_write_ret e \<and> room_for cfg (rv_fresh e)
             \<and> NewWSClient (rv_rets e) \<and> \<not> add_ret (rv_rets e) < 0 \<and> conns s (rv_new_id e) = None
             \<and> (rv_close_sync e \<longrightarrow> rv_socket_count e \<noteq> 0))"
| "library_ok cfg s (ConnClose i status_code now_ns) \<longleftrightarrow> \<not> stopped s \<and> conns s i \<noteq> None"

text \<open>A loop that counts no connection has none but the one whose callback runs.\<close>

fun count_ok :: "client \<Rightarrow> client_event \<Rightarrow> bool" where
  "count_ok s (ConnRead i e) \<longleftrightarrow> (rv_socket_count e = 0 \<longrightarrow> dom (conns s) \<subseteq> {i})"
| "count_ok s _ \<longleftrightarrow> True"

definition client_ok :: "client_cfg \<Rightarrow> client \<Rightarrow> client_event \<Rightarrow> bool" where
  "client_ok cfg s ev \<longleftrightarrow> library_ok cfg s ev \<and> count_ok s ev"

section \<open>Invariant\<close>

text \<open>The bytes of an echo that have come in, and the frame a connection has under way.\<close>

definition pending :: "conn \<Rightarrow> nat" where
  "pending c =
     (case (conn_wire c, temp_buf (conn_ctx c)) of
        (Awaiting f, Some buf) \<Rightarrow> length (io_contents buf) | _ \<Rightarrow> 0)"

definition in_flight :: "conn \<Rightarrow> nat" where
  "in_flight c = (case conn_wire c of Awaiting f \<Rightarrow> 1 | _ \<Rightarrow> 0)"

definition holds_payload :: "client_cfg \<Rightarrow> client_ctx \<Rightarrow> bool" where
  "holds_payload cfg ctx \<longleftrightarrow>
     (\<exists>buf. temp_buf ctx = Some buf \<and> io_valid buf \<and> io_contents buf = payload cfg)"

definition collects :: "client_cfg \<Rightarrow> client_ctx \<Rightarrow> bool" where
  "collects cfg ctx \<longleftrightarrow>
     (\<exists>buf. temp_buf ctx = Some buf \<and> io_valid buf \<and> prefix (io_contents buf) (payload cfg)
        \<and> cl_max_data_len cfg \<le> io_room buf + length (io_contents buf))"

definition conn_inv :: "client_cfg \<Rightarrow> conn \<Rightarrow> bool" where
  "conn_inv cfg c \<longleftrightarrow>
     1 \<le> reborn_cnt (conn_ctx c) \<and> reborn_cnt (conn_ctx c) \<le> cl_reborn_limit cfg
   \<and> (case conn_wire c of
        Connecting \<Rightarrow> msg_cnt (conn_ctx c) = 0 \<and> holds_payload cfg (conn_ctx c)
      | Awaiting f \<Rightarrow> f = payload cfg \<and> msg_cnt (conn_ctx c) < cl_msg_limit cfg \<and> collects cfg (conn_ctx c)
      | Closing \<Rightarrow> True)"

text \<open>
  \<open>k\<close> is what is owed by a buffer between two lives; no message is lost track of.
\<close>

definition counts_inv :: "client_cfg \<Rightarrow> nat \<Rightarrow> client \<Rightarrow> bool" where
  "counts_inv cfg k s \<longleftrightarrow>
     unat (loop_cnt s) + tally (owed cfg) (conns s) + lost s + k = unat (cl_total cfg)
   \<and> length (rtt_hist s) = unat (loop_cnt s)"

definition bytes_inv :: "client_cfg \<Rightarrow> client \<Rightarrow> bool" where
  "bytes_inv cfg s \<longleftrightarrow>
     recv_bytes_sum s = of_nat (cl_max_data_len cfg * unat (loop_cnt s) + tally pending (conns s))
   \<and> send_bytes_sum s
       = of_nat (cl_max_data_len cfg * unat (loop_cnt s) + cl_max_data_len cfg * tally in_flight (conns s))"

definition end_inv :: "client_cfg \<Rightarrow> nat \<Rightarrow> client \<Rightarrow> bool" where
  "end_inv cfg k s \<longleftrightarrow>
     (if stopped s
      then out_fp s = ClosedFile \<and> tally (owed cfg) (conns s) = 0 \<and> k = 0
         \<and> (\<exists>now_ns. rows s = [summary_row cfg now_ns s])
      else out_fp s = OpenFile \<and> rows s = []
         \<and> (lost s = 0 \<longrightarrow> k = 0 \<longrightarrow> tally (owed cfg) (conns s) = 0 \<longrightarrow> conns s \<noteq> Map.empty))"

definition data_inv :: "client_cfg \<Rightarrow> client \<Rightarrow> bool" where
  "data_inv cfg s \<longleftrightarrow>
     data_hash s = HashArr (cl_rotr cfg) (payload cfg)
   \<and> (\<forall>(i, opcode, f) \<in> set (frames s). opcode = 2 \<and> f = payload cfg)"

definition base_inv :: "client_cfg \<Rightarrow> nat \<Rightarrow> client \<Rightarrow> bool" where
  "base_inv cfg k s \<longleftrightarrow>
     finite (dom (conns s)) \<and> (\<forall>i c. conns s i = Some c \<longrightarrow> conn_inv cfg c)
   \<and> counts_inv cfg k s \<and> (lost s = 0 \<longrightarrow> bytes_inv cfg s) \<and> data_inv cfg s"

definition client_inv :: "client_cfg \<Rightarrow> client \<Rightarrow> bool" where
  "client_inv cfg s \<longleftrightarrow> base_inv cfg 0 s \<and> end_inv cfg 0 s"

definition cfg_ok :: "client_cfg \<Rightarrow> bool" where
  "cfg_ok cfg \<longleftrightarrow> 0 < cl_max_data_len cfg \<and> 0 < cl_msg_limit cfg \<and> 0 < cl_reborn_limit cfg"

section \<open>Preservation\<close>

lemma length_payload [simp]: "length (payload cfg) = cl_max_data_len cfg"
  by (simp add: payload_def)

lemma put_conn_fields [simp]:
  "conns (put_conn i ctx w s) = (conns s)(i \<mapsto> \<lparr>conn_ctx = ctx, conn_wire = w\<rparr>)"
  "loop_cnt (put_conn i ctx w s) = loop_cnt s" "lost (put_conn i ctx w s) = lost s"
  "send_bytes_sum (put_conn i ctx w s) = send_bytes_sum s"
  "recv_bytes_sum (put_conn i ctx w s) = recv_bytes_sum s"
  "data_hash (put_conn i ctx w s) = data_hash s" "cl_start_ns (put_conn i ctx w s) = cl_start_ns s"
  "rtt_hist (put_conn i ctx w s) = rtt_hist s" "out_fp (put_conn i ctx w s) = out_fp s"
  "stopped (put_conn i ctx w s) = stopped s" "rows (put_conn i ctx w s) = rows s"
  "frames (put_conn i ctx w s) = frames s"
  by (simp_all add: put_conn_def)

lemmas inv_parts = counts_inv_def bytes_inv_def end_inv_def data_inv_def summary_row_def

lemma owed_pos:
  assumes "cfg_ok cfg" and "conn_inv cfg c" and "conn_wire c \<noteq> Closing"
  shows "0 < owed cfg c"
proof -
  have "msg_cnt (conn_ctx c) < cl_msg_limit cfg"
    using assms by (auto simp: conn_inv_def cfg_ok_def split: wire.splits)
  then show ?thesis using assms(3) by (simp add: owed_def word_less_nat_alt)
qed

lemma closing_measures:
  "conn_wire c = Closing \<Longrightarrow> owed cfg c = 0 \<and> pending c = 0 \<and> in_flight c = 0"
  by (simp add: owed_def pending_def in_flight_def)

lemma fresh_collects:
  "room_for cfg b \<Longrightarrow> temp_buf ctx = Some (with_reserve (cl_reserve cfg) b) \<Longrightarrow> collects cfg ctx"
  using fresh_buffer [of "cl_max_data_len cfg" "cl_reserve cfg" b]
  by (auto simp: collects_def room_for_def)

text \<open>\<^verbatim>\<open>EndClient\<close> at a point where nothing is owed any more.\<close>


lemma EndClient_inv:
  assumes "base_inv cfg 0 s" and "out_fp s = OpenFile" and "rows s = []"
    and "tally (owed cfg) (conns s) = 0"
  obtains s' where "EndClient cfg now s = Inr s'" "client_inv cfg s'" "stopped s'"
    "conns s' = conns s" "loop_cnt s' = loop_cnt s"
proof -
  let ?s = "s\<lparr>stopped := True, wait_shutdown := True, out_fp := ClosedFile,
              rows := rows s @ [summary_row cfg now s]\<rparr>"
  have "EndClient cfg now s = Inr ?s" using assms by (simp add: EndClient_def summary_row_def)
  moreover have "client_inv cfg ?s" using assms by (auto simp: client_inv_def base_inv_def inv_parts)
  ultimately show thesis by (intro that [of ?s]) simp_all
qed

lemma EndClient_frames: "EndClient cfg now s = Inr s' \<Longrightarrow> frames s' = frames s"
  by (auto simp: EndClient_def Let_def split: stream.splits)

lemma owed_sum_zero:
  assumes "counts_inv cfg k s" and "cl_total cfg \<le> loop_cnt s"
  shows "tally (owed cfg) (conns s) = 0" and "lost s = 0" and "k = 0" and "loop_cnt s = cl_total cfg"
proof -
  have "unat (loop_cnt s) + tally (owed cfg) (conns s) + lost s + k = unat (cl_total cfg)"
    and "unat (cl_total cfg) \<le> unat (loop_cnt s)"
    using assms by (simp_all add: counts_inv_def word_le_nat_alt)
  then show "tally (owed cfg) (conns s) = 0" and "lost s = 0" and "k = 0"
    and "loop_cnt s = cl_total cfg"
    by (simp_all add: word_unat_eq_iff)
qed

text \<open>A connection that closes takes what it still owes with it.\<close>

lemma close_base:
  assumes ok: "cfg_ok cfg" and inv: "base_inv cfg k s" and c: "conns s i = Some c"
  shows "base_inv cfg k (s\<lparr>lost := lost s + owed cfg c, conns := (conns s)(i := None)\<rparr>)"
proof -
  have fin: "finite (dom (conns s))" and cinv: "conn_inv cfg c"
    using inv c by (auto simp: base_inv_def)
  note del = tally_delete [OF fin c]
  have "lost s = 0 \<and> pending c = 0 \<and> in_flight c = 0" if "lost s + owed cfg c = 0"
    using owed_pos [OF ok cinv] closing_measures [of c cfg] that by (cases "conn_wire c = Closing") auto
  then show ?thesis
    using inv del [of "owed cfg"] del [of pending] del [of in_flight]
    by (auto simp: base_inv_def counts_inv_def bytes_inv_def data_inv_def)
qed

lemma OnClose_inv:
  assumes ok: "cfg_ok cfg" and inv: "base_inv cfg k s" and open_fp: "out_fp s = OpenFile" "rows s = []"
    and run: "\<not> stopped s" and c: "conns s i = Some c"
  obtains s' where "OnClose cfg i now (s\<lparr>lost := lost s + owed cfg c\<rparr>) = Inr s'"
    "base_inv cfg k s'" "end_inv cfg k s'" "conns s' = (conns s)(i := None)" "loop_cnt s' = loop_cnt s"
    "stopped s' \<longleftrightarrow> cl_total cfg \<le> loop_cnt s"
proof -
  let ?s = "s\<lparr>lost := lost s + owed cfg c, conns := (conns s)(i := None)\<rparr>"
  note base = close_base [OF ok inv c]
  then have counts: "counts_inv cfg k ?s" by (simp add: base_inv_def)
  show thesis
  proof (cases "cl_total cfg \<le> loop_cnt s")
    case True
    with counts have zero: "tally (owed cfg) (conns ?s) = 0" "k = 0"
      using owed_sum_zero [OF counts] by simp_all
    obtain s' where "EndClient cfg now ?s = Inr s'" "client_inv cfg s'" "stopped s'"
        "conns s' = conns ?s" "loop_cnt s' = loop_cnt ?s"
      using EndClient_inv [of cfg ?s] base open_fp zero by auto
    with True c zero show thesis by (intro that [of s']) (simp_all add: OnClose_def client_inv_def)
  next
    case False
    then have "unat (loop_cnt s) < unat (cl_total cfg)" by (simp add: word_le_nat_alt)
    then have "end_inv cfg k ?s" using counts open_fp run by (auto simp: end_inv_def counts_inv_def)
    with False c base run show thesis by (intro that [of ?s]) (simp_all add: OnClose_def)
  qed
qed

lemma word_exchange:
  fixes r :: u64
  assumes "r' + (l + p) = r + (l' + p')" and "r = l + t" and "t' + p = t + p'"
  shows "r' = l' + t'"
proof -
  have "r' + (l + p) = (l' + t') + (l + p)"
    using assms by (simp add: ac_simps)
  then show ?thesis by simp
qed

text \<open>Replacing the state of a connection that stays open.\<close>

lemma put_base:
  assumes inv: "base_inv cfg k s" and c: "conns s i = Some c"
    and c': "conns s' = (conns s)(i \<mapsto> c')" "conn_inv cfg c'"
    and counts: "unat (loop_cnt s') + owed cfg c' + k' = unat (loop_cnt s) + owed cfg c + k"
      "length (rtt_hist s') + unat (loop_cnt s) = length (rtt_hist s) + unat (loop_cnt s')"
    and lost: "lost s' = lost s"
    and recv: "recv_bytes_sum s' + of_nat (cl_max_data_len cfg * unat (loop_cnt s) + pending c)
        = recv_bytes_sum s + of_nat (cl_max_data_len cfg * unat (loop_cnt s') + pending c')"
    and send: "send_bytes_sum s' + of_nat (cl_max_data_len cfg * unat (loop_cnt s) + cl_max_data_len cfg * in_flight c)
        = send_bytes_sum s + of_nat (cl_max_data_len cfg * unat (loop_cnt s') + cl_max_data_len cfg * in_flight c')"
    and data: "data_inv cfg s'"
  shows "base_inv cfg k' s'"
proof -
  let ?L = "cl_max_data_len cfg"
  have fin: "finite (dom (conns s))" using inv by (simp add: base_inv_def)
  note upd = tally_update [OF fin c, of _ c']
  have u: "tally (owed cfg) (conns s') + owed cfg c = tally (owed cfg) (conns s) + owed cfg c'"
    "tally pending (conns s') + pending c = tally pending (conns s) + pending c'"
    "tally in_flight (conns s') + in_flight c = tally in_flight (conns s) + in_flight c'"
    by (simp_all add: c'(1) upd)
  have w: "(of_nat (tally pending (conns s')) :: u64) + of_nat (pending c)
        = of_nat (tally pending (conns s)) + of_nat (pending c')"
    "(of_nat (?L * tally in_flight (conns s')) :: u64) + of_nat (?L * in_flight c)
        = of_nat (?L * tally in_flight (conns s)) + of_nat (?L * in_flight c')"
    using u(2,3) by (metis of_nat_add distrib_left)+
  have bytes: "bytes_inv cfg s'" if "bytes_inv cfg s"
    using that word_exchange [OF recv [unfolded of_nat_add] _ w(1)]
      word_exchange [OF send [unfolded of_nat_add] _ w(2)]
    by (simp add: bytes_inv_def)
  have "counts_inv cfg k' s'"
    using inv counts lost u(1) by (simp add: base_inv_def counts_inv_def)
  then show ?thesis
    using inv fin bytes c' lost data by (auto simp: base_inv_def)
qed


lemma end_put:
  assumes "end_inv cfg k s" and "\<not> stopped s" and "conns s' = (conns s)(i \<mapsto> c')"
    and "stopped s' = stopped s" and "out_fp s' = out_fp s" and "rows s' = rows s"
  shows "end_inv cfg k' s'"
  using assms by (auto simp: end_inv_def)

text \<open>
  Where a connection is, seen from outside: nothing sent yet, an echo awaited of which some bytes
  have come in, or closed by the client.
\<close>

datatype phase = Unsent | Waiting "u8 list" | Finished

definition phase_of :: "conn \<Rightarrow> phase" where
  "phase_of c = (case conn_wire c of
     Connecting \<Rightarrow> Unsent
   | Awaiting f \<Rightarrow> Waiting (case temp_buf (conn_ctx c) of None \<Rightarrow> [] | Some buf \<Rightarrow> io_contents buf)
   | Closing \<Rightarrow> Finished)"

definition phases :: "client \<Rightarrow> nat \<Rightarrow> phase option" where
  "phases s i = map_option phase_of (conns s i)"

lemma phases_put: "conns s' = (conns s)(i \<mapsto> c) \<Longrightarrow> phases s' = (phases s)(i \<mapsto> phase_of c)"
  by (simp add: phases_def fun_eq_iff)

lemma phases_cong: "conns s' = conns s \<Longrightarrow> phases s' = phases s"
  by (simp add: phases_def fun_eq_iff)

lemma open_preserves:
  assumes ok: "cfg_ok cfg" and inv: "client_inv cfg s" and lib: "client_ok cfg s (ConnOpen i e)"
  shows "\<exists>s'. client_step cfg (ConnOpen i e) s = Inr s' \<and> client_inv cfg s'
     \<and> phases s' = (phases s)(i \<mapsto> Waiting []) \<and> frames s' = frames s @ [(i, 2, payload cfg)]"
proof -
  obtain c where c: "conns s i = Some c" "conn_wire c = Connecting" "0 \<le> op_write_ret e"
      "room_for cfg (op_fresh e)" "\<not> stopped s"
    using lib by (auto simp: client_ok_def split: option.splits)
  have base: "base_inv cfg 0 s" and end_i: "end_inv cfg 0 s" using inv by (auto simp: client_inv_def)
  then have cinv: "conn_inv cfg c" using c(1) by (simp add: base_inv_def)
  then obtain buf where buf: "temp_buf (conn_ctx c) = Some buf" "io_valid buf"
      "io_contents buf = payload cfg" and cnt: "msg_cnt (conn_ctx c) = 0"
    using c(2) by (auto simp: conn_inv_def holds_payload_def)
  then have size: "io_size buf = cl_max_data_len cfg" using io_contents_length [of buf] by simp
  define ctx where "ctx = (conn_ctx c)\<lparr>start_write_tick := op_start_tick e,
                             temp_buf := Some (with_reserve (cl_reserve cfg) (op_fresh e))\<rparr>"
  define c' where "c' = \<lparr>conn_ctx = ctx, conn_wire = Awaiting (payload cfg)\<rparr>"
  define s' where "s' = put_conn i ctx (Awaiting (payload cfg))
     (s\<lparr>cl_start_ns := (if send_bytes_sum s = 0 then op_now_ns e else cl_start_ns s),
        send_bytes_sum := send_bytes_sum s + of_nat (cl_max_data_len cfg),
        frames := frames s @ [(i, 2, payload cfg)]\<rparr>)"
  have step: "client_step cfg (ConnOpen i e) s = Inr s'"
    using c buf size
    by (simp add: OnOpen_def WriteFirstMsg_def use_buffer_def send_frame_def s'_def ctx_def Let_def
        put_conn_def)
  have "conn_inv cfg c'"
    using cinv cnt ok fresh_collects [OF c(4), of ctx]
    by (simp add: conn_inv_def c'_def ctx_def cfg_ok_def word_less_nat_alt)
  moreover have "owed cfg c' = owed cfg c" "pending c = 0" "in_flight c = 0" "in_flight c' = 1"
    using c(2) by (simp_all add: owed_def pending_def in_flight_def c'_def ctx_def)
  moreover have "pending c' = 0"
    using c(4) by (simp add: pending_def c'_def ctx_def room_for_def fresh_buffer)
  moreover have "data_inv cfg s'"
    using base by (auto simp: base_inv_def data_inv_def s'_def)
  ultimately have "base_inv cfg 0 s'"
    by (intro put_base [OF base c(1), of s' c']) (simp_all add: s'_def c'_def)
  moreover have "end_inv cfg 0 s'"
    by (rule end_put [OF end_i c(5), of _ i c']) (simp_all add: s'_def c'_def)
  moreover have "phases s' = (phases s)(i \<mapsto> phase_of c')" by (rule phases_put) (simp add: s'_def c'_def)
  moreover have "phase_of c' = Waiting []" "frames s' = frames s @ [(i, 2, payload cfg)]"
    using c(4) by (simp_all add: phase_of_def c'_def ctx_def s'_def room_for_def fresh_buffer)
  ultimately show ?thesis using step by (simp add: client_inv_def)
qed

text \<open>A part of an echo that has come in, and what the buffer then holds.\<close>

lemma part_arrives:
  assumes "conn_inv cfg c" and "echo_part (conn_wire c) (temp_buf (conn_ctx c)) e"
  obtains buf buf' where "temp_buf (conn_ctx c) = Some buf" "io_append buf (rv_part e) = Inr buf'"
    "io_valid buf'" "io_contents buf' = io_contents buf @ rv_part e"
    "prefix (io_contents buf') (payload cfg)" "rv_is_msg_end e \<longleftrightarrow> io_contents buf' = payload cfg"
    "cl_max_data_len cfg \<le> io_room buf' + length (io_contents buf')"
    "io_size buf' = length (io_contents buf')" "conn_wire c = Awaiting (payload cfg)"
    "msg_cnt (conn_ctx c) < cl_msg_limit cfg"
proof -
  from assms(2) obtain f buf where w: "conn_wire c = Awaiting f" "temp_buf (conn_ctx c) = Some buf"
    by (cases "conn_wire c"; cases "temp_buf (conn_ctx c)") auto
  with assms have f: "f = payload cfg" "msg_cnt (conn_ctx c) < cl_msg_limit cfg" "io_valid buf"
      "cl_max_data_len cfg \<le> io_room buf + length (io_contents buf)"
      "prefix (io_contents buf @ rv_part e) (payload cfg)"
      "rv_is_msg_end e \<longleftrightarrow> io_contents buf @ rv_part e = payload cfg"
    by (auto simp: conn_inv_def collects_def)
  from prefix_length_le [OF f(5)] f(4) have fits: "length (rv_part e) \<le> io_room buf" by simp
  obtain buf' where b': "io_append buf (rv_part e) = Inr buf'" "io_valid buf'"
      "io_contents buf' = io_contents buf @ rv_part e" "io_room buf' = io_room buf - length (rv_part e)"
    using io.append_fits [OF f(3) fits] by auto
  show thesis
    by (rule that [of buf buf']) (use w f b' fits io_contents_length [OF b'(2)] in simp_all)
qed

lemma read_control:
  assumes "rv_is_control_msg e" and "client_inv cfg s" and "client_ok cfg s (ConnRead i e)"
  shows "OnRead cfg i e s = Inr s"
  using assms by (auto simp: OnRead_def client_ok_def split: option.splits)

lemma read_partial:
  assumes ok: "cfg_ok cfg" and inv: "client_inv cfg s" and lib: "client_ok cfg s (ConnRead i e)"
    and kind: "\<not> rv_is_control_msg e" "\<not> rv_is_msg_end e"
  shows "\<exists>s' q. OnRead cfg i e s = Inr s' \<and> client_inv cfg s' \<and> phases s i = Some (Waiting q)
     \<and> phases s' = (phases s)(i \<mapsto> Waiting (q @ rv_part e)) \<and> frames s' = frames s"
proof -
  obtain c where c: "conns s i = Some c" "echo_part (conn_wire c) (temp_buf (conn_ctx c)) e" "\<not> stopped s"
    using lib kind by (auto simp: client_ok_def split: option.splits)
  have base: "base_inv cfg 0 s" and end_i: "end_inv cfg 0 s" using inv by (auto simp: client_inv_def)
  then have cinv: "conn_inv cfg c" using c(1) by (simp add: base_inv_def)
  obtain buf buf' where b: "temp_buf (conn_ctx c) = Some buf" "io_append buf (rv_part e) = Inr buf'"
      "io_valid buf'" "io_contents buf' = io_contents buf @ rv_part e"
      "prefix (io_contents buf') (payload cfg)"
      "cl_max_data_len cfg \<le> io_room buf' + length (io_contents buf')"
    and w: "conn_wire c = Awaiting (payload cfg)"
    by (rule part_arrives [OF cinv c(2)])
  define c' where "c' = \<lparr>conn_ctx = (conn_ctx c)\<lparr>temp_buf := Some buf'\<rparr>, conn_wire = conn_wire c\<rparr>"
  define s' where "s' = put_conn i (conn_ctx c') (conn_wire c)
     (s\<lparr>recv_bytes_sum := recv_bytes_sum s + of_nat (length (rv_part e))\<rparr>)"
  have step: "OnRead cfg i e s = Inr s'"
    using c kind b by (simp add: OnRead_def use_buffer_def s'_def c'_def Let_def)
  have "conn_inv cfg c'" using cinv b w by (auto simp: conn_inv_def c'_def collects_def)
  moreover have "owed cfg c' = owed cfg c" "in_flight c' = in_flight c"
      "pending c' = pending c + length (rv_part e)"
    using w b by (simp_all add: owed_def pending_def in_flight_def c'_def)
  moreover have "data_inv cfg s'" using base by (simp add: base_inv_def data_inv_def s'_def)
  ultimately have "base_inv cfg 0 s'"
    by (intro put_base [OF base c(1), of s' c']) (simp_all add: s'_def c'_def)
  moreover have "end_inv cfg 0 s'"
    by (rule end_put [OF end_i c(3), of _ i c']) (simp_all add: s'_def c'_def)
  moreover have "phases s' = (phases s)(i \<mapsto> phase_of c')" by (rule phases_put) (simp add: s'_def c'_def)
  moreover have "phase_of c' = Waiting (io_contents buf @ rv_part e)" "frames s' = frames s"
      "phases s i = Some (Waiting (io_contents buf))"
    using c(1) w b by (simp_all add: phase_of_def phases_def c'_def s'_def)
  ultimately show ?thesis using step by (simp add: client_inv_def)
qed

text \<open>An echo that is complete, counted.\<close>

definition counted_echo :: "client_cfg \<Rightarrow> recv_event \<Rightarrow> client_ctx \<Rightarrow> client \<Rightarrow> client" where
  "counted_echo cfg e ctx s =
     s\<lparr>recv_bytes_sum := recv_bytes_sum s + of_nat (length (rv_part e)),
       rtt_hist := rtt_hist s @ [round_trip cfg (rv_stop_tick e - start_write_tick ctx)],
       loop_cnt := loop_cnt s + 1\<rparr>"

lemma loop_cnt_bump:
  assumes "base_inv cfg 0 s" and "conns s i = Some c" and "0 < owed cfg c"
  shows "unat (loop_cnt s + 1) = unat (loop_cnt s) + 1"
proof -
  have "owed cfg c \<le> tally (owed cfg) (conns s)"
    using assms by (intro tally_member) (auto simp: base_inv_def)
  then have "unat (loop_cnt s) + 1 \<le> unat (cl_total cfg)"
    using assms by (simp add: base_inv_def counts_inv_def)
  also have "\<dots> < 2 ^ 64" using unat_u64_less [of "cl_total cfg"] by simp
  finally show ?thesis using unat_plus_of_nat [of "loop_cnt s" 1] by simp
qed

lemma msg_cnt_bump:
  fixes n :: u64
  assumes "n < limit"
  shows "unat (n + 1) = unat n + 1"
proof -
  have "unat n + 1 \<le> unat limit" using assms by (simp add: word_less_nat_alt)
  also have "\<dots> < 2 ^ 64" using unat_u64_less [of limit] by simp
  finally show ?thesis using unat_plus_of_nat [of n 1] by simp
qed

lemma record_progress_ok:
  assumes "io_contents buf = payload cfg" and "data_inv cfg s"
  obtains t ps where
    "record_progress cfg e ns buf s = Inr (s\<lparr>last_record_ns := t, progress_lines := ps\<rparr>)"
proof (cases "loop_cnt s AND 0x3fff = 0")
  case True
  with assms show thesis
    by (intro that) (simp add: record_progress_def data_inv_def Let_def; rule refl)
next
  case False
  then show thesis
    by (intro that [of "progress_lines s" "last_record_ns s"]) (simp add: record_progress_def)
qed

lemma echo_measures:
  assumes cinv: "conn_inv cfg c" and w: "conn_wire c = Awaiting (payload cfg)"
    and lt: "msg_cnt (conn_ctx c) < cl_msg_limit cfg"
  shows "owed cfg c = nat (cl_reborn_limit cfg - reborn_cnt (conn_ctx c)) * unat (cl_msg_limit cfg)
           + (unat (cl_msg_limit cfg) - unat (msg_cnt (conn_ctx c) + 1)) + 1"
    and "in_flight c = 1"
  using w lt msg_cnt_bump [OF lt] by (simp_all add: owed_def in_flight_def word_less_nat_alt)


text \<open>The message a connection completes, and what is left to do with it.\<close>

definition completed :: "recv_event \<Rightarrow> iobuf \<Rightarrow> client_ctx \<Rightarrow> client_ctx" where
  "completed e buf ctx = ctx\<lparr>temp_buf := Some buf, msg_cnt := msg_cnt ctx + 1\<rparr>"

definition after_echo :: "client_cfg \<Rightarrow> nat \<Rightarrow> recv_event \<Rightarrow> conn \<Rightarrow> iobuf \<Rightarrow> client \<Rightarrow> client result" where
  "after_echo cfg i e c buf s =
       (let ctx = completed e buf (conn_ctx c); s = counted_echo cfg e (conn_ctx c) s
        in if msg_cnt ctx = cl_msg_limit cfg then end_life cfg i e ctx buf s
           else if cl_total cfg \<le> loop_cnt s then EndClient cfg (rv_now_ns e) (put_conn i ctx (conn_wire c) s)
           else bindE (record_progress cfg e (round_trip cfg (rv_stop_tick e - start_write_tick (conn_ctx c))) buf s)
                  (send_frame cfg i (rv_write_ret e) buf (ctx\<lparr>start_write_tick := rv_start_tick e\<rparr>) (rv_fresh e)))"

lemma echo_completes:
  assumes base: "base_inv cfg 0 s" and c: "conns s i = Some c"
    and kind: "\<not> rv_is_control_msg e" "rv_is_msg_end e"
    and part: "echo_part (conn_wire c) (temp_buf (conn_ctx c)) e"
  obtains buf where
    "OnRead cfg i e s = after_echo cfg i e c buf s"
    "io_contents buf = payload cfg" "io_valid buf" "io_size buf = cl_max_data_len cfg"
    "cl_max_data_len cfg = pending c + length (rv_part e)"
    "conn_wire c = Awaiting (payload cfg)" "msg_cnt (conn_ctx c) < cl_msg_limit cfg"
    "unat (loop_cnt s + 1) = unat (loop_cnt s) + 1"
proof -
  have cinv: "conn_inv cfg c" using base c by (simp add: base_inv_def)
  obtain b buf where b: "temp_buf (conn_ctx c) = Some b" "io_append b (rv_part e) = Inr buf" "io_valid buf"
      "io_contents buf = io_contents b @ rv_part e" "rv_is_msg_end e \<longleftrightarrow> io_contents buf = payload cfg"
      "io_size buf = length (io_contents buf)"
    and w: "conn_wire c = Awaiting (payload cfg)" and lt: "msg_cnt (conn_ctx c) < cl_msg_limit cfg"
    by (rule part_arrives [OF cinv part])
  have "owed cfg c \<noteq> 0" using echo_measures [OF cinv w lt] by simp
  then have "unat (loop_cnt s + 1) = unat (loop_cnt s) + 1" by (intro loop_cnt_bump [OF base c]) simp
  moreover have "cl_max_data_len cfg = pending c + length (rv_part e)"
    using b kind w by (metis length_append length_payload pending_def wire.case(2) option.case(2) split_conv)
  ultimately show thesis
    using c kind b w lt
    by (intro that [of buf]) (simp_all add: OnRead_def use_buffer_def Let_def completed_def counted_echo_def after_echo_def)
qed

lemma live_not_total:
  assumes "cfg_ok cfg" and "base_inv cfg k s" and "conns s i = Some c" and "conn_wire c \<noteq> Closing"
  shows "\<not> cl_total cfg \<le> loop_cnt s"
proof
  assume "cl_total cfg \<le> loop_cnt s"
  then have "tally (owed cfg) (conns s) = 0"
    using assms(2) by (intro owed_sum_zero [of cfg k]) (simp_all add: base_inv_def)
  then have "owed cfg c = 0"
    using assms(2,3) tally_member [of "conns s" i c "owed cfg"] by (simp add: base_inv_def)
  then show False using owed_pos [OF assms(1) _ assms(4)] assms(2,3) by (simp add: base_inv_def)
qed

lemma read_next:
  assumes ok: "cfg_ok cfg" and inv: "client_inv cfg s" and lib: "client_ok cfg s (ConnRead i e)"
    and kind: "\<not> rv_is_control_msg e" "rv_is_msg_end e" and c: "conns s i = Some c"
    and more: "msg_cnt (conn_ctx c) + 1 \<noteq> cl_msg_limit cfg"
  shows "\<exists>s'. OnRead cfg i e s = Inr s' \<and> client_inv cfg s'
     \<and> phases s' = (phases s)(i \<mapsto> Waiting []) \<and> frames s' = frames s @ [(i, 2, payload cfg)]"
proof -
  have lib': "echo_part (conn_wire c) (temp_buf (conn_ctx c)) e" "\<not> stopped s" "0 \<le> rv_write_ret e"
    "room_for cfg (rv_fresh e)"
    using lib kind c by (auto simp: client_ok_def split: option.splits)
  have base: "base_inv cfg 0 s" and end_i: "end_inv cfg 0 s" using inv by (auto simp: client_inv_def)
  then have cinv: "conn_inv cfg c" using c by (simp add: base_inv_def)
  note echo = echo_completes [OF base c kind lib'(1)]
  obtain buf where read: "OnRead cfg i e s = after_echo cfg i e c buf s"
    and buf: "io_contents buf = payload cfg" "io_size buf = cl_max_data_len cfg"
      "cl_max_data_len cfg = pending c + length (rv_part e)"
    and w: "conn_wire c = Awaiting (payload cfg)" and lt: "msg_cnt (conn_ctx c) < cl_msg_limit cfg"
    and loop: "unat (loop_cnt s + 1) = unat (loop_cnt s) + 1"
    by (rule echo)
  let ?s1 = "counted_echo cfg e (conn_ctx c) s"
  define ctx where "ctx = (completed e buf (conn_ctx c))\<lparr>start_write_tick := rv_start_tick e,
      temp_buf := Some (with_reserve (cl_reserve cfg) (rv_fresh e))\<rparr>"
  have "data_inv cfg ?s1" using base by (simp add: base_inv_def data_inv_def counted_echo_def)
  then obtain t ps where rec: "record_progress cfg e (round_trip cfg (rv_stop_tick e - start_write_tick (conn_ctx c)))
      buf ?s1 = Inr (?s1\<lparr>last_record_ns := t, progress_lines := ps\<rparr>)"
    by (rule record_progress_ok [OF buf(1)])
  define s' where "s' = put_conn i ctx (Awaiting (payload cfg))
     (?s1\<lparr>last_record_ns := t, progress_lines := ps,
         send_bytes_sum := send_bytes_sum s + of_nat (cl_max_data_len cfg),
         frames := frames s @ [(i, 2, payload cfg)]\<rparr>)"
  define c' where "c' = \<lparr>conn_ctx = ctx, conn_wire = Awaiting (payload cfg)\<rparr>"
  note s'_defs = s'_def c'_def counted_echo_def
  have lt': "msg_cnt (conn_ctx c) + 1 < cl_msg_limit cfg"
    using more msg_cnt_bump [OF lt] lt by (simp add: word_less_nat_alt word_unat_eq_iff)
  have cinv': "conn_inv cfg c'"
    using cinv lt' fresh_collects [OF lib'(4), of ctx] by (simp add: conn_inv_def c'_def ctx_def completed_def)
  have m': "owed cfg c = owed cfg c' + 1" "pending c' = 0" "in_flight c' = in_flight c"
    using echo_measures [OF cinv w lt] w lib'(4)
    by (simp_all add: owed_def pending_def in_flight_def c'_def ctx_def completed_def room_for_def fresh_buffer)
  have base': "base_inv cfg 0 s'"
  proof (rule put_base [OF base c, of s' c'])
    show "data_inv cfg s'" using base by (auto simp: base_inv_def data_inv_def s'_defs)
    show "recv_bytes_sum s' + of_nat (cl_max_data_len cfg * unat (loop_cnt s) + pending c)
        = recv_bytes_sum s + of_nat (cl_max_data_len cfg * unat (loop_cnt s') + pending c')"
      using m' loop arg_cong [OF buf(3), of "of_nat :: nat \<Rightarrow> u64"] by (simp add: s'_defs algebra_simps)
  qed (use cinv' m' loop in \<open>simp_all add: s'_defs algebra_simps\<close>)
  moreover have "end_inv cfg 0 s'"
    by (rule end_put [OF end_i lib'(2), of _ i c']) (simp_all add: s'_defs)
  moreover have "phases s' = (phases s)(i \<mapsto> phase_of c')" by (rule phases_put) (simp add: s'_defs)
  moreover have "phase_of c' = Waiting []" "frames s' = frames s @ [(i, 2, payload cfg)]"
    using lib'(4) by (simp_all add: phase_of_def s'_defs ctx_def room_for_def fresh_buffer)
  moreover have "\<not> cl_total cfg \<le> loop_cnt s + 1"
    using live_not_total [OF ok base', of i c'] by (simp add: s'_defs)
  then have "OnRead cfg i e s = Inr s'"
    using read buf more lib'(3) rec
    by (simp add: Let_def s'_def ctx_def counted_echo_def send_frame_def put_conn_def completed_def after_echo_def)
  ultimately show ?thesis by (simp add: client_inv_def)
qed

text \<open>The end of a life: the connection stops owing, its buffer still does.\<close>

definition heir_owes :: "client_cfg \<Rightarrow> client_ctx \<Rightarrow> nat" where
  "heir_owes cfg ctx = nat (cl_reborn_limit cfg - reborn_cnt ctx) * unat (cl_msg_limit cfg)"

lemma retire_base:
  assumes base: "base_inv cfg 0 s" and c: "conns s i = Some c"
    and w: "conn_wire c = Awaiting (payload cfg)" and lt: "msg_cnt (conn_ctx c) < cl_msg_limit cfg"
    and limit: "msg_cnt (conn_ctx c) + 1 = cl_msg_limit cfg"
    and parts: "cl_max_data_len cfg = pending c + length (rv_part e)"
    and loop: "unat (loop_cnt s + 1) = unat (loop_cnt s) + 1"
    and s': "s' = put_conn i (ctx\<lparr>temp_buf := None\<rparr>) Closing (counted_echo cfg e (conn_ctx c) s)"
    and ctx: "reborn_cnt ctx = reborn_cnt (conn_ctx c)"
  shows "base_inv cfg (heir_owes cfg (conn_ctx c)) s'"
proof (rule put_base [OF base c])
  let ?c' = "\<lparr>conn_ctx = ctx\<lparr>temp_buf := None\<rparr>, conn_wire = Closing\<rparr>"
  have cinv: "conn_inv cfg c" using base c by (simp add: base_inv_def)
  note meas = echo_measures [OF cinv w lt]
  note c'_meas = closing_measures [of ?c' cfg, simplified]
  show "conns s' = (conns s)(i \<mapsto> ?c')" by (simp add: s' counted_echo_def)
  show "conn_inv cfg ?c'" using cinv ctx by (simp add: conn_inv_def)
  show "unat (loop_cnt s') + owed cfg ?c' + heir_owes cfg (conn_ctx c) = unat (loop_cnt s) + owed cfg c + 0"
    using meas(1) limit loop c'_meas by (simp add: s' counted_echo_def heir_owes_def)
  show "data_inv cfg s'" using base by (simp add: s' base_inv_def data_inv_def counted_echo_def)
  show "recv_bytes_sum s' + of_nat (cl_max_data_len cfg * unat (loop_cnt s) + pending c)
      = recv_bytes_sum s + of_nat (cl_max_data_len cfg * unat (loop_cnt s') + pending ?c')"
    using loop c'_meas arg_cong [OF parts, of "of_nat :: nat \<Rightarrow> u64"]
    by (simp add: s' counted_echo_def algebra_simps)
  show "send_bytes_sum s' + of_nat (cl_max_data_len cfg * unat (loop_cnt s) + cl_max_data_len cfg * in_flight c)
      = send_bytes_sum s + of_nat (cl_max_data_len cfg * unat (loop_cnt s') + cl_max_data_len cfg * in_flight ?c')"
    using loop c'_meas meas(2) by (simp add: s' counted_echo_def algebra_simps)
qed (use loop in \<open>simp_all add: s' counted_echo_def\<close>)

text \<open>A new connection takes over what the buffer owes.\<close>

lemma adopt_base:
  assumes ok: "cfg_ok cfg" and base: "base_inv cfg (heir_owes cfg ctx) s" and fresh: "conns s j = None"
    and more: "reborn_cnt ctx < cl_reborn_limit cfg" "1 \<le> reborn_cnt ctx"
    and new: "reborn_cnt new = reborn_cnt ctx + 1" "msg_cnt new = 0" "holds_payload cfg new"
  shows "base_inv cfg 0 (put_conn j new Connecting s)"
proof -
  let ?c = "\<lparr>conn_ctx = new, conn_wire = Connecting\<rparr>"
  have fin: "finite (dom (conns s))" using base by (simp add: base_inv_def)
  note ins = tally_insert [OF fin fresh, of _ ?c]
  have "nat (cl_reborn_limit cfg - reborn_cnt ctx) = nat (cl_reborn_limit cfg - (reborn_cnt ctx + 1)) + 1"
    using more(1) by simp
  then have "owed cfg ?c = heir_owes cfg ctx"
    by (simp add: owed_def heir_owes_def new)
  moreover have "pending ?c = 0" "in_flight ?c = 0" by (simp_all add: pending_def in_flight_def)
  moreover have "conn_inv cfg ?c" using more new by (simp add: conn_inv_def)
  ultimately show ?thesis
    using base by (auto simp: base_inv_def counts_inv_def bytes_inv_def data_inv_def ins)
qed

text \<open>After \<^verbatim>\<open>Close\<close>, whether or not it has called \<^verbatim>\<open>OnClose\<close>.\<close>

lemma closing_call:
  assumes ok: "cfg_ok cfg" and base: "base_inv cfg k s" and c: "conns s i = Some c" "conn_wire c = Closing"
    and run: "\<not> stopped s" "out_fp s = OpenFile" "rows s = []"
  obtains s' where "(if sync then OnClose cfg i now s else Inr s) = Inr s'"
    "base_inv cfg k s'" "end_inv cfg k s'" "conns s' = conns s \<or> conns s' = (conns s)(i := None)"
    "frames s' = frames s" "\<not> sync \<Longrightarrow> s' = s"
proof (cases sync)
  case True
  have "s\<lparr>lost := lost s + owed cfg c\<rparr> = s" using closing_measures [OF c(2)] by simp
  then obtain s' where s': "OnClose cfg i now s = Inr s'" "base_inv cfg k s'" "end_inv cfg k s'"
      "conns s' = (conns s)(i := None)"
    using OnClose_inv [OF ok base run(2,3,1) c(1), of now] by metis
  moreover from s'(1) c have "frames s' = frames s"
    by (auto simp: OnClose_def EndClient_def Let_def split: if_splits stream.splits)
  ultimately show thesis using True that by simp
next
  case False
  have "end_inv cfg k s" using run c by (auto simp: end_inv_def)
  with False base that [of s] show thesis by simp
qed

definition retires :: "nat \<Rightarrow> nat \<Rightarrow> client \<Rightarrow> client \<Rightarrow> bool" where
  "retires i j s s' \<longleftrightarrow> frames s' = frames s \<and>
     (\<exists>w \<in> {None, Some Finished}. phases s' = (phases s)(i := w) \<or> phases s' = (phases s)(i := w, j \<mapsto> Unsent))"

lemma end_life_inv:
  assumes ok: "cfg_ok cfg" and base: "base_inv cfg (heir_owes cfg ctx) s"
    and s: "s = put_conn i (ctx\<lparr>temp_buf := None\<rparr>) Closing s0"
    and run: "\<not> stopped s" "out_fp s = OpenFile" "rows s = []"
    and ctx: "1 \<le> reborn_cnt ctx" "reborn_cnt ctx \<le> cl_reborn_limit cfg"
    and buf: "io_contents buf = payload cfg" "io_valid buf" "io_size buf = cl_max_data_len cfg"
    and lib: "NewWSClient (rv_rets e)" "\<not> add_ret (rv_rets e) < 0" "conns s (rv_new_id e) = None"
      "rv_close_sync e \<longrightarrow> rv_socket_count e \<noteq> 0"
      "rv_socket_count e = 0 \<longrightarrow> dom (conns s) \<subseteq> {i}"
  shows "\<exists>s'. end_life cfg i e ctx buf s0 = Inr s' \<and> client_inv cfg s' \<and> retires i (rv_new_id e) s s'"
proof -
  have c: "conns s i = Some \<lparr>conn_ctx = ctx\<lparr>temp_buf := None\<rparr>, conn_wire = Closing\<rparr>" by (simp add: s)
  obtain s2 where s2: "(if rv_close_sync e then OnClose cfg i (rv_now_ns e) s else Inr s) = Inr s2"
      "base_inv cfg (heir_owes cfg ctx) s2" "end_inv cfg (heir_owes cfg ctx) s2"
      "conns s2 = conns s \<or> conns s2 = (conns s)(i := None)" "frames s2 = frames s" "\<not> rv_close_sync e \<Longrightarrow> s2 = s"
    using closing_call [OF ok base c _ run, of "rv_close_sync e" "rv_now_ns e"] by auto
  have new: "conns s2 (rv_new_id e) = None" using s2(4) lib(3) by auto
  have "phases s2 = (phases s)(i \<mapsto> Finished) \<or> phases s2 = (phases s)(i := None)"
    using s2(4) c by (auto simp: phases_def phase_of_def fun_eq_iff)
  then have retires: "retires i (rv_new_id e) s s'"
    if "frames s' = frames s2" "phases s' = phases s2 \<or> phases s' = (phases s2)(rv_new_id e \<mapsto> Unsent)" for s'
    using that s2(5) unfolding retires_def by auto
  note step = end_life_def Let_def s [symmetric] buf(3) s2(1)
  show ?thesis
  proof (cases "reborn_cnt ctx < cl_reborn_limit cfg")
    case True
    then have "heir_owes cfg ctx \<noteq> 0" using ok by (auto simp: heir_owes_def cfg_ok_def unat_eq_0 word_gt_0)
    then have going: "\<not> stopped s2" using s2(3) by (auto simp: end_inv_def)
    let ?new = "\<lparr>reborn_cnt = reborn_cnt ctx + 1, msg_cnt = 0, temp_buf = Some buf,
                start_write_tick = rv_stop_tick e\<rparr>"
    have "base_inv cfg 0 (put_conn (rv_new_id e) ?new Connecting s2)"
      by (rule adopt_base [OF ok s2(2) new True ctx(1)]) (simp_all add: holds_payload_def buf)
    moreover have "end_inv cfg 0 (put_conn (rv_new_id e) ?new Connecting s2)"
      by (rule end_put [OF s2(3) going put_conn_fields(1)]) simp_all
    moreover have "retires i (rv_new_id e) s (put_conn (rv_new_id e) ?new Connecting s2)"
      by (rule retires) (simp_all add: phases_def phase_of_def fun_eq_iff)
    ultimately show ?thesis using True lib(1,2) by (simp add: step client_inv_def)
  next
    case False
    then have zero: "heir_owes cfg ctx = 0" using ctx(2) by (simp add: heir_owes_def)
    show ?thesis
    proof (cases "rv_socket_count e = 0")
      case True
      with lib(4) s2(6) have "s2 = s" by blast
      moreover have "tally (owed cfg) (conns s) = 0"
        using True lib(5) c base by (auto simp: tally_zero_iff base_inv_def owed_def dom_def)
      moreover obtain s' where s': "EndClient cfg (rv_now_ns e) s = Inr s'" "client_inv cfg s'" "conns s' = conns s"
        using EndClient_inv [of cfg s "rv_now_ns e"] base zero run calculation(2) by auto
      moreover have "retires i (rv_new_id e) s s'"
        using retires [of s'] EndClient_frames [OF s'(1)] phases_cong [OF s'(3)] calculation(1) by simp
      ultimately show ?thesis using False True by (auto simp: step)
    next
      case False
      with \<open>\<not> reborn_cnt ctx < cl_reborn_limit cfg\<close> s2(2,3) zero retires [of s2] show ?thesis
        by (simp add: step client_inv_def)
    qed
  qed
qed

lemma read_last:
  assumes ok: "cfg_ok cfg" and inv: "client_inv cfg s" and lib: "client_ok cfg s (ConnRead i e)"
    and kind: "\<not> rv_is_control_msg e" "rv_is_msg_end e" and c: "conns s i = Some c"
    and limit: "msg_cnt (conn_ctx c) + 1 = cl_msg_limit cfg"
  shows "\<exists>s'. OnRead cfg i e s = Inr s' \<and> client_inv cfg s' \<and> retires i (rv_new_id e) s s'"
proof -
  have lib': "echo_part (conn_wire c) (temp_buf (conn_ctx c)) e" "\<not> stopped s" "NewWSClient (rv_rets e)"
      "\<not> add_ret (rv_rets e) < 0" "conns s (rv_new_id e) = None"
      "rv_close_sync e \<longrightarrow> rv_socket_count e \<noteq> 0" "rv_socket_count e = 0 \<longrightarrow> dom (conns s) \<subseteq> {i}"
    using lib kind c by (auto simp: client_ok_def split: option.splits)
  have base: "base_inv cfg 0 s" and end_i: "end_inv cfg 0 s" using inv by (auto simp: client_inv_def)
  then have cinv: "conn_inv cfg c" using c by (simp add: base_inv_def)
  obtain buf where read: "OnRead cfg i e s = after_echo cfg i e c buf s"
    and buf: "io_contents buf = payload cfg" "io_valid buf" "io_size buf = cl_max_data_len cfg"
      "cl_max_data_len cfg = pending c + length (rv_part e)"
    and w: "conn_wire c = Awaiting (payload cfg)" and lt: "msg_cnt (conn_ctx c) < cl_msg_limit cfg"
    and loop: "unat (loop_cnt s + 1) = unat (loop_cnt s) + 1"
    by (rule echo_completes [OF base c kind lib'(1)])
  let ?ctx = "completed e buf (conn_ctx c)"
  let ?s0 = "counted_echo cfg e (conn_ctx c) s"
  let ?s1 = "put_conn i (?ctx\<lparr>temp_buf := None\<rparr>) Closing ?s0"
  have ctx: "reborn_cnt ?ctx = reborn_cnt (conn_ctx c)" "msg_cnt ?ctx = cl_msg_limit cfg"
    using limit by (simp_all add: completed_def)
  have "base_inv cfg (heir_owes cfg ?ctx) ?s1"
    using retire_base [OF base c w lt limit buf(4) loop refl ctx(1)] ctx(1) by (simp add: heir_owes_def)
  then have "\<exists>s'. end_life cfg i e ?ctx buf ?s0 = Inr s' \<and> client_inv cfg s' \<and> retires i (rv_new_id e) ?s1 s'"
    by (rule end_life_inv [OF ok _ refl])
      (use end_i lib' buf ctx cinv c in \<open>auto simp: end_inv_def counted_echo_def conn_inv_def\<close>)
  moreover have "phases ?s1 = (phases s)(i \<mapsto> Finished)" "frames ?s1 = frames s"
    by (simp_all add: phases_def phase_of_def counted_echo_def fun_eq_iff)
  ultimately show ?thesis using read ctx(2) by (auto simp: after_echo_def retires_def)
qed

text \<open>What a step does to the phases of the connections, and what it sends.\<close>

fun client_moves :: "client_cfg \<Rightarrow> client_event \<Rightarrow> client \<Rightarrow> client \<Rightarrow> bool" where
  "client_moves cfg (ConnOpen i e) s s' \<longleftrightarrow> phases s i = Some Unsent
     \<and> phases s' = (phases s)(i \<mapsto> Waiting []) \<and> frames s' = frames s @ [(i, 2, payload cfg)]"
| "client_moves cfg (ConnRead i e) s s' \<longleftrightarrow>
     (if rv_is_control_msg e then s' = s
      else \<exists>q. phases s i = Some (Waiting q)
        \<and> (if rv_is_msg_end e
           then retires i (rv_new_id e) s s'
              \<or> phases s' = (phases s)(i \<mapsto> Waiting []) \<and> frames s' = frames s @ [(i, 2, payload cfg)]
           else phases s' = (phases s)(i \<mapsto> Waiting (q @ rv_part e)) \<and> frames s' = frames s))"
| "client_moves cfg (ConnClose i status_code now_ns) s s' \<longleftrightarrow>
     phases s' = (phases s)(i := None) \<and> frames s' = frames s"

lemma client_step_moves:
  assumes ok: "cfg_ok cfg" and inv: "client_inv cfg s" and lib: "client_ok cfg s ev"
  shows "\<exists>s'. client_step cfg ev s = Inr s' \<and> client_inv cfg s' \<and> client_moves cfg ev s s'"
proof (cases ev)
  case (ConnOpen i e)
  then have "phases s i = Some Unsent"
    using lib by (auto simp: client_ok_def phases_def phase_of_def split: option.splits)
  with open_preserves [OF ok inv, of i e] lib ConnOpen show ?thesis by fastforce
next
  case (ConnRead i e)
  then obtain c where c: "conns s i = Some c"
    using lib by (auto simp: client_ok_def split: option.splits)
  consider "rv_is_control_msg e" | "\<not> rv_is_control_msg e" "\<not> rv_is_msg_end e" | "\<not> rv_is_control_msg e" "rv_is_msg_end e"
    by blast
  then show ?thesis
  proof cases
    case 1
    then show ?thesis using read_control [OF _ inv, of e i] lib inv ConnRead by simp
  next
    case 2
    then show ?thesis using read_partial [OF ok inv, of i e] lib ConnRead by fastforce
  next
    case 3
    then have "echo_part (conn_wire c) (temp_buf (conn_ctx c)) e"
      using lib c ConnRead by (auto simp: client_ok_def)
    then obtain q where "phases s i = Some (Waiting q)"
      using c by (cases "conn_wire c") (auto simp: phases_def phase_of_def)
    with 3 read_next [OF ok inv, of i e c] read_last [OF ok inv, of i e c] c lib ConnRead show ?thesis
      by (cases "msg_cnt (conn_ctx c) + 1 = cl_msg_limit cfg") fastforce+
  qed
next
  case (ConnClose i status_code now_ns)
  then obtain c where c: "conns s i = Some c" "\<not> stopped s"
    using lib by (auto simp: client_ok_def)
  have "base_inv cfg 0 s" "out_fp s = OpenFile" "rows s = []"
    using inv c(2) by (auto simp: client_inv_def end_inv_def)
  then obtain s' where s': "OnClose cfg i now_ns (s\<lparr>lost := lost s + owed cfg c\<rparr>) = Inr s'" "client_inv cfg s'"
      "conns s' = (conns s)(i := None)"
    using OnClose_inv [OF ok _ _ _ c(2,1), of 0 now_ns] by (auto simp: client_inv_def)
  moreover have "phases s' = (phases s)(i := None)" using s'(3) by (simp add: phases_def fun_eq_iff)
  moreover have "frames s' = frames s"
    using s'(1) c by (auto simp: OnClose_def Let_def dest!: EndClient_frames split: if_splits)
  ultimately show ?thesis using ConnClose c by (simp add: lost_at_def)
qed

lemma client_step_safe:
  assumes "cfg_ok cfg" and "client_inv cfg s" and "client_ok cfg s ev"
  shows "\<exists>s'. client_step cfg ev s = Inr s' \<and> client_inv cfg s'"
  using client_step_moves [OF assms] by blast

interpretation client_machine: safe_machine "client_step cfg" "client_ok cfg" "\<lambda>s. cfg_ok cfg \<and> client_inv cfg s"
  for cfg
  by unfold_locales (use client_step_safe in blast)

section \<open>The start\<close>

definition start_ok :: "client_cfg \<Rightarrow> start_event \<Rightarrow> bool" where
  "start_ok cfg e \<longleftrightarrow>
     NewWSClient (st_rets e) \<and> \<not> add_ret (st_rets e) < 0 \<and> room_for cfg (st_fresh e)"

definition starts_ok :: "client_cfg \<Rightarrow> start_event list \<Rightarrow> bool" where
  "starts_ok cfg es \<longleftrightarrow> es \<noteq> [] \<and> distinct (map st_id es) \<and> list_all (start_ok cfg) es
   \<and> unat (cl_total cfg) = length es * (nat (cl_reborn_limit cfg) * unat (cl_msg_limit cfg))"

definition starting :: "client_cfg \<Rightarrow> nat \<Rightarrow> client \<Rightarrow> bool" where
  "starting cfg n s \<longleftrightarrow>
     (\<exists>cs h. s = new_client\<lparr>conns := cs, data_hash := h\<rparr> \<and> finite (dom cs) \<and> card (dom cs) = n
        \<and> (0 < n \<longrightarrow> h = HashArr (cl_rotr cfg) (payload cfg))
        \<and> (\<forall>i c. cs i = Some c \<longrightarrow> conn_inv cfg c \<and> conn_wire c = Connecting \<and> reborn_cnt (conn_ctx c) = 1))"

lemma start_client_starting:
  assumes ok: "cfg_ok cfg" and st: "starting cfg n s" and e: "start_ok cfg e" "conns s (st_id e) = None"
  obtains s' where "start_client cfg e s = Inr s'" "starting cfg (Suc n) s'"
    "dom (conns s') = insert (st_id e) (dom (conns s))"
proof -
  from st obtain cs h where s: "s = new_client\<lparr>conns := cs, data_hash := h\<rparr>"
    and cs: "finite (dom cs)" "card (dom cs) = n"
      "\<And>i c. cs i = Some c \<Longrightarrow> conn_inv cfg c \<and> conn_wire c = Connecting \<and> reborn_cnt (conn_ctx c) = 1"
    unfolding starting_def by blast
  let ?data = "io_data (st_fresh e)"
  have len: "cl_reserve cfg + length (payload cfg) \<le> length ?data"
    using e(1) by (simp add: start_ok_def room_for_def fresh_for_def)
  obtain bytes where bytes: "mem_write ?data (cl_reserve cfg) (payload cfg) = Inr bytes"
    using mem_write_ok [OF len] by blast
  let ?buf = "(st_fresh e)\<lparr>io_data := bytes, io_start_pos := cl_reserve cfg, io_size := cl_max_data_len cfg\<rparr>"
  let ?c = "\<lparr>conn_ctx = \<lparr>reborn_cnt = 1, msg_cnt = 0, temp_buf = Some ?buf, start_write_tick = 0\<rparr>,
             conn_wire = Connecting\<rparr>"
  have buf: "io_contents ?buf = payload cfg" "io_valid ?buf"
    using slice_mem_write_append [OF bytes order_refl] mem_write_length [OF bytes] len
    by (simp_all add: io_contents_def io_valid_def)
  have cinv: "conn_inv cfg ?c" using buf ok by (simp add: conn_inv_def holds_payload_def cfg_ok_def)
  have none: "cs (st_id e) = None" using e(2) s by simp
  let ?s' = "new_client\<lparr>conns := cs(st_id e \<mapsto> ?c), data_hash := HashArr (cl_rotr cfg) (payload cfg)\<rparr>"
  have "starting cfg (Suc n) ?s'"
    using cs none cinv unfolding starting_def
    by (intro exI [of _ "cs(st_id e \<mapsto> ?c)"] exI [of _ "HashArr (cl_rotr cfg) (payload cfg)"])
      (auto simp: domIff split: if_split_asm)
  moreover have "start_client cfg e s = Inr ?s'"
    using e(1) bytes buf(1) by (simp add: start_client_def start_ok_def Let_def put_conn_def s)
  ultimately show thesis by (intro that [of ?s']) (simp_all add: s)
qed

lemma start_clients_starting:
  assumes ok: "cfg_ok cfg"
  shows "starting cfg n s \<Longrightarrow> list_all (start_ok cfg) es \<Longrightarrow> distinct (map st_id es) \<Longrightarrow>
    dom (conns s) \<inter> set (map st_id es) = {} \<Longrightarrow>
    \<exists>s'. start_clients cfg es s = Inr (s'\<lparr>out_fp := OpenFile\<rparr>) \<and> starting cfg (n + length es) s'"
proof (induction es arbitrary: s n)
  case Nil
  then show ?case by auto
next
  case (Cons e es)
  obtain s1 where s1: "start_client cfg e s = Inr s1" "starting cfg (Suc n) s1"
      "dom (conns s1) = insert (st_id e) (dom (conns s))"
    by (rule start_client_starting [OF ok Cons.prems(1), of e]) (use Cons.prems in auto)
  with Cons.IH [OF s1(2)] Cons.prems show ?case by auto
qed

lemma tally_const: "(\<And>i c. m i = Some c \<Longrightarrow> g c = n) \<Longrightarrow> tally g m = card (dom m) * n"
  by (auto simp: tally_def dom_def intro!: sum_bounded_above [THEN antisym] sum_bounded_below)

lemma client_starts:
  assumes ok: "cfg_ok cfg" and es: "starts_ok cfg es"
  obtains s where "start_clients cfg es new_client = Inr s" "client_inv cfg s" "lost s = 0" "\<not> stopped s"
    "\<And>i c. conns s i = Some c \<Longrightarrow> conn_wire c = Connecting" "card (dom (conns s)) = length es"
    "loop_cnt s = 0" "frames s = []"
proof -
  have "starting cfg 0 new_client"
    unfolding starting_def
    by (rule exI [of _ Map.empty], rule exI [of _ 0]) (simp add: new_client_def)
  from start_clients_starting [OF ok this, of es] es obtain s' where
      run: "start_clients cfg es new_client = Inr (s'\<lparr>out_fp := OpenFile\<rparr>)" and "starting cfg (length es) s'"
    by (auto simp: starts_ok_def new_client_def)
  then obtain cs where s': "s' = new_client\<lparr>conns := cs, data_hash := HashArr (cl_rotr cfg) (payload cfg)\<rparr>"
    and cs: "finite (dom cs)" "card (dom cs) = length es"
      "\<And>i c. cs i = Some c \<Longrightarrow> conn_inv cfg c \<and> conn_wire c = Connecting \<and> reborn_cnt (conn_ctx c) = 1"
    using es unfolding starting_def starts_ok_def by auto
  have R: "nat (cl_reborn_limit cfg) = nat (cl_reborn_limit cfg - 1) + 1" using ok unfolding cfg_ok_def by linarith
  have "owed cfg c = nat (cl_reborn_limit cfg) * unat (cl_msg_limit cfg) \<and> pending c = 0 \<and> in_flight c = 0"
    if "cs i = Some c" for i c
    using cs(3) [OF that] R by (auto simp: owed_def pending_def in_flight_def conn_inv_def)
  then have t: "tally (owed cfg) cs = length es * (nat (cl_reborn_limit cfg) * unat (cl_msg_limit cfg))"
      "tally pending cs = 0" "tally in_flight cs = 0"
    using cs(2) tally_const [of cs] by (metis mult_0_right)+
  have "cs \<noteq> Map.empty" using cs(1,2) es by (auto simp: starts_ok_def)
  then have "client_inv cfg (s'\<lparr>out_fp := OpenFile\<rparr>)"
    using t cs es by (simp add: client_inv_def base_inv_def inv_parts s' new_client_def starts_ok_def)
  with run cs show thesis by (intro that [of "s'\<lparr>out_fp := OpenFile\<rparr>"]) (simp_all add: s' new_client_def)
qed

section \<open>Counting echoes\<close>

fun is_echo :: "client_event \<Rightarrow> bool" where
  "is_echo (ConnRead i e) \<longleftrightarrow> \<not> rv_is_control_msg e \<and> rv_is_msg_end e"
| "is_echo _ \<longleftrightarrow> False"

lemma EndClient_loop_cnt: "EndClient cfg now s = Inr s' \<Longrightarrow> loop_cnt s' = loop_cnt s"
  by (auto simp: EndClient_def Let_def split: stream.splits)

lemma OnClose_loop_cnt: "OnClose cfg i now s = Inr s' \<Longrightarrow> loop_cnt s' = loop_cnt s"
  by (auto simp: OnClose_def Let_def dest: EndClient_loop_cnt split: option.splits if_splits)

lemma send_frame_loop_cnt: "send_frame cfg i ret buf ctx fresh s = Inr s' \<Longrightarrow> loop_cnt s' = loop_cnt s"
  by (auto simp: send_frame_def bindE_eq_Inr)

lemma record_progress_loop_cnt: "record_progress cfg e ns buf s = Inr s' \<Longrightarrow> loop_cnt s' = loop_cnt s"
  by (auto simp: record_progress_def bindE_eq_Inr Let_def split: if_splits)

lemma end_life_loop_cnt:
  assumes "end_life cfg i e ctx buf s = Inr s'"
  shows "loop_cnt s' = loop_cnt s"
proof -
  from assms obtain s1 where
    "(if rv_close_sync e then OnClose cfg i (rv_now_ns e) (put_conn i (ctx\<lparr>temp_buf := None\<rparr>) Closing s)
      else Inr (put_conn i (ctx\<lparr>temp_buf := None\<rparr>) Closing s)) = Inr s1" "loop_cnt s' = loop_cnt s1"
    by (auto simp: end_life_def bindE_eq_Inr Let_def dest: EndClient_loop_cnt split: if_splits)
  then show ?thesis by (auto dest: OnClose_loop_cnt split: if_splits)
qed

lemma OnRead_loop_cnt:
  assumes "OnRead cfg i e s = Inr s'"
  shows "loop_cnt s' = loop_cnt s + (if is_echo (ConnRead i e) then 1 else 0)"
  using assms
  by (auto simp: OnRead_def bindE_eq_Inr Let_def split: option.splits if_splits
      dest!: EndClient_loop_cnt end_life_loop_cnt send_frame_loop_cnt record_progress_loop_cnt)

lemma OnOpen_loop_cnt: "OnOpen cfg i e s = Inr s' \<Longrightarrow> loop_cnt s' = loop_cnt s"
  by (auto simp: OnOpen_def WriteFirstMsg_def bindE_eq_Inr Let_def split: option.splits if_splits
      dest!: send_frame_loop_cnt)

lemma step_loop_cnt:
  "client_step cfg ev s = Inr s' \<Longrightarrow> loop_cnt s' = loop_cnt s + (if is_echo ev then 1 else 0)"
  by (cases ev) (auto dest: OnOpen_loop_cnt OnRead_loop_cnt OnClose_loop_cnt)

lemma step_echo_exact:
  assumes ok: "cfg_ok cfg" and inv: "client_inv cfg s" and lib: "client_ok cfg s ev"
    and step: "client_step cfg ev s = Inr s'"
  shows "unat (loop_cnt s') = unat (loop_cnt s) + (if is_echo ev then 1 else 0)"
proof (cases "is_echo ev")
  case True
  then obtain i e c where c: "conns s i = Some c" "echo_part (conn_wire c) (temp_buf (conn_ctx c)) e"
    using lib by (cases ev) (auto simp: client_ok_def split: option.splits)
  have base: "base_inv cfg 0 s" using inv by (simp add: client_inv_def)
  have "conn_wire c \<noteq> Closing" using c(2) by auto
  then have "0 < owed cfg c" using owed_pos [OF ok] base c(1) by (simp add: base_inv_def)
  with loop_cnt_bump [OF base c(1)] step_loop_cnt [OF step] True show ?thesis by simp
qed (use step_loop_cnt [OF step] in simp)

lemma run_echoes_exact:
  assumes "cfg_ok cfg"
  shows "client_inv cfg s \<Longrightarrow> admissible (client_step cfg) (client_ok cfg) s es \<Longrightarrow>
    run (client_step cfg) es s = Inr s' \<Longrightarrow>
    unat (loop_cnt s') = unat (loop_cnt s) + length (filter is_echo es)"
proof (induction es arbitrary: s)
  case Nil
  then show ?case by simp
next
  case (Cons e es)
  then obtain s1 where s1: "client_step cfg e s = Inr s1" "client_inv cfg s1"
    using client_step_safe [OF assms] by fastforce
  with Cons step_echo_exact [OF assms Cons.prems(1) _ s1(1)] show ?case by simp
qed

lemma finished_measures:
  assumes ok: "cfg_ok cfg" and base: "base_inv cfg k s" and zero: "tally (owed cfg) (conns s) = 0"
  shows "conns s i = Some c \<Longrightarrow> conn_wire c = Closing"
    and "tally pending (conns s) = 0" and "tally in_flight (conns s) = 0"
proof -
  have fin: "finite (dom (conns s))" using base by (simp add: base_inv_def)
  have closing: "conn_wire c = Closing" if "conns s i = Some c" for i c
    using zero that owed_pos [OF ok, of c] base
    by (force simp: tally_zero_iff [OF fin] base_inv_def)
  then show "conns s i = Some c \<Longrightarrow> conn_wire c = Closing" .
  show "tally pending (conns s) = 0" and "tally in_flight (conns s) = 0"
    using closing closing_measures by (auto simp: tally_zero_iff [OF fin])
qed

lemma client_run:
  assumes "cfg_ok cfg" and "starts_ok cfg ss" and "start_clients cfg ss new_client = Inr s0"
    and "admissible (client_step cfg) (client_ok cfg) s0 es"
  obtains s where "run (client_step cfg) es s0 = Inr s" "client_inv cfg s"
    "unat (loop_cnt s) = length (filter is_echo es)"
proof -
  obtain s1 where "start_clients cfg ss new_client = Inr s1" "client_inv cfg s1"
    by (rule client_starts [OF assms(1,2)])
  then have inv: "client_inv cfg s0" using assms(3) by simp
  have "loop_cnt s' = loop_cnt s" if "start_clients cfg ss s = Inr s'" for s s'
    using that by (induction ss arbitrary: s) (auto simp: start_client_def bindE_eq_Inr Let_def)
  then have "loop_cnt s0 = 0" using assms(3) by (simp add: new_client_def)
  moreover obtain s where "run (client_step cfg) es s0 = Inr s" "client_inv cfg s"
    using client_machine.run_safe [of cfg s0 es] inv assms(1,4) by blast
  ultimately show thesis
    using that run_echoes_exact [OF assms(1) inv assms(4)] by simp
qed

lemma client_complete:
  assumes "cfg_ok cfg" and "starts_ok cfg ss" and "start_clients cfg ss new_client = Inr s0"
    and "admissible (client_step cfg) (client_ok cfg) s0 es" and "run (client_step cfg) es s0 = Inr s"
    and "stopped s" and "lost s = 0"
  shows "loop_cnt s = cl_total cfg \<and> length (rtt_hist s) = unat (cl_total cfg)
     \<and> recv_bytes_sum s = of_nat (cl_max_data_len cfg) * cl_total cfg
     \<and> send_bytes_sum s = of_nat (cl_max_data_len cfg) * cl_total cfg
     \<and> (\<forall>i c. conns s i = Some c \<longrightarrow> conn_wire c = Closing)
     \<and> (\<exists>now_ns. rows s = [summary_row cfg now_ns s]) \<and> out_fp s = ClosedFile"
proof -
  have "client_inv cfg s" using client_run [OF assms(1-4)] assms(5) by (metis sum.inject(2))
  then have base: "base_inv cfg 0 s" and end_i: "end_inv cfg 0 s" by (auto simp: client_inv_def)
  with assms(6) have zero: "tally (owed cfg) (conns s) = 0" by (simp add: end_inv_def)
  note fin = finished_measures [OF assms(1) base zero]
  from base zero assms(7) have "unat (loop_cnt s) = unat (cl_total cfg)"
    by (simp add: base_inv_def counts_inv_def)
  then have "loop_cnt s = cl_total cfg" by (simp add: word_unat_eq_iff)
  with base end_i assms(6,7) fin show ?thesis
    by (simp add: base_inv_def counts_inv_def bytes_inv_def end_inv_def)
qed

lemma hash_from_append: "hash_from rotr h (xs @ ys) = hash_from rotr (hash_from rotr h xs) ys"
  by (induction xs arbitrary: h) simp_all

lemma xor_cancel:
  fixes a b :: u64
  shows "(a XOR b) XOR b = a" and "a XOR (a XOR b) = b"
  by (simp_all only: xor.assoc xor_self_eq xor.right_neutral)
    (simp only: xor.assoc [symmetric] xor_self_eq xor.left_neutral)

text \<open>Each step of the hash is a permutation of the state and of the byte.\<close>

lemma hash_from_inj:
  assumes rotr: "\<And>v w. rotr v 5 = rotr w 5 \<Longrightarrow> v = w"
  shows "hash_from rotr h xs = hash_from rotr k xs \<Longrightarrow> h = k"
proof (induction xs arbitrary: h k)
  case (Cons x xs)
  then have "rotr (h XOR ucast x) 5 = rotr (k XOR ucast x) 5" by simp
  then have "h XOR ucast x = k XOR ucast x" by (rule rotr)
  then have "(h XOR ucast x) XOR ucast x = (k XOR ucast x) XOR ucast x" by (rule arg_cong)
  then show ?case by (simp only: xor_cancel)
qed simp

lemma hash_one_byte:
  assumes rotr: "\<And>v w. rotr v 5 = rotr w 5 \<Longrightarrow> v = w" and "b \<noteq> (c :: u8)"
  shows "hash_from rotr h (xs @ b # ys) \<noteq> hash_from rotr h (xs @ c # ys)"
proof
  let ?h = "hash_from rotr h xs"
  assume "hash_from rotr h (xs @ b # ys) = hash_from rotr h (xs @ c # ys)"
  then have "hash_from rotr (rotr (?h XOR ucast b) 5) ys = hash_from rotr (rotr (?h XOR ucast c) 5) ys"
    by (simp only: hash_from_append hash_from.simps)
  then have "rotr (?h XOR ucast b) 5 = rotr (?h XOR ucast c) 5"
    by (rule hash_from_inj [where rotr = rotr, rotated]) (rule rotr)
  then have "?h XOR ucast b = ?h XOR ucast c" by (rule rotr)
  then have "?h XOR (?h XOR ucast b) = ?h XOR (?h XOR ucast c)" by (rule arg_cong)
  then have "(ucast b :: u64) = ucast c" by (simp only: xor_cancel)
  then have "(ucast (ucast b :: u64) :: u8) = ucast (ucast c :: u64)" by (rule arg_cong)
  then have "b = c" by (simp add: ucast_up_ucast_id is_up)
  with assms(2) show False by simp
qed

section \<open>Properties\<close>

definition sample_client_cfg :: "nat \<Rightarrow> u64 \<Rightarrow> u64 \<Rightarrow> int \<Rightarrow> client_cfg" where
  "sample_client_cfg len msgs limit reborn =
     \<lparr>cl_max_data_len = len, cl_total = msgs, cl_msg_limit = limit, cl_reborn_limit = reborn,
      cl_reserve = 2, cl_pong = 10, cl_rotr = (\<lambda>w n. word_rotr n w), cl_ns_per_tick = 1 / 2,
      cl_quantile = (\<lambda>h q. Fin 0), cl_rand = int\<rparr>"

definition blank :: "nat \<Rightarrow> iobuf" where
  "blank n = \<lparr>io_data = replicate n 0, io_start_pos = 0, io_size = 0\<rparr>"

definition good_rets :: socket_rets where
  "good_rets = \<lparr>init_ret = 0, con_ret = -1, con_in_progress = True, add_ret = 0\<rparr>"

definition sample_start :: "nat \<Rightarrow> start_event" where
  "sample_start i = \<lparr>st_rets = good_rets, st_id = i, st_fresh = blank 5\<rparr>"

definition sample_open :: open_event where
  "sample_open = \<lparr>op_now_ns = 1000, op_start_tick = 7, op_write_ret = 3, op_fresh = blank 5\<rparr>"

definition sample_recv :: "u8 list \<Rightarrow> bool \<Rightarrow> nat \<Rightarrow> recv_event" where
  "sample_recv part is_end new_id =
     \<lparr>rv_opcode = 2, rv_part = part, rv_is_frame_end = True, rv_is_msg_end = is_end,
      rv_is_control_msg = False, rv_stop_tick = 17, rv_start_tick = 18, rv_now_ns = 2000,
      rv_close_sync = False, rv_socket_count = 1, rv_rets = good_rets, rv_new_id = new_id,
      rv_write_ret = 3, rv_fresh = blank 5\<rparr>"

text \<open>Two lives of two messages each, the first echo in two parts.\<close>

definition sample_lives :: "client_event list" where
  "sample_lives =
     [ConnOpen 1 sample_open, ConnRead 1 (sample_recv [48] False 9),
      ConnRead 1 (sample_recv [49, 50] True 9), ConnRead 1 (sample_recv [48, 49, 50] True 2),
      ConnClose 1 1000 2100, ConnOpen 2 sample_open, ConnRead 2 (sample_recv [48, 49, 50] True 9),
      ConnRead 2 (sample_recv [48, 49, 50] True 9)]"

text \<open>Two connections that finish one after the other before either is closed.\<close>

definition sample_pair :: "client_event list" where
  "sample_pair =
     [ConnOpen 1 sample_open, ConnOpen 2 sample_open, ConnRead 1 (sample_recv [48, 49, 50] True 9),
      ConnRead 2 (sample_recv [48, 49, 50] True 9), ConnClose 1 1000 2100]"

definition lives_cfg :: client_cfg where
  "lives_cfg = sample_client_cfg 3 4 2 2"

definition pair_cfg :: client_cfg where
  "pair_cfg = sample_client_cfg 3 2 1 1"

lemma sample_cfgs_ok: "cfg_ok lives_cfg" "cfg_ok pair_cfg"
  by (simp_all add: lives_cfg_def pair_cfg_def sample_client_cfg_def cfg_ok_def)

lemma sample_starts_ok:
  "starts_ok lives_cfg [sample_start 1]" "starts_ok pair_cfg [sample_start 1, sample_start 2]"
  by (simp_all add: lives_cfg_def pair_cfg_def sample_client_cfg_def starts_ok_def start_ok_def
      sample_start_def good_rets_def NewWSClient_def room_for_def fresh_for_def blank_def)

definition start_of :: "client_cfg \<Rightarrow> start_event list \<Rightarrow> client" where
  "start_of cfg ss = (case start_clients cfg ss new_client of Inl e \<Rightarrow> new_client | Inr s \<Rightarrow> s)"

lemma start_of:
  "cfg_ok cfg \<Longrightarrow> starts_ok cfg ss \<Longrightarrow> start_clients cfg ss new_client = Inr (start_of cfg ss)"
  by (rule client_starts [of cfg ss]) (simp_all add: start_of_def)

text \<open>In the samples the loop always counts the connection whose callback runs.\<close>

fun counted :: "client_event \<Rightarrow> bool" where
  "counted (ConnRead i e) \<longleftrightarrow> rv_socket_count e \<noteq> 0"
| "counted _ \<longleftrightarrow> True"

lemma counted_admissible:
  assumes "list_all counted es" and "admissible (client_step cfg) (library_ok cfg) s es"
  shows "admissible (client_step cfg) (client_ok cfg) s es"
proof (rule admissible_mono)
  show "admissible (client_step cfg) (\<lambda>s e. counted e \<and> library_ok cfg s e) s es"
    using assms by (intro admissible_conj) (auto simp: list_all_iff)
next
  fix s :: client and e assume "counted e \<and> library_ok cfg s e"
  then show "client_ok cfg s e" by (cases e) (auto simp: client_ok_def)
qed

lemma sample_lives_admissible:
  "admissible (client_step lives_cfg) (client_ok lives_cfg) (start_of lives_cfg [sample_start 1]) sample_lives"
  by (rule counted_admissible) code_simp+

lemma sample_pair_admissible:
  "admissible (client_step pair_cfg) (client_ok pair_cfg)
     (start_of pair_cfg [sample_start 1, sample_start 2]) sample_pair"
  by (rule counted_admissible) code_simp+




text \<open>
  C11. When the client has ended without having lost a connection, the benchmark is
  complete: \<^verbatim>\<open>TOTAL_MSG_CNT\<close> messages were counted and timed, each byte of the payload was
  sent and received that many times, no connection has anything under way, and one row with
  these sums is in the data file.
\<close>

theorem fws_client_completes:
  assumes "cfg_ok cfg" and "starts_ok cfg ss" and "start_clients cfg ss new_client = Inr s0"
    and "admissible (client_step cfg) (client_ok cfg) s0 es" and "run (client_step cfg) es s0 = Inr s"
    and "stopped s" and "lost s = 0"
  shows "loop_cnt s = cl_total cfg \<and> length (rtt_hist s) = unat (cl_total cfg)
     \<and> recv_bytes_sum s = of_nat (cl_max_data_len cfg) * cl_total cfg
     \<and> send_bytes_sum s = of_nat (cl_max_data_len cfg) * cl_total cfg
     \<and> (\<forall>i c. conns s i = Some c \<longrightarrow> conn_wire c = Closing)
     \<and> (\<exists>now_ns. rows s = [summary_row cfg now_ns s]) \<and> out_fp s = ClosedFile"
  by (rule client_complete [OF assms])

lemma sample_lives_ends:
  "case run (client_step lives_cfg) (sample_lives @ [ConnClose 2 1000 2500]) (start_of lives_cfg [sample_start 1])
   of Inl _ \<Rightarrow> False | Inr s \<Rightarrow> stopped s \<and> lost s = 0"
  by code_simp

lemma sample_lives_ends_admissible:
  "admissible (client_step lives_cfg) (client_ok lives_cfg) (start_of lives_cfg [sample_start 1])
     (sample_lives @ [ConnClose 2 1000 2500])"
  by (rule counted_admissible) code_simp+

theorem fws_client_completes_witness:
  "\<exists>s. run (client_step lives_cfg) (sample_lives @ [ConnClose 2 1000 2500]) (start_of lives_cfg [sample_start 1])
        = Inr s \<and> loop_cnt s = 4 \<and> recv_bytes_sum s = 12 \<and> send_bytes_sum s = 12 \<and> length (rows s) = 1"
proof -
  obtain s where s: "run (client_step lives_cfg) (sample_lives @ [ConnClose 2 1000 2500])
      (start_of lives_cfg [sample_start 1]) = Inr s" "stopped s" "lost s = 0"
    using sample_lives_ends by (auto split: sum.splits)
  from fws_client_completes [OF sample_cfgs_ok(1) sample_starts_ok(1)
      start_of [OF sample_cfgs_ok(1) sample_starts_ok(1)] sample_lives_ends_admissible s] s(1)
  show ?thesis by (auto simp: lives_cfg_def sample_client_cfg_def)
qed

text \<open>
  The client does end: once as many echoes have come back as the benchmark has
  messages, either it has stopped, or every connection left is one the client has closed,
  there is one, and whichever of them reports its end next stops the loop and writes the
  row.
\<close>

theorem fws_client_ends:
  assumes "cfg_ok cfg" and "starts_ok cfg ss" and "start_clients cfg ss new_client = Inr s0"
    and "admissible (client_step cfg) (client_ok cfg) s0 es" and "run (client_step cfg) es s0 = Inr s"
    and "length (filter is_echo es) = unat (cl_total cfg)" and "\<not> stopped s"
  shows "conns s \<noteq> Map.empty
     \<and> (\<forall>i c status_code now_ns. conns s i = Some c \<longrightarrow> conn_wire c = Closing
          \<and> (\<exists>s'. client_step cfg (ConnClose i status_code now_ns) s = Inr s' \<and> stopped s' \<and> length (rows s') = 1))"
proof -
  have inv: "client_inv cfg s" "unat (loop_cnt s) = unat (cl_total cfg)"
    using client_run [OF assms(1-4)] assms(5,6) by (metis sum.inject(2))+
  then have base: "base_inv cfg 0 s" and end_i: "end_inv cfg 0 s" by (auto simp: client_inv_def)
  have all: "cl_total cfg \<le> loop_cnt s" using inv(2) by (simp add: word_le_nat_alt)
  have zero: "tally (owed cfg) (conns s) = 0" "lost s = 0"
    using owed_sum_zero [OF _ all] base by (auto simp: base_inv_def)
  note fin = finished_measures [OF assms(1) base zero(1)]
  have "\<exists>s'. client_step cfg (ConnClose i status_code now_ns) s = Inr s' \<and> stopped s' \<and> length (rows s') = 1"
    if c: "conns s i = Some c" for i c status_code now_ns
  proof -
    have same: "s\<lparr>lost := lost s + owed cfg c\<rparr> = s" using closing_measures [OF fin(1) [OF c]] by simp
    have fp: "out_fp s = OpenFile" "rows s = []" using end_i assms(7) by (auto simp: end_inv_def)
    obtain s' where s': "OnClose cfg i now_ns s = Inr s'" "end_inv cfg 0 s'" "stopped s'"
      by (rule OnClose_inv [OF assms(1) base fp assms(7) c, of now_ns]) (simp add: same all)
    then have "length (rows s') = 1" by (auto simp: end_inv_def)
    then show ?thesis using s' c same by (simp add: lost_at_def)
  qed
  then show ?thesis using fin(1) end_i zero assms(7) by (auto simp: end_inv_def)
qed

theorem fws_client_ends_witness:
  "\<exists>s. run (client_step lives_cfg) sample_lives (start_of lives_cfg [sample_start 1]) = Inr s
     \<and> conns s \<noteq> Map.empty"
proof -
  have "case run (client_step lives_cfg) sample_lives (start_of lives_cfg [sample_start 1])
        of Inl _ \<Rightarrow> False | Inr s \<Rightarrow> \<not> stopped s"
    by code_simp
  then obtain s where s: "run (client_step lives_cfg) sample_lives (start_of lives_cfg [sample_start 1]) = Inr s"
      "\<not> stopped s"
    by (auto split: sum.splits)
  have "length (filter is_echo sample_lives) = unat (cl_total lives_cfg)"
    by (simp add: sample_lives_def sample_recv_def lives_cfg_def sample_client_cfg_def)
  from fws_client_ends [OF sample_cfgs_ok(1) sample_starts_ok(1) start_of [OF sample_cfgs_ok(1) sample_starts_ok(1)]
      sample_lives_admissible s(1) this s(2)] s(1)
  show ?thesis by blast
qed


text \<open>
  In the row of a complete benchmark the goodput is the exact one, the bits of all
  messages in both directions over \<open>10\<^sup>6\<close> over the seconds since the first write, up to a
  relative error of \<open>2\<^sup>-\<^sup>5\<^sup>0\<close>, provided the bits do not wrap and the clock has advanced.
\<close>

theorem fws_client_goodput_accurate:
  assumes "cfg_ok cfg" and "starts_ok cfg ss" and "start_clients cfg ss new_client = Inr s0"
    and "admissible (client_step cfg) (client_ok cfg) s0 es" and "run (client_step cfg) es s0 = Inr s"
    and "stopped s" and "lost s = 0"
    and "16 * cl_max_data_len cfg * unat (cl_total cfg) < 2 ^ 64"
  shows "\<exists>now_ns. rows s = [summary_row cfg now_ns s]
     \<and> (now_ns \<noteq> cl_start_ns s \<longrightarrow> (\<exists>v. sum_goodput_mbps (summary_row cfg now_ns s) = Fin v
          \<and> approx (1 / 2 ^ 50)
               (of_nat (16 * cl_max_data_len cfg * unat (cl_total cfg)) / 10 ^ 6
                  / (of_int (now_ns - cl_start_ns s) / 10 ^ 9)) v))"
proof -
  let ?n = "16 * cl_max_data_len cfg * unat (cl_total cfg)"
  note fin = client_complete [OF assms(1-7)]
  then obtain now_ns where row: "rows s = [summary_row cfg now_ns s]" by blast
  have "(recv_bytes_sum s + send_bytes_sum s) * 8 = of_nat ?n"
    using fin by (simp add: algebra_simps)
  then have "uint ((recv_bytes_sum s + send_bytes_sum s) * 8) = int ?n"
    by (simp only: uint_nat unat_of_nat_small [OF assms(8)])
  then have amount: "double_of_u64 ((recv_bytes_sum s + send_bytes_sum s) * 8) = double_of_int (int ?n)"
    by (simp add: double_of_u64_def)
  have "\<exists>v. sum_goodput_mbps (summary_row cfg now_ns s) = Fin v
      \<and> approx (1 / 2 ^ 50) (of_int (int ?n) / 10 ^ 6 / (of_int (now_ns - cl_start_ns s) / 10 ^ 9)) v"
    if "now_ns \<noteq> cl_start_ns s"
    using rate_approx [of "now_ns - cl_start_ns s" "int ?n"] that amount
    by (auto simp: summary_row_def unit_roundoff_def)
  with row show ?thesis by auto
qed

theorem fws_client_goodput_accurate_witness:
  "\<exists>s now_ns. run (client_step lives_cfg) (sample_lives @ [ConnClose 2 1000 2500]) (start_of lives_cfg [sample_start 1])
        = Inr s \<and> rows s = [summary_row lives_cfg now_ns s]"
proof -
  obtain s where s: "run (client_step lives_cfg) (sample_lives @ [ConnClose 2 1000 2500])
      (start_of lives_cfg [sample_start 1]) = Inr s" "stopped s" "lost s = 0"
    using sample_lives_ends by (auto split: sum.splits)
  have "16 * cl_max_data_len lives_cfg * unat (cl_total lives_cfg) < 2 ^ 64"
    by (simp add: lives_cfg_def sample_client_cfg_def)
  from fws_client_goodput_accurate [OF sample_cfgs_ok(1) sample_starts_ok(1)
      start_of [OF sample_cfgs_ok(1) sample_starts_ok(1)] sample_lives_ends_admissible s this] s(1)
  show ?thesis by blast
qed

text \<open>
  C29. A connection that the peer closes is not replaced, and \<^verbatim>\<open>OnClose\<close> ends the client only
  when all messages were counted: when the last connection is closed by the peer, no
  connection is left, the loop has not been told to stop, no row was written, and no
  further callback can happen.
\<close>

theorem fws_client_hangs_on_peer_close:
  assumes "cfg_ok cfg" and "starts_ok cfg ss" and "start_clients cfg ss new_client = Inr s0"
    and "admissible (client_step cfg) (client_ok cfg) s0 es" and "run (client_step cfg) es s0 = Inr s"
    and "conns s = [i \<mapsto> c]" and "conn_wire c \<noteq> Closing" and "\<not> stopped s"
  shows "\<exists>s'. client_step cfg (ConnClose i status_code now_ns) s = Inr s' \<and> conns s' = Map.empty
     \<and> \<not> stopped s' \<and> rows s' = [] \<and> loop_cnt s' < cl_total cfg \<and> (\<forall>ev. \<not> client_ok cfg s' ev)"
proof -
  have "client_inv cfg s" using client_run [OF assms(1-4)] assms(5) by (metis sum.inject(2))
  then have base: "base_inv cfg 0 s" and end_i: "end_inv cfg 0 s" by (auto simp: client_inv_def)
  have fp: "out_fp s = OpenFile" "rows s = []" using end_i assms(8) by (auto simp: end_inv_def)
  have c: "conns s i = Some c" by (simp add: assms(6))
  note live = live_not_total [OF assms(1) base c assms(7)]
  obtain s' where s': "OnClose cfg i now_ns (s\<lparr>lost := lost s + owed cfg c\<rparr>) = Inr s'"
      "end_inv cfg 0 s'" "conns s' = (conns s)(i := None)" "loop_cnt s' = loop_cnt s" "\<not> stopped s'"
    by (rule OnClose_inv [OF assms(1) base fp assms(8) c, of now_ns]) (use live in auto)
  then have empty: "conns s' = Map.empty" "rows s' = []" using assms(6) by (auto simp: end_inv_def)
  have "\<not> client_ok cfg s' ev" for ev using empty(1) by (cases ev) (auto simp: client_ok_def)
  with s' empty c live show ?thesis by (auto simp: lost_at_def)
qed

theorem fws_client_hangs_on_peer_close_witness:
  "\<exists>s s'. run (client_step lives_cfg) [ConnOpen 1 sample_open] (start_of lives_cfg [sample_start 1]) = Inr s
     \<and> client_step lives_cfg (ConnClose 1 1006 1500) s = Inr s' \<and> conns s' = Map.empty \<and> \<not> stopped s'"
proof -
  have adm: "admissible (client_step lives_cfg) (client_ok lives_cfg) (start_of lives_cfg [sample_start 1])
      [ConnOpen 1 sample_open]"
    by (rule counted_admissible) code_simp+
  obtain s c where s: "run (client_step lives_cfg) [ConnOpen 1 sample_open] (start_of lives_cfg [sample_start 1]) = Inr s"
      "conns s = [1 \<mapsto> c]" "conn_wire c \<noteq> Closing" "\<not> stopped s"
    by (simp add: start_of_def start_client_def sample_start_def good_rets_def NewWSClient_def blank_def
        mem_write_def OnOpen_def WriteFirstMsg_def use_buffer_def send_frame_def sample_open_def
        lives_cfg_def sample_client_cfg_def put_conn_def new_client_def payload_def Let_def upt_rec)
  from fws_client_hangs_on_peer_close [OF sample_cfgs_ok(1) sample_starts_ok(1)
      start_of [OF sample_cfgs_ok(1) sample_starts_ok(1)] adm s] s(1)
  show ?thesis by blast
qed

text \<open>
  The data file can be closed twice: after the client has ended, the end of any further
  connection calls \<^verbatim>\<open>EndClient\<close> again, which prints to and closes the closed stream. Two
  connections that both finish before either reports its end are enough.
\<close>

theorem fws_client_double_fclose:
  assumes "cfg_ok cfg" and "starts_ok cfg ss" and "start_clients cfg ss new_client = Inr s0"
    and "admissible (client_step cfg) (client_ok cfg) s0 es" and "run (client_step cfg) es s0 = Inr s"
    and "stopped s" and "lost s = 0" and "conns s i \<noteq> None"
  shows "client_step cfg (ConnClose i status_code now_ns) s = Inl DoubleClose"
  using client_complete [OF assms(1-7)] assms(8)
  by (auto simp: OnClose_def EndClient_def Let_def)

theorem fws_client_double_fclose_witness:
  "\<exists>s. run (client_step pair_cfg) sample_pair (start_of pair_cfg [sample_start 1, sample_start 2]) = Inr s
     \<and> client_step pair_cfg (ConnClose 2 1000 2200) s = Inl DoubleClose"
proof -
  have "case run (client_step pair_cfg) sample_pair (start_of pair_cfg [sample_start 1, sample_start 2])
        of Inl _ \<Rightarrow> False | Inr s \<Rightarrow> stopped s \<and> lost s = 0 \<and> conns s 2 \<noteq> None"
    by code_simp
  then obtain s where s: "run (client_step pair_cfg) sample_pair (start_of pair_cfg [sample_start 1, sample_start 2])
      = Inr s" "stopped s" "lost s = 0" "conns s 2 \<noteq> None"
    by (auto split: sum.splits)
  from fws_client_double_fclose [OF sample_cfgs_ok(2) sample_starts_ok(2)
      start_of [OF sample_cfgs_ok(2) sample_starts_ok(2)] sample_pair_admissible s] s(1)
  show ?thesis by blast
qed


text \<open>
  C25. The hash check of the progress line sees any single corrupted byte: if \<^verbatim>\<open>RotateR\<close> is
  injective, as a rotation is, an echo that differs from the payload in one byte makes the
  check abort.
\<close>

theorem fws_client_detects_corruption:
  assumes "\<And>v w. cl_rotr cfg v 5 = cl_rotr cfg w 5 \<Longrightarrow> v = w"
    and "data_hash s = HashArr (cl_rotr cfg) (payload cfg)" and "loop_cnt s AND 0x3fff = 0"
    and "io_contents buf = (payload cfg)[k := b]" and "k < cl_max_data_len cfg" and "b \<noteq> payload cfg ! k"
  shows "record_progress cfg e round_trip_ns buf s = Inl Aborted"
proof -
  have "payload cfg = take k (payload cfg) @ payload cfg ! k # drop (Suc k) (payload cfg)"
    by (rule id_take_nth_drop) (simp add: assms(5))
  moreover have "(payload cfg)[k := b] = take k (payload cfg) @ b # drop (Suc k) (payload cfg)"
    by (rule upd_conv_take_nth_drop) (simp add: assms(5))
  ultimately have "HashArr (cl_rotr cfg) ((payload cfg)[k := b]) \<noteq> HashArr (cl_rotr cfg) (payload cfg)"
    using hash_one_byte [OF assms(1), of "cl_rotr cfg" b "payload cfg ! k" 0 "take k (payload cfg)"
        "drop (Suc k) (payload cfg)"] assms(6)
    by (metis HashArr_def)
  then show ?thesis by (simp add: record_progress_def assms(2-4) Let_def)
qed

theorem fws_client_detects_corruption_witness:
  "record_progress lives_cfg (sample_recv [] True 1) 5 \<lparr>io_data = [0, 0, 48, 57, 50], io_start_pos = 2, io_size = 3\<rparr>
     (new_client\<lparr>data_hash := HashArr (cl_rotr lives_cfg) (payload lives_cfg)\<rparr>) = Inl Aborted"
proof (rule fws_client_detects_corruption [of _ _ _ 1 57])
  fix v w :: u64
  assume "cl_rotr lives_cfg v 5 = cl_rotr lives_cfg w 5"
  then have "word_rotl 5 (word_rotr 5 v) = word_rotl 5 (word_rotr 5 w)"
    by (simp only: lives_cfg_def sample_client_cfg_def client_cfg.simps)
  then show "v = w" by (simp only: word_rot_rl)
qed (simp_all add: lives_cfg_def sample_client_cfg_def payload_def new_client_def io_contents_def
    slice_def upt_rec)

end
