(* ===== verification/Beast.thy ===== *)
theory Beast
  imports Prelude
begin

text \<open>
  The Boost.Beast echo server, \<^verbatim>\<open>src/boost-beast/echo_server.cpp\<close>: the classes \<^verbatim>\<open>session\<close>
  and \<^verbatim>\<open>listener\<close>. Both are chains of asynchronous operations; an operation that has been
  started is pending, its completion calls the handler bound to it, and the handler starts
  the next one or lets the object die. The server is a transition system whose events are
  completions, in any order between sessions: a session's handlers run on its strand, one
  at a time.

  From the library come the completions: the error code, the bytes a read has appended to
  the buffer and whether they are text.
\<close>

section \<open>Sessions\<close>

datatype error_code = EcNone | EcClosed | EcOther nat

type_synonym log_line = "string \<times> error_code"

type_synonym message = "bool \<times> u8 list"

definition fail :: "error_code \<Rightarrow> string \<Rightarrow> log_line list" where
  "fail ec what = [(what, ec)]"

datatype op = AsyncDispatch | AsyncAccept | AsyncRead | AsyncWrite message

text \<open>
  \<open>ses_text\<close> is the stream's option whether messages are sent as text; a write takes it
  and the bytes of the buffer when it starts.
\<close>

record session =
  ses_buffer :: "u8 list"
  ses_text :: bool
  ses_pending :: "op option"

definition session_run :: session where
  "session_run = \<lparr>ses_buffer = [], ses_text = True, ses_pending = Some AsyncDispatch\<rparr>"

definition on_run :: "session \<Rightarrow> session" where
  "on_run ses = ses\<lparr>ses_pending := Some AsyncAccept\<rparr>"

definition do_read :: "session \<Rightarrow> session" where
  "do_read ses = ses\<lparr>ses_pending := Some AsyncRead\<rparr>"

definition session_on_accept :: "error_code \<Rightarrow> session \<Rightarrow> session \<times> log_line list" where
  "session_on_accept ec ses =
     (if ec \<noteq> EcNone then (ses, fail ec ''accept'') else (do_read ses, []))"

definition session_on_read :: "error_code \<Rightarrow> bool \<Rightarrow> session \<Rightarrow> session \<times> log_line list" where
  "session_on_read ec got_text ses =
     (if ec = EcClosed then (ses, [])
      else if ec \<noteq> EcNone then (ses, fail ec ''read'')
      else (let ses = ses\<lparr>ses_text := got_text\<rparr>
            in (ses\<lparr>ses_pending := Some (AsyncWrite (ses_text ses, ses_buffer ses))\<rparr>, [])))"

definition session_on_write :: "error_code \<Rightarrow> session \<Rightarrow> session \<times> log_line list" where
  "session_on_write ec ses =
     (if ec \<noteq> EcNone then (ses, fail ec ''write'')
      else (do_read (ses\<lparr>ses_buffer := drop (length (ses_buffer ses)) (ses_buffer ses)\<rparr>), []))"

text \<open>
  A completion clears the pending operation before its handler runs. A read has appended
  its bytes to the buffer.
\<close>

datatype completion =
    Dispatched
  | Handshaken error_code
  | ReadDone error_code bool "u8 list"
  | WriteDone error_code

fun completes_op :: "op \<Rightarrow> completion \<Rightarrow> bool" where
  "completes_op AsyncDispatch Dispatched \<longleftrightarrow> True"
| "completes_op AsyncAccept (Handshaken ec) \<longleftrightarrow> True"
| "completes_op AsyncRead (ReadDone ec got_text bytes) \<longleftrightarrow> True"
| "completes_op (AsyncWrite msg) (WriteDone ec) \<longleftrightarrow> True"
| "completes_op _ _ \<longleftrightarrow> False"

fun session_handle :: "completion \<Rightarrow> session \<Rightarrow> session \<times> log_line list" where
  "session_handle Dispatched ses = (on_run (ses\<lparr>ses_pending := None\<rparr>), [])"
| "session_handle (Handshaken ec) ses = session_on_accept ec (ses\<lparr>ses_pending := None\<rparr>)"
| "session_handle (ReadDone ec got_text bytes) ses =
     session_on_read ec got_text (ses\<lparr>ses_pending := None, ses_buffer := ses_buffer ses @ bytes\<rparr>)"
| "session_handle (WriteDone ec) ses = session_on_write ec (ses\<lparr>ses_pending := None\<rparr>)"

section \<open>The listener\<close>

text \<open>
  The constructor opens, configures, binds and listens, and returns at the first error; an
  object with a failed constructor is used like any other. \<open>steps\<close> gives the error code of
  each call.
\<close>

record listener =
  listening :: bool
  accept_pending :: bool

definition listener_ctor :: "(string \<Rightarrow> error_code) \<Rightarrow> listener \<times> log_line list" where
  "listener_ctor steps =
     (let dead = \<lparr>listening = False, accept_pending = False\<rparr>
      in if steps ''open'' \<noteq> EcNone then (dead, fail (steps ''open'') ''open'')
         else if steps ''set_option'' \<noteq> EcNone then (dead, fail (steps ''set_option'') ''set_option'')
         else if steps ''bind'' \<noteq> EcNone then (dead, fail (steps ''bind'') ''bind'')
         else if steps ''listen'' \<noteq> EcNone then (dead, fail (steps ''listen'') ''listen'')
         else (dead\<lparr>listening := True\<rparr>, []))"

definition do_accept :: "listener \<Rightarrow> listener" where
  "do_accept l = l\<lparr>accept_pending := True\<rparr>"

definition listener_run :: "listener \<Rightarrow> listener" where
  "listener_run l = do_accept l"

definition listener_on_accept :: "error_code \<Rightarrow> listener \<Rightarrow> listener \<times> log_line list \<times> session option" where
  "listener_on_accept ec l =
     (let (lines, new) = (if ec \<noteq> EcNone then (fail ec ''accept'', None) else ([], Some session_run))
      in (do_accept l, lines, new))"

section \<open>The server\<close>

text \<open>
  \<open>bs_in\<close> and \<open>bs_out\<close> are the messages read from a connection and given to a write,
  \<open>bs_done\<close> those whose write has completed.
\<close>

record beast =
  bs_listener :: listener
  bs_sessions :: "nat \<rightharpoonup> session"
  bs_log :: "log_line list"
  bs_in :: "nat \<Rightarrow> message list"
  bs_out :: "nat \<Rightarrow> message list"
  bs_done :: "nat \<Rightarrow> message list"

definition beast_start :: "(string \<Rightarrow> error_code) \<Rightarrow> beast" where
  "beast_start steps =
     (let (l, lines) = listener_ctor steps
      in \<lparr>bs_listener = listener_run l, bs_sessions = Map.empty, bs_log = lines,
          bs_in = (\<lambda>_. []), bs_out = (\<lambda>_. []), bs_done = (\<lambda>_. [])\<rparr>)"

datatype beast_event = AcceptDone error_code nat | SessionDone nat completion

definition accept_done :: "error_code \<Rightarrow> nat \<Rightarrow> beast \<Rightarrow> beast" where
  "accept_done ec i s =
     (let (l, lines, new) = listener_on_accept ec ((bs_listener s)\<lparr>accept_pending := False\<rparr>);
          s = s\<lparr>bs_listener := l, bs_log := bs_log s @ lines\<rparr>
      in case new of
           None \<Rightarrow> s
         | Some ses \<Rightarrow>
             s\<lparr>bs_sessions := (bs_sessions s)(i \<mapsto> ses), bs_in := (bs_in s)(i := []),
               bs_out := (bs_out s)(i := []), bs_done := (bs_done s)(i := [])\<rparr>)"

text \<open>What a completion tells of messages.\<close>

fun message_in :: "completion \<Rightarrow> message list" where
  "message_in (ReadDone ec got_text bytes) = (if ec = EcNone then [(got_text, bytes)] else [])"
| "message_in _ = []"

definition message_out :: "session \<Rightarrow> message list" where
  "message_out ses = (case ses_pending ses of Some (AsyncWrite msg) \<Rightarrow> [msg] | _ \<Rightarrow> [])"

fun message_done :: "completion \<Rightarrow> session \<Rightarrow> message list" where
  "message_done (WriteDone ec) ses = (if ec = EcNone then message_out ses else [])"
| "message_done _ ses = []"

text \<open>
  The shared pointer to a session lives in the handler of its pending operation: a session
  whose handler starts none is gone.
\<close>

definition session_done :: "nat \<Rightarrow> completion \<Rightarrow> session \<Rightarrow> beast \<Rightarrow> beast" where
  "session_done i c ses s =
     (let (ses', lines) = session_handle c ses
      in s\<lparr>bs_sessions := (bs_sessions s)(i := (if ses_pending ses' = None then None else Some ses')),
           bs_log := bs_log s @ lines,
           bs_in := (bs_in s)(i := bs_in s i @ message_in c),
           bs_out := (bs_out s)(i := bs_out s i @ message_out ses'),
           bs_done := (bs_done s)(i := bs_done s i @ message_done c ses)\<rparr>)"

text \<open>
  An event can happen when its operation is pending. An acceptor that is not listening
  completes accepts with an error only.
\<close>

inductive beast_step :: "beast \<Rightarrow> beast_event \<Rightarrow> beast \<Rightarrow> bool" where
  refused: "accept_pending (bs_listener s) \<Longrightarrow> ec \<noteq> EcNone \<Longrightarrow>
     beast_step s (AcceptDone ec i) (accept_done ec i s)"
| connected: "accept_pending (bs_listener s) \<Longrightarrow> listening (bs_listener s) \<Longrightarrow>
     bs_sessions s i = None \<Longrightarrow> beast_step s (AcceptDone EcNone i) (accept_done EcNone i s)"
| progressed: "bs_sessions s i = Some ses \<Longrightarrow> ses_pending ses = Some pending_op \<Longrightarrow>
     completes_op pending_op c \<Longrightarrow> beast_step s (SessionDone i c) (session_done i c ses s)"

inductive_cases beast_stepE: "beast_step s e s'"

inductive beast_reach :: "(string \<Rightarrow> error_code) \<Rightarrow> beast \<Rightarrow> bool" for steps where
  start: "beast_reach steps (beast_start steps)"
| more: "beast_reach steps s \<Longrightarrow> beast_step s e s' \<Longrightarrow> beast_reach steps s'"

inductive_simps accept_step_simps: "beast_step s (AcceptDone ec i) s'"
inductive_simps session_step_simps: "beast_step s (SessionDone i c) s'"

section \<open>Invariant\<close>

text \<open>
  One operation is pending per session; the buffer is empty except while the message in it
  is written back; the option that the write uses is the message's own kind.
\<close>

definition session_inv :: "session \<Rightarrow> message list \<Rightarrow> message list \<Rightarrow> bool" where
  "session_inv ses ins dones \<longleftrightarrow>
     (case ses_pending ses of
        None \<Rightarrow> False
      | Some (AsyncWrite msg) \<Rightarrow> msg = (ses_text ses, ses_buffer ses) \<and> ins = dones @ [msg]
      | Some _ \<Rightarrow> ses_buffer ses = [] \<and> ins = dones)"

definition beast_inv :: "beast \<Rightarrow> bool" where
  "beast_inv s \<longleftrightarrow>
     accept_pending (bs_listener s)
   \<and> (\<forall>i. bs_out s i = bs_in s i)
   \<and> (\<forall>i ses. bs_sessions s i = Some ses \<longrightarrow> session_inv ses (bs_in s i) (bs_done s i))"

lemmas handler_defs =
  on_run_def do_read_def session_on_accept_def session_on_read_def session_on_write_def
  session_run_def

lemma session_handle_inv:
  assumes inv: "session_inv ses ins dones" and pend: "ses_pending ses = Some pending_op"
    and ok: "completes_op pending_op c" and run: "session_handle c ses = (ses', lines)"
  shows "message_out ses' = message_in c"
    and "ses_pending ses' \<noteq> None \<Longrightarrow> session_inv ses' (ins @ message_in c) (dones @ message_done c ses)"
proof -
  have "message_out ses' = message_in c \<and> (ses_pending ses' \<noteq> None \<longrightarrow>
      session_inv ses' (ins @ message_in c) (dones @ message_done c ses))"
    using assms
    by (cases "(pending_op, c)" rule: completes_op.cases)
      (auto simp: session_inv_def handler_defs message_out_def Let_def split: if_splits)
  then show "message_out ses' = message_in c"
    and "ses_pending ses' \<noteq> None \<Longrightarrow> session_inv ses' (ins @ message_in c) (dones @ message_done c ses)"
    by auto
qed

text \<open>Whatever an accept brings, the listener starts the next one.\<close>

lemma accept_done_simps:
  "ec \<noteq> EcNone \<Longrightarrow> accept_done ec i s =
     s\<lparr>bs_listener := (bs_listener s)\<lparr>accept_pending := True\<rparr>, bs_log := bs_log s @ [(''accept'', ec)]\<rparr>"
  "accept_done EcNone i s =
     s\<lparr>bs_listener := (bs_listener s)\<lparr>accept_pending := True\<rparr>, bs_log := bs_log s,
       bs_sessions := (bs_sessions s)(i \<mapsto> session_run), bs_in := (bs_in s)(i := []),
       bs_out := (bs_out s)(i := []), bs_done := (bs_done s)(i := [])\<rparr>"
  by (simp_all add: accept_done_def listener_on_accept_def do_accept_def fail_def)

lemma accept_done_inv:
  assumes "beast_inv s"
  shows "beast_inv (accept_done ec i s)"
proof (cases "ec = EcNone")
  case True
  have "session_inv session_run [] []" by (simp add: session_inv_def session_run_def)
  with assms True show ?thesis by (auto simp: beast_inv_def accept_done_simps)
qed (use assms in \<open>simp add: beast_inv_def accept_done_simps\<close>)

lemma session_done_inv:
  assumes inv: "beast_inv s" and ses: "bs_sessions s i = Some ses" "ses_pending ses = Some pending_op"
    and ok: "completes_op pending_op c"
  shows "beast_inv (session_done i c ses s)"
proof -
  obtain ses' lines where run: "session_handle c ses = (ses', lines)" by (metis surj_pair)
  have "session_inv ses (bs_in s i) (bs_done s i)" using inv ses(1) by (simp add: beast_inv_def)
  note h = session_handle_inv [OF this ses(2) ok run]
  show ?thesis using inv h by (auto simp: beast_inv_def session_done_def run)
qed

lemma step_inv: "beast_step s e s' \<Longrightarrow> beast_inv s \<Longrightarrow> beast_inv s'"
  by (erule beast_stepE) (auto intro: accept_done_inv session_done_inv)

lemma start_inv: "beast_inv (beast_start steps)"
  by (simp add: beast_inv_def beast_start_def listener_run_def do_accept_def split: prod.split)

lemma reach_inv: "beast_reach steps s \<Longrightarrow> beast_inv s"
  by (induction rule: beast_reach.induct) (auto intro: start_inv step_inv)

section \<open>The listener alone\<close>

definition accept_step :: "error_code \<Rightarrow> listener \<Rightarrow> listener result" where
  "accept_step ec l = Inr (fst (listener_on_accept ec (l\<lparr>accept_pending := False\<rparr>)))"

interpretation accept_machine: total_machine accept_step accept_pending
  by unfold_locales (simp add: accept_step_def listener_on_accept_def do_accept_def)

text \<open>A failed constructor leaves an acceptor that no accept changes.\<close>

definition ctor_failed :: "(string \<Rightarrow> error_code) \<Rightarrow> bool" where
  "ctor_failed steps \<longleftrightarrow>
     \<not> (\<forall>what \<in> set [''open'', ''set_option'', ''bind'', ''listen'']. steps what = EcNone)"

lemma ctor_listening: "listening (fst (listener_ctor steps)) \<longleftrightarrow> \<not> ctor_failed steps"
  by (simp add: listener_ctor_def ctor_failed_def Let_def)

lemma step_listening: "beast_step s e s' \<Longrightarrow> listening (bs_listener s') = listening (bs_listener s)"
proof (erule beast_stepE)
  fix ec i
  assume "s' = accept_done ec i s"
  then show ?thesis by (cases "ec = EcNone") (simp_all add: accept_done_simps)
qed (auto simp: accept_done_simps session_done_def split: prod.split)

definition dead :: "beast \<Rightarrow> bool" where
  "dead s \<longleftrightarrow> \<not> listening (bs_listener s) \<and> bs_sessions s = Map.empty"

lemma dead_step: "beast_step s e s' \<Longrightarrow> dead s \<Longrightarrow> dead s'"
  by (erule beast_stepE) (auto simp: dead_def accept_done_simps)

lemma dead_reach: "beast_reach steps s \<Longrightarrow> ctor_failed steps \<Longrightarrow> dead s"
proof (induction rule: beast_reach.induct)
  case start
  then show ?case
    using ctor_listening [of steps]
    by (auto simp: dead_def beast_start_def listener_run_def do_accept_def split: prod.split)
qed (use dead_step in blast)

section \<open>Properties\<close>

definition no_error :: "string \<Rightarrow> error_code" where
  "no_error = (\<lambda>_. EcNone)"

definition bind_error :: "string \<Rightarrow> error_code" where
  "bind_error = (\<lambda>what. if what = ''bind'' then EcOther 98 else EcNone)"

text \<open>A server with one connection that has read a text message.\<close>

definition sample_after :: "completion list \<Rightarrow> beast" where
  "sample_after cs =
     fold (\<lambda>c s. session_done 0 c (the (bs_sessions s 0)) s) cs (accept_done EcNone 0 (beast_start no_error))"

lemma beast_start_no_error: "accept_pending (bs_listener (beast_start no_error))"
    "listening (bs_listener (beast_start no_error))" "bs_sessions (beast_start no_error) = Map.empty"
  by (simp_all add: beast_start_def no_error_def listener_ctor_def listener_run_def do_accept_def Let_def)

lemmas sample_defs =
  sample_after_def accept_done_simps session_done_def handler_defs beast_start_def no_error_def
  listener_ctor_def listener_run_def do_accept_def message_out_def

lemma sample_reach:
  "beast_reach no_error (sample_after [])"
  "beast_reach no_error (sample_after [Dispatched])"
  "beast_reach no_error (sample_after [Dispatched, Handshaken EcNone])"
  "beast_reach no_error (sample_after [Dispatched, Handshaken EcNone, ReadDone EcNone True [104, 105]])"
proof -
  show r0: "beast_reach no_error (sample_after [])"
    using beast_reach.more [OF beast_reach.start beast_step.connected [OF beast_start_no_error(1,2)]]
    by (simp add: sample_after_def beast_start_no_error)
  have next_reach: "beast_reach no_error (session_done 0 c ses s)"
    if "beast_reach no_error s" "bs_sessions s 0 = Some ses" "ses_pending ses = Some pending_op"
      "completes_op pending_op c" for s c ses pending_op
    using beast_reach.more [OF that(1) beast_step.progressed [OF that(2-4)]] .
  show r1: "beast_reach no_error (sample_after [Dispatched])"
    using next_reach [OF r0, of session_run AsyncDispatch Dispatched] by (simp add: sample_defs)
  show r2: "beast_reach no_error (sample_after [Dispatched, Handshaken EcNone])"
    using next_reach [OF r1, of "session_run\<lparr>ses_pending := Some AsyncAccept\<rparr>" AsyncAccept "Handshaken EcNone"]
    by (simp add: sample_defs)
  show "beast_reach no_error (sample_after [Dispatched, Handshaken EcNone, ReadDone EcNone True [104, 105]])"
    using next_reach [OF r2, of "session_run\<lparr>ses_pending := Some AsyncRead\<rparr>" AsyncRead
        "ReadDone EcNone True [104, 105]"]
    by (simp add: sample_defs)
qed

text \<open>
  C38. In every reachable state of the Beast server, what each connection has been given to
  write is what was read from it, message by message with its kind; a live session has one
  pending operation, and its completed writes are all but the message being written.
\<close>

theorem beast_echo_exact:
  assumes "beast_reach steps s"
  shows "bs_out s i = bs_in s i
     \<and> (\<forall>ses. bs_sessions s i = Some ses \<longrightarrow>
          (\<exists>pending_op. ses_pending ses = Some pending_op
             \<and> (case pending_op of AsyncWrite msg \<Rightarrow> bs_in s i = bs_done s i @ [msg]
                | _ \<Rightarrow> ses_buffer ses = [] \<and> bs_in s i = bs_done s i)))"
  using reach_inv [OF assms]
  by (force simp: beast_inv_def session_inv_def split: option.splits op.splits)

theorem beast_echo_exact_witness:
  "bs_out (sample_after [Dispatched, Handshaken EcNone, ReadDone EcNone True [104, 105]]) 0 = [(True, [104, 105])]
   \<and> bs_done (sample_after [Dispatched, Handshaken EcNone, ReadDone EcNone True [104, 105]]) 0 = []"
  using beast_echo_exact [OF sample_reach(4), of 0] by (simp add: sample_defs)

text \<open>
  A session that is reading echoes the next message, whatever was exchanged before: the
  read and the write it starts complete one after the other, the message comes back as it
  was, and the session reads again with an empty buffer.
\<close>

theorem beast_echo_cycle:
  assumes "beast_reach steps s" and "bs_sessions s i = Some ses" and "ses_pending ses = Some AsyncRead"
  shows "\<exists>s1 s2 ses2. beast_step s (SessionDone i (ReadDone EcNone got_text bytes)) s1
     \<and> beast_step s1 (SessionDone i (WriteDone EcNone)) s2
     \<and> bs_done s2 i = bs_done s i @ [(got_text, bytes)] \<and> bs_in s2 i = bs_in s i @ [(got_text, bytes)]
     \<and> bs_sessions s2 i = Some ses2 \<and> ses_pending ses2 = Some AsyncRead \<and> ses_buffer ses2 = []"
proof -
  have "session_inv ses (bs_in s i) (bs_done s i)"
    using reach_inv [OF assms(1)] assms(2) by (simp add: beast_inv_def)
  then have empty: "ses_buffer ses = []" using assms(3) by (simp add: session_inv_def)
  let ?read = "ReadDone EcNone got_text bytes"
  let ?ses1 = "ses\<lparr>ses_pending := Some (AsyncWrite (got_text, bytes)), ses_buffer := bytes, ses_text := got_text\<rparr>"
  have ses1: "session_handle ?read ses = (?ses1, [])"
    by (simp add: session_on_read_def empty Let_def)
  note read = ses1 [unfolded session_handle.simps]
  let ?s1 = "session_done i ?read ses s"
  have at1: "bs_sessions ?s1 i = Some ?ses1" by (simp add: session_done_def read)
  have "beast_step s (SessionDone i ?read) ?s1"
    by (rule beast_step.progressed [OF assms(2,3)]) simp
  moreover
  let ?s2 = "session_done i (WriteDone EcNone) ?ses1 ?s1"
  let ?ses2 = "ses\<lparr>ses_text := got_text, ses_buffer := [], ses_pending := Some AsyncRead\<rparr>"
  have "beast_step ?s1 (SessionDone i (WriteDone EcNone)) ?s2"
    by (rule beast_step.progressed [OF at1, of "AsyncWrite (got_text, bytes)"]) simp_all
  moreover have "bs_done ?s2 i = bs_done s i @ [(got_text, bytes)]"
      "bs_in ?s2 i = bs_in s i @ [(got_text, bytes)]" "bs_sessions ?s2 i = Some ?ses2"
    by (simp_all add: session_done_def read session_on_write_def do_read_def message_out_def)
  moreover have "ses_pending ?ses2 = Some AsyncRead" "ses_buffer ?ses2 = []" by simp_all
  ultimately show ?thesis by blast
qed

theorem beast_echo_cycle_witness:
  "\<exists>s1 s2 ses2. beast_step (sample_after [Dispatched, Handshaken EcNone])
        (SessionDone 0 (ReadDone EcNone False [1])) s1
     \<and> beast_step s1 (SessionDone 0 (WriteDone EcNone)) s2
     \<and> bs_done s2 0 = [(False, [1])] \<and> bs_sessions s2 0 = Some ses2"
proof -
  have ses: "bs_sessions (sample_after [Dispatched, Handshaken EcNone]) 0
      = Some (session_run\<lparr>ses_pending := Some AsyncRead\<rparr>)"
    and "bs_done (sample_after [Dispatched, Handshaken EcNone]) 0 = []"
    by (simp_all add: sample_defs)
  with beast_echo_cycle [OF sample_reach(3) ses, of False "[1]"] show ?thesis by auto
qed

text \<open>
  The listener accepts for ever: whatever the constructor's calls returned and however
  the accepts before ended, an accept is pending.
\<close>

theorem beast_listener_accepts:
  "\<exists>l. run accept_step ecs (listener_run (fst (listener_ctor steps))) = Inr l \<and> accept_pending l
     \<and> (listening l \<longleftrightarrow> (steps ''open'' = EcNone \<and> steps ''set_option'' = EcNone
          \<and> steps ''bind'' = EcNone \<and> steps ''listen'' = EcNone))"
proof -
  have keeps: "run accept_step ecs l = Inr l' \<Longrightarrow> listening l' = listening l" for l l' ecs
    by (induction ecs arbitrary: l) (auto simp: accept_step_def listener_on_accept_def do_accept_def Let_def)
  have "accept_pending (listener_run l)" for l by (simp add: listener_run_def do_accept_def)
  from accept_machine.run_total [OF this] obtain l where
      "run accept_step ecs (listener_run (fst (listener_ctor steps))) = Inr l" "accept_pending l"
    by blast
  with keeps [OF this(1)] ctor_listening [of steps] show ?thesis
    by (auto simp: ctor_failed_def listener_run_def do_accept_def)
qed

text \<open>
  C40. A constructor that failed does not stop the server: no session ever exists, and in
  every reachable state an accept is pending that completes with an error, adds a line to
  the log and is started again.
\<close>

theorem beast_failed_listener_spins:
  assumes "beast_reach steps s" and "ctor_failed steps" and "ec \<noteq> EcNone"
  shows "bs_sessions s = Map.empty \<and> (\<forall>j s'. \<not> beast_step s (AcceptDone EcNone j) s')
     \<and> (\<exists>s'. beast_step s (AcceptDone ec i) s' \<and> bs_log s' = bs_log s @ [(''accept'', ec)])"
proof -
  have "dead s" by (rule dead_reach [OF assms(1,2)])
  moreover have "accept_pending (bs_listener s)" using reach_inv [OF assms(1)] by (simp add: beast_inv_def)
  ultimately show ?thesis
    using assms(3) by (auto simp: dead_def accept_step_simps accept_done_simps)
qed

theorem beast_failed_listener_spins_witness:
  "\<exists>s'. beast_step (beast_start bind_error) (AcceptDone (EcOther 9) 0) s'
     \<and> bs_log s' = [(''bind'', EcOther 98), (''accept'', EcOther 9)]"
proof -
  have "ctor_failed bind_error" by (simp add: ctor_failed_def bind_error_def)
  from beast_failed_listener_spins [OF beast_reach.start this, of "EcOther 9" 0] show ?thesis
    by (simp add: beast_start_def bind_error_def listener_ctor_def fail_def Let_def)
qed

end
