(* ===== verification/Startup.thy ===== *)
theory Startup
  imports UsEcho HttpsClient MsgEcho FwsServer FwsClientProps Beast
begin

text \<open>
  How the seven programs start: the checks each \<^verbatim>\<open>main\<close> makes on its arguments, the
  conversions that turn an argument into the parameter a component works with, and the
  order in which the library calls that may fail are made. What those calls return is a
  parameter. A start ends in a configuration to run with, or in the exit code or the abort
  the program takes instead.
\<close>

section \<open>Numbers in arguments\<close>

text \<open>
  \<^verbatim>\<open>atoi\<close> and \<^verbatim>\<open>atoll\<close>: leading white space, a sign, digits up to the first other
  character. A value that does not fit the type is undefined in C.
\<close>

definition is_space :: "char \<Rightarrow> bool" where
  "is_space c \<longleftrightarrow> (of_char c :: int) \<in> {32, 9, 10, 11, 12, 13}"

definition is_digit :: "char \<Rightarrow> bool" where
  "is_digit c \<longleftrightarrow> 48 \<le> (of_char c :: int) \<and> (of_char c :: int) \<le> 57"

fun digits_from :: "int \<Rightarrow> string \<Rightarrow> int" where
  "digits_from acc [] = acc"
| "digits_from acc (c # cs) =
     (if is_digit c then digits_from (acc * 10 + (of_char c - 48)) cs else acc)"

definition parse_int :: "string \<Rightarrow> int" where
  "parse_int s =
     (case dropWhile is_space s of
        [] \<Rightarrow> 0
      | c # cs \<Rightarrow>
          if c = CHR ''-'' then - digits_from 0 cs
          else if c = CHR ''+'' then digits_from 0 cs
          else digits_from 0 (c # cs))"

definition in_range :: "nat \<Rightarrow> int \<Rightarrow> int result" where
  "in_range w n = (if - (2 ^ (w - 1)) \<le> n \<and> n < 2 ^ (w - 1) then Inr n else Inl SignedOverflow)"

definition atoi :: "string \<Rightarrow> int result" where
  "atoi s = in_range 32 (parse_int s)"

definition atoll :: "string \<Rightarrow> int result" where
  "atoll s = in_range 64 (parse_int s)"

text \<open>\<^verbatim>\<open>std::to_string\<close>.\<close>

fun dec_digits :: "nat \<Rightarrow> string" where
  "dec_digits n =
     (if n < 10 then [char_of (48 + n)] else dec_digits (n div 10) @ [char_of (48 + n mod 10)])"

declare dec_digits.simps [simp del]

definition to_string :: "int \<Rightarrow> string" where
  "to_string n = (if n < 0 then CHR ''-'' # dec_digits (nat (- n)) else dec_digits (nat n))"

lemma of_char_digit: "d < 10 \<Longrightarrow> (of_char (char_of (48 + d) :: char) :: int) = 48 + int d"
proof -
  assume "d < 10"
  then have "(of_char (char_of (48 + d) :: char) :: nat) = 48 + d"
    by (simp add: of_char_of)
  then show ?thesis by (metis of_nat_add of_nat_numeral of_nat_of_char)
qed

lemma digits_from_append:
  "\<forall>c\<in>set xs. is_digit c \<Longrightarrow> digits_from acc (xs @ ys) = digits_from (digits_from acc xs) ys"
  by (induction xs arbitrary: acc) simp_all

lemma dec_digits_sound:
  "dec_digits n \<noteq> [] \<and> (\<forall>c\<in>set (dec_digits n). is_digit c) \<and> digits_from 0 (dec_digits n) = int n"
proof (induction n rule: dec_digits.induct)
  case (1 n)
  show ?case
  proof (cases "n < 10")
    case True
    then show ?thesis
      using of_char_digit [of n] by (simp add: dec_digits.simps [of n] is_digit_def)
  next
    case False
    have d: "(of_char (char_of (48 + n mod 10) :: char) :: int) = 48 + int (n mod 10)"
      by (rule of_char_digit) simp
    from 1 [OF False] False show ?thesis
      by (simp add: dec_digits.simps [of n] digits_from_append is_digit_def d zmod_int zdiv_int)
  qed
qed

lemma parse_to_string: "parse_int (to_string n) = n"
proof -
  have digit: "\<not> is_space c" "c \<noteq> CHR ''-''" "c \<noteq> CHR ''+''" if "is_digit c" for c
    using that by (auto simp: is_space_def is_digit_def)
  have drop: "dropWhile is_space xs = xs" if "xs \<noteq> []" "\<forall>c\<in>set xs. is_digit c" for xs
    using that digit(1) by (cases xs) auto
  have "parse_int (dec_digits m) = int m" for m
    using dec_digits_sound [of m] drop [of "dec_digits m"] digit(2,3)
    by (auto simp: parse_int_def split: list.split)
  moreover have "\<not> is_space (CHR ''-'')" by (simp add: is_space_def)
  ultimately show ?thesis
    using dec_digits_sound by (auto simp: to_string_def parse_int_def)
qed

lemma atoi_to_string: "in_range 32 n = Inr m \<Longrightarrow> atoi (to_string n) = Inr n"
  by (simp add: atoi_def parse_to_string in_range_def split: if_splits)

lemma in_range_Inr: "in_range w n = Inr m \<longleftrightarrow> m = n \<and> - (2 ^ (w - 1)) \<le> n \<and> n < 2 ^ (w - 1)"
  by (auto simp: in_range_def)

text \<open>An argument that must be positive: the program returns -1 if it is not.\<close>

definition positive_arg :: "(string \<Rightarrow> int result) \<Rightarrow> string \<Rightarrow> int result" where
  "positive_arg conv s = bindE (conv s) (\<lambda>n. bindE (require (Exited (-1)) (0 < n)) (\<lambda>_. Inr n))"

lemma positive_arg_Inr [simp]: "positive_arg conv s = Inr n \<longleftrightarrow> conv s = Inr n \<and> 0 < n"
  by (auto simp: positive_arg_def bindE_eq_Inr)

lemma positive_arg_nonpositive: "conv s = Inr n \<Longrightarrow> n \<le> 0 \<Longrightarrow> positive_arg conv s = Inl (Exited (-1))"
  by (simp add: positive_arg_def)

lemmas number_defs = atoi_def atoll_def parse_int_def is_space_def is_digit_def in_range_def

section \<open>The message servers\<close>

definition csv_header :: string where
  "csv_header = ''msg_size,rx_goodput,tx_goodput,rx_mm_mps,tx_mm_mps,connection_cnt''"

text \<open>
  The uWebSockets server: \<^verbatim>\<open>maxPayloadLength\<close> is the maximal length cut to 32 bits.
\<close>

record uws_start =
  uws_ip :: string
  uws_port :: int
  uws_max_payload :: u32
  uws_file :: string
  uws_csv :: string

definition uws_main :: "bool \<Rightarrow> string list \<Rightarrow> uws_start result" where
  "uws_main fopen_ok argv =
     bindE (require (Exited (-1)) (\<not> length argv < 5)) (\<lambda>_.
     bindE (positive_arg atoi (argv ! 2)) (\<lambda>port.
     bindE (positive_arg atoll (argv ! 3)) (\<lambda>max_msg_len.
     bindE (require (Exited (-1)) fopen_ok) (\<lambda>_.
       Inr \<lparr>uws_ip = argv ! 1, uws_port = port, uws_max_payload = ucast (word_of_int max_msg_len :: u64),
            uws_file = argv ! 4, uws_csv = csv_header\<rparr>))))"

text \<open>
  The websocketpp server: the port goes to the library as a decimal string again; an
  exception of the endpoint is caught, and the program returns 0.
\<close>

record tpp_start =
  tpp_ip :: string
  tpp_port :: string
  tpp_max_data_len :: u64
  tpp_file :: string
  tpp_csv :: string

definition tpp_main :: "bool \<Rightarrow> bool \<Rightarrow> string list \<Rightarrow> tpp_start result" where
  "tpp_main fopen_ok endpoint_throws argv =
     bindE (require (Exited (-1)) (\<not> length argv < 5)) (\<lambda>_.
     bindE (positive_arg atoi (argv ! 2)) (\<lambda>port.
     bindE (positive_arg atoll (argv ! 3)) (\<lambda>max_msg_len.
     bindE (require (Exited (-1)) fopen_ok) (\<lambda>_.
     bindE (require (Exited 0) (\<not> endpoint_throws)) (\<lambda>_.
       Inr \<lparr>tpp_ip = argv ! 1, tpp_port = to_string port, tpp_max_data_len = word_of_int max_msg_len,
            tpp_file = argv ! 4, tpp_csv = csv_header\<rparr>)))))"

text \<open>
  The flashws server: \<^verbatim>\<open>int MAX_DATA_LEN = size_t(max_msg_len)\<close> keeps the low 32 bits, read
  as a signed number. A failing TLS set-up aborts, every other failure returns -1.
\<close>

record fws_env =
  loop_init_ret :: int
  ssl_init_ret :: int
  file_opens :: bool
  socket_init_ret :: int
  listen_ret :: int
  add_socket_ret :: int

record fws_start =
  fst_ip :: string
  fst_port :: int
  fst_max_data_len :: int
  fst_csv :: string

definition TestWsServer :: "fws_env \<Rightarrow> string list \<Rightarrow> fws_start result" where
  "TestWsServer env argv =
     bindE (require (Exited (-1)) (\<not> length argv < 5)) (\<lambda>_.
     bindE (positive_arg atoi (argv ! 2)) (\<lambda>port.
     bindE (positive_arg atoll (argv ! 3)) (\<lambda>max_msg_len.
     bindE (require (Exited (-1)) (\<not> loop_init_ret env < 0)) (\<lambda>_.
     bindE (require Aborted (\<not> ssl_init_ret env < 0)) (\<lambda>_.
     bindE (require (Exited (-1)) (file_opens env)) (\<lambda>_.
     bindE (require (Exited (-1)) (\<not> socket_init_ret env < 0)) (\<lambda>_.
     bindE (require (Exited (-1)) (\<not> listen_ret env < 0)) (\<lambda>_.
     bindE (require (Exited (-1)) (\<not> add_socket_ret env < 0)) (\<lambda>_.
       Inr \<lparr>fst_ip = argv ! 1, fst_port = port,
            fst_max_data_len = sint (ucast (word_of_int max_msg_len :: u64) :: u32),
            fst_csv = csv_header\<rparr>)))))))))"

section \<open>The benchmark client\<close>

text \<open>
  What the library gives: constants and functions that the client's configuration carries
  on, the results of the calls, and for the \<open>k\<close>-th connection what its creation returns.
\<close>

record client_env =
  ce_reserve :: nat
  ce_pong :: u32
  ce_rotr :: "u64 \<Rightarrow> nat \<Rightarrow> u64"
  ce_ns_per_tick :: rat
  ce_quantile :: "int list \<Rightarrow> rat \<Rightarrow> dbl"
  ce_rand :: "nat \<Rightarrow> int"
  init_env_ret :: int
  data_file_opens :: bool
  client_loop_init_ret :: int
  client_ssl_init_ret :: int
  ce_start :: "nat \<Rightarrow> start_event"

record client_start =
  cs_cfg :: client_cfg
  cs_ip :: string
  cs_port :: u16
  cs_uri :: string
  cs_host :: string
  cs_state :: client

text \<open>\<^verbatim>\<open>msg_cnt_per_c * client_cnt * client_reborn_time\<close>, a product of \<^verbatim>\<open>long long\<close>s.\<close>

definition total_msgs :: "int \<Rightarrow> int \<Rightarrow> int \<Rightarrow> int result" where
  "total_msgs msgs clients reborn =
     bindE (in_range 64 (msgs * clients)) (\<lambda>n. in_range 64 (n * reborn))"

definition client_cfg_of :: "client_env \<Rightarrow> int \<Rightarrow> int \<Rightarrow> int \<Rightarrow> int \<Rightarrow> client_cfg" where
  "client_cfg_of env len msgs reborn all_msgs =
     \<lparr>cl_max_data_len = nat len, cl_total = word_of_int all_msgs, cl_msg_limit = word_of_int msgs,
      cl_reborn_limit = reborn, cl_reserve = ce_reserve env, cl_pong = ce_pong env,
      cl_rotr = ce_rotr env, cl_ns_per_tick = ce_ns_per_tick env, cl_quantile = ce_quantile env,
      cl_rand = ce_rand env\<rparr>"

definition TestWsClient :: "client_env \<Rightarrow> string list \<Rightarrow> client_start result" where
  "TestWsClient env argv =
     bindE (require (Exited (-1)) (\<not> length argv < 8)) (\<lambda>_.
     bindE (positive_arg atoi (argv ! 2)) (\<lambda>port.
     bindE (positive_arg atoll (argv ! 3)) (\<lambda>max_msg_len.
     bindE (positive_arg atoll (argv ! 4)) (\<lambda>msg_cnt_per_c.
     bindE (positive_arg atoi (argv ! 5)) (\<lambda>client_cnt.
     bindE (positive_arg atoi (argv ! 6)) (\<lambda>client_reborn_time.
     bindE (total_msgs msg_cnt_per_c client_cnt client_reborn_time) (\<lambda>all_msgs.
     bindE (require AssertFailed (0 \<le> init_env_ret env)) (\<lambda>_.
     bindE (require (Exited (-1)) (data_file_opens env)) (\<lambda>_.
     bindE (require (Exited (-1)) (\<not> client_loop_init_ret env < 0)) (\<lambda>_.
     bindE (require Aborted (\<not> client_ssl_init_ret env < 0)) (\<lambda>_.
       let cfg = client_cfg_of env max_msg_len msg_cnt_per_c client_reborn_time all_msgs
       in bindE (start_clients cfg (map (ce_start env) [0..<nat client_cnt]) new_client) (\<lambda>s.
            Inr \<lparr>cs_cfg = cfg, cs_ip = argv ! 1, cs_port = word_of_int port, cs_uri = ''/'',
                 cs_host = argv ! 1 @ '':'' @ to_string port, cs_state = s\<rparr>))))))))))))"

section \<open>The other programs\<close>

text \<open>
  The uSockets programs take no arguments. The echo server gives up when it cannot listen;
  the HTTPS client exits without a context, and runs its loop even if the connection could
  not be started.
\<close>

record us_start =
  us_cert_file :: string
  us_key_file :: string
  us_ip :: string
  us_port :: int

definition us_main :: "bool \<Rightarrow> us_start result" where
  "us_main listens =
     bindE (require (Exited 0) listens) (\<lambda>_.
       Inr \<lparr>us_cert_file = ''/root/codes/ws-benchmark/certs/server.crt'',
            us_key_file = ''/root/codes/ws-benchmark/certs/server.key'',
            us_ip = ''10.5.96.7'', us_port = 58600\<rparr>)"

definition https_main :: "bool \<Rightarrow> bool \<Rightarrow> (string \<times> int \<times> https_client) result" where
  "https_main context_ok connect_ok =
     bindE (require (Exited 0) context_ok) (\<lambda>_.
       Inr (REAL_HOST, 58600,
            if connect_ok then hc_init else hc_init\<lparr>hc_lines := [CannotConnect]\<rparr>))"

text \<open>
  The Beast server does not check its numbers: the port is cut to 16 bits, and the number of
  threads is at least one. The main thread runs the context beside the others. An address
  that does not parse throws, and nothing catches it.
\<close>

record beast_start_args =
  ba_port :: u16
  ba_threads :: int
  ba_extra_threads :: nat

fun spawn :: "nat \<Rightarrow> nat" where
  "spawn 0 = 0"
| "spawn (Suc i) = 1 + spawn i"

definition beast_main :: "(string \<Rightarrow> bool) \<Rightarrow> string list \<Rightarrow> beast_start_args result" where
  "beast_main address_ok argv =
     bindE (require (Exited 1) (\<not> length argv \<noteq> 4)) (\<lambda>_.
     bindE (require Aborted (address_ok (argv ! 1))) (\<lambda>_.
     bindE (atoi (argv ! 2)) (\<lambda>port.
     bindE (atoi (argv ! 3)) (\<lambda>n.
       let threads = max 1 n
       in Inr \<lparr>ba_port = word_of_int port, ba_threads = threads,
               ba_extra_threads = spawn (nat (threads - 1))\<rparr>))))"

section \<open>The configuration of a client\<close>

lemma ucast_low_word: "(ucast (word_of_int n :: u64) :: u32) = word_of_int n"
  by (rule bit_word_eqI) (simp add: bit_simps)

lemma total_msgs_Inr:
  assumes "total_msgs m c r = Inr n" and "0 < m" and "0 < c" and "0 < r"
  shows "n = m * c * r" and "n < 2 ^ 63"
  using assms by (auto simp: total_msgs_def bindE_eq_Inr in_range_Inr)

lemma unat_word_of_pos: "0 \<le> n \<Longrightarrow> n < 2 ^ 63 \<Longrightarrow> unat (word_of_int n :: u64) = nat n"
  by (simp add: unat_eq_nat_uint uint_word_of_int)

definition good_starts :: "client_env \<Rightarrow> client_cfg \<Rightarrow> nat \<Rightarrow> bool" where
  "good_starts env cfg n \<longleftrightarrow>
     list_all (\<lambda>k. start_ok cfg (ce_start env k)) [0..<n] \<and> distinct (map (st_id \<circ> ce_start env) [0..<n])"

text \<open>
  A client that has started has the configuration its arguments ask for, and is in the
  state from which the properties of its runs are proved.
\<close>

lemma client_main_config:
  assumes st: "TestWsClient env argv = Inr st" and n: "atoi (argv ! 5) = Inr n"
    and good: "good_starts env (cs_cfg st) (nat n)"
  obtains len m r where "atoll (argv ! 3) = Inr len" "atoll (argv ! 4) = Inr m" "atoi (argv ! 6) = Inr r"
    "0 < len" "0 < m" "0 < n" "0 < r" "cl_max_data_len (cs_cfg st) = nat len"
    "int (unat (cl_total (cs_cfg st))) = m * n * r" "cfg_ok (cs_cfg st)"
    "starts_ok (cs_cfg st) (map (ce_start env) [0..<nat n])"
    "start_clients (cs_cfg st) (map (ce_start env) [0..<nat n]) new_client = Inr (cs_state st)"
proof -
  from st n obtain len m r msgs where args: "atoll (argv ! 3) = Inr len" "atoll (argv ! 4) = Inr m"
      "atoi (argv ! 6) = Inr r" "0 < len" "0 < m" "0 < n" "0 < r" "total_msgs m n r = Inr msgs"
    and cfg: "cs_cfg st = client_cfg_of env len m r msgs"
    and run: "start_clients (cs_cfg st) (map (ce_start env) [0..<nat n]) new_client = Inr (cs_state st)"
    by (auto simp: TestWsClient_def bindE_eq_Inr Let_def)
  note msgs = total_msgs_Inr [OF args(8,5,6,7)]
  have "1 \<le> n * r" using mult_pos_pos [OF args(6,7)] by linarith
  then have "m \<le> msgs"
    using mult_left_mono [of 1 "n * r" m] args(5) msgs(1) by (simp add: mult.assoc)
  then have m: "m < 2 ^ 63" using msgs(2) by simp
  have pos: "0 < msgs" using args msgs(1) by simp
  have words: "unat (cl_total (cs_cfg st)) = nat msgs" "unat (cl_msg_limit (cs_cfg st)) = nat m"
    using unat_word_of_pos msgs(2) m pos args(5) by (simp_all add: cfg client_cfg_of_def)
  have "cfg_ok (cs_cfg st)"
    using words(2) args by (simp add: cfg_ok_def cfg client_cfg_of_def word_less_nat_alt)
  moreover have "nat msgs = nat n * (nat r * nat m)"
    using args msgs(1) by (simp add: nat_mult_distrib mult.commute mult.left_commute)
  then have "starts_ok (cs_cfg st) (map (ce_start env) [0..<nat n])"
    using good words args by (simp add: starts_ok_def good_starts_def list.pred_map comp_def cfg client_cfg_of_def)
  ultimately show thesis
    using args run words(1) pos msgs(1) by (intro that) (simp_all add: cfg client_cfg_of_def)
qed

section \<open>Properties\<close>

text \<open>
  The number that the websocketpp server checked is the port it asks the library for:
  the string it passes reads back as the argument did, whatever white space, sign or
  trailing characters the argument had.
\<close>

theorem tpp_port_roundtrip:
  assumes "tpp_main fopen_ok endpoint_throws argv = Inr st"
  shows "\<exists>port. 0 < port \<and> atoi (argv ! 2) = Inr port \<and> atoi (tpp_port st) = Inr port
     \<and> list_all is_digit (tpp_port st)"
proof -
  from assms obtain port where port: "atoi (argv ! 2) = Inr port" "0 < port" "tpp_port st = to_string port"
    by (auto simp: tpp_main_def bindE_eq_Inr)
  then have "in_range 32 port = Inr port" by (auto simp: atoi_def in_range_def split: if_splits)
  then have "atoi (tpp_port st) = Inr port" using port(3) atoi_to_string by simp
  with port dec_digits_sound [of "nat port"] show ?thesis by (simp add: to_string_def list_all_iff)
qed

theorem tpp_port_roundtrip_witness:
  "\<exists>st. tpp_main True False [''echo_server'', ''0.0.0.0'', '' +9002x'', ''64'', ''out.csv''] = Inr st
     \<and> atoi (tpp_port st) = Inr 9002"
proof -
  have port: "atoi '' +9002x'' = Inr 9002" and "atoll ''64'' = Inr 64"
    by (simp_all add: number_defs)
  then obtain st where "tpp_main True False [''echo_server'', ''0.0.0.0'', '' +9002x'', ''64'', ''out.csv''] = Inr st"
    by (simp add: tpp_main_def positive_arg_def)
  from tpp_port_roundtrip [OF this] this port show ?thesis by auto
qed

text \<open>
  The flashws server works with the low 32 bits of its maximal message length, as a
  signed number: the length given if that is below \<open>2\<^sup>3\<^sup>1\<close>, a smaller number otherwise,
  although the check that the length is positive has passed.
\<close>

theorem fws_server_length_truncated:
  assumes "TestWsServer env argv = Inr st" and "atoll (argv ! 3) = Inr n"
  shows "0 < n \<and> fst_max_data_len st = (n + 2 ^ 31) mod 2 ^ 32 - 2 ^ 31
     \<and> (n < 2 ^ 31 \<longrightarrow> fst_max_data_len st = n) \<and> (2 ^ 31 \<le> n \<longrightarrow> fst_max_data_len st < n)"
proof -
  from assms have n: "0 < n" "n < 2 ^ 63"
    and st: "fst_max_data_len st = sint (ucast (word_of_int n :: u64) :: u32)"
    by (auto simp: TestWsServer_def bindE_eq_Inr atoll_def in_range_Inr)
  have eq: "fst_max_data_len st = (n + 2 ^ 31) mod 2 ^ 32 - 2 ^ 31"
    unfolding st ucast_low_word
    by (simp add: signed_of_int signed_take_bit_eq_take_bit_shift take_bit_eq_mod)
  moreover have "(n + 2 ^ 31) mod 2 ^ 32 < 2 ^ 32" by simp
  moreover have "n < 2 ^ 31 \<Longrightarrow> (n + 2 ^ 31) mod 2 ^ 32 = n + 2 ^ 31" using n by simp
  ultimately show ?thesis using n by auto
qed

theorem fws_server_length_truncated_witness:
  "\<exists>st. TestWsServer \<lparr>loop_init_ret = 0, ssl_init_ret = 0, file_opens = True, socket_init_ret = 0,
        listen_ret = 0, add_socket_ret = 0\<rparr>
        [''echo_server'', ''0.0.0.0'', ''80'', ''4294967297'', ''out.csv''] = Inr st
     \<and> fst_max_data_len st = 1"
proof -
  let ?env = "\<lparr>loop_init_ret = 0, ssl_init_ret = 0, file_opens = True, socket_init_ret = 0,
        listen_ret = 0, add_socket_ret = 0\<rparr>"
  let ?argv = "[''echo_server'', ''0.0.0.0'', ''80'', ''4294967297'', ''out.csv'']"
  have n: "atoll ''4294967297'' = Inr 4294967297" and "atoi ''80'' = Inr 80"
    by (simp_all add: number_defs)
  then obtain st where st: "TestWsServer ?env ?argv = Inr st"
    by (simp add: TestWsServer_def positive_arg_def)
  have "atoll (?argv ! 3) = Inr 4294967297" using n by simp
  from fws_server_length_truncated [OF st this] st show ?thesis by auto
qed

text \<open>
  The uWebSockets server rejects longer messages than its argument allows modulo
  \<open>2\<^sup>3\<^sup>2\<close>: an accepted length that is a multiple of \<open>2\<^sup>3\<^sup>2\<close> becomes a limit of 0.
\<close>

theorem uws_payload_limit:
  assumes "uws_main fopen_ok argv = Inr st" and "atoll (argv ! 3) = Inr n"
  shows "0 < n \<and> uint (uws_max_payload st) = n mod 2 ^ 32"
proof -
  from assms have n: "0 < n" "n < 2 ^ 63"
    and st: "uws_max_payload st = ucast (word_of_int n :: u64)"
    by (auto simp: uws_main_def bindE_eq_Inr atoll_def in_range_Inr)
  then show ?thesis by (simp add: ucast_low_word uint_word_of_int)
qed

theorem uws_payload_limit_witness:
  "\<exists>st. uws_main True [''echo_server'', ''0.0.0.0'', ''80'', ''8589934592'', ''out.csv''] = Inr st
     \<and> uint (uws_max_payload st) = 0"
proof -
  let ?argv = "[''echo_server'', ''0.0.0.0'', ''80'', ''8589934592'', ''out.csv'']"
  have n: "atoll ''8589934592'' = Inr 8589934592" and "atoi ''80'' = Inr 80"
    by (simp_all add: number_defs)
  then obtain st where st: "uws_main True ?argv = Inr st" by (simp add: uws_main_def positive_arg_def)
  have "atoll (?argv ! 3) = Inr 8589934592" using n by simp
  from uws_payload_limit [OF st this] st show ?thesis by auto
qed

text \<open>
  The benchmark client connects to the low 16 bits of the port it has checked, and
  writes the whole number into the host header.
\<close>

theorem fws_client_port_truncated:
  assumes "TestWsClient env argv = Inr st"
  shows "\<exists>port. atoi (argv ! 2) = Inr port \<and> 0 < port \<and> uint (cs_port st) = port mod 2 ^ 16
     \<and> cs_host st = argv ! 1 @ '':'' @ to_string port"
  using assms by (auto simp: TestWsClient_def bindE_eq_Inr Let_def uint_word_of_int)

definition sample_env :: client_env where
  "sample_env =
     \<lparr>ce_reserve = 2, ce_pong = 10, ce_rotr = (\<lambda>w n. word_rotr n w), ce_ns_per_tick = 1 / 2,
      ce_quantile = (\<lambda>h q. Fin 0), ce_rand = int, init_env_ret = 0, data_file_opens = True,
      client_loop_init_ret = 0, client_ssl_init_ret = 0, ce_start = (\<lambda>k. sample_start (Suc k))\<rparr>"

definition sample_argv :: "string \<Rightarrow> string list" where
  "sample_argv port = [''echo_client'', ''10.0.0.1'', port, ''3'', ''2'', ''1'', ''2'', ''out.csv'']"

lemma sample_numbers:
  "atoi ''65616'' = Inr 65616" "atoi ''80'' = Inr 80" "atoll ''3'' = Inr 3" "atoll ''2'' = Inr 2"
  "atoi ''1'' = Inr 1" "atoi ''2'' = Inr 2"
  by (simp_all add: number_defs)

lemma sample_client_cfg_of: "client_cfg_of sample_env 3 2 2 4 = lives_cfg"
  by (simp add: client_cfg_of_def sample_env_def lives_cfg_def sample_client_cfg_def)

text \<open>The sample client: one connection with two lives of two messages of three bytes.\<close>

lemma sample_client_starts:
  assumes "atoi port = Inr p" and "0 < p"
  obtains st where "TestWsClient sample_env (sample_argv port) = Inr st" "cs_cfg st = lives_cfg"
    "cs_state st = start_of lives_cfg [sample_start 1]"
proof -
  have ret: "init_env_ret sample_env = 0" "data_file_opens sample_env" "client_loop_init_ret sample_env = 0"
      "client_ssl_init_ret sample_env = 0" "ce_start sample_env 0 = sample_start 1"
    by (simp_all add: sample_env_def)
  have "total_msgs 2 1 2 = Inr 4" by (simp add: total_msgs_def in_range_def)
  then show thesis
    using that assms start_of [OF sample_cfgs_ok(1) sample_starts_ok(1)]
    by (simp add: TestWsClient_def sample_argv_def positive_arg_def sample_numbers ret sample_client_cfg_of)
qed

theorem fws_client_port_truncated_witness:
  "\<exists>st. TestWsClient sample_env (sample_argv ''65616'') = Inr st \<and> uint (cs_port st) = 80"
proof -
  obtain st where st: "TestWsClient sample_env (sample_argv ''65616'') = Inr st"
    by (rule sample_client_starts [OF sample_numbers(1)]) simp_all
  from fws_client_port_truncated [OF this] st show ?thesis by (auto simp: sample_argv_def sample_numbers)
qed

text \<open>
  Three valid numbers whose product does not fit a \<^verbatim>\<open>long long\<close> overflow a signed
  multiplication before anything is opened.
\<close>

theorem fws_client_total_overflows:
  assumes "8 \<le> length argv" and "atoi (argv ! 2) = Inr port" and "0 < port"
    and "atoll (argv ! 3) = Inr len" and "0 < len"
    and "atoll (argv ! 4) = Inr m" and "0 < m" and "atoi (argv ! 5) = Inr n" and "0 < n"
    and "atoi (argv ! 6) = Inr r" and "0 < r" and "2 ^ 63 \<le> m * n * r"
  shows "TestWsClient env argv = Inl SignedOverflow"
proof -
  have "total_msgs m n r = Inl SignedOverflow"
    using assms(12) by (auto simp: total_msgs_def in_range_def)
  with assms(1-11) show ?thesis by (simp add: TestWsClient_def positive_arg_def)
qed

theorem fws_client_total_overflows_witness:
  "TestWsClient sample_env
     [''echo_client'', ''10.0.0.1'', ''80'', ''3'', ''4611686018427387904'', ''1'', ''2'', ''out.csv'']
   = Inl SignedOverflow"
  by (rule fws_client_total_overflows [of _ 80 3 4611686018427387904 1 2]) (simp_all add: number_defs)

text \<open>
  The Beast server runs its context on as many threads as its last argument says, on
  one if it says less, and listens on the low 16 bits of whatever number the second one
  denotes.
\<close>

theorem beast_main_threads:
  assumes "beast_main address_ok argv = Inr a"
  shows "\<exists>port n. atoi (argv ! 2) = Inr port \<and> atoi (argv ! 3) = Inr n
     \<and> uint (ba_port a) = port mod 2 ^ 16
     \<and> int (ba_extra_threads a) + 1 = (if 1 \<le> n then n else 1)"
proof -
  have spawn: "spawn k = k" for k by (induction k) simp_all
  from assms obtain port n where "atoi (argv ! 2) = Inr port" "atoi (argv ! 3) = Inr n"
      "a = \<lparr>ba_port = word_of_int port, ba_threads = max 1 n, ba_extra_threads = nat (max 1 n - 1)\<rparr>"
    by (auto simp: beast_main_def bindE_eq_Inr Let_def spawn)
  then show ?thesis by (simp add: uint_word_of_int)
qed

theorem beast_main_threads_witness:
  "\<exists>a. beast_main (\<lambda>_. True) [''server'', ''0.0.0.0'', ''80'', ''2''] = Inr a
     \<and> uint (ba_port a) = 80 \<and> ba_extra_threads a = 1"
proof -
  let ?argv = "[''server'', ''0.0.0.0'', ''80'', ''2'']"
  obtain a where a: "beast_main (\<lambda>_. True) ?argv = Inr a"
    by (simp add: beast_main_def sample_numbers Let_def)
  from beast_main_threads [OF this] a show ?thesis by (auto simp: sample_numbers)
qed

end
