(* ===== verification/UwsClient.thy ===== *)
theory UwsClient
  imports Startup
begin

text \<open>
  The uWebSockets test client, \<^verbatim>\<open>src/uwebsockets/echo_client.cpp\<close>: its start and its handlers. The
  constant \<^verbatim>\<open>test::listen_addr\<close> it refers to is commented out of \<^verbatim>\<open>test_def.h\<close>, and is a parameter,
  as are the random numbers and the clock.
\<close>

section \<open>Start\<close>




section \<open>Handlers\<close>











section \<open>A connection\<close>








end
