(* ===== verification/HashBits.thy ===== *)
theory HashBits
  imports Prelude
begin

text \<open>
  The bit tricks of the hash map, \<^verbatim>\<open>src/usockets-tcp/flat_hash_map.h\<close>: \<^verbatim>\<open>log2\<close> with its table
  of 64 entries indexed by a multiplicative hash, and \<^verbatim>\<open>next_power_of_two\<close>. Both first copy
  the top bit of the word into all lower ones. They are compared with the floor of the
  logarithm and the least power of two.
\<close>

section \<open>The functions\<close>

text \<open>\<^verbatim>\<open>value |= value >> 1; ... value |= value >> 32\<close>, in both functions.\<close>

definition smear :: "u64 \<Rightarrow> u64" where
  "smear v =
     (let v = v OR drop_bit 1 v; v = v OR drop_bit 2 v; v = v OR drop_bit 4 v;
          v = v OR drop_bit 8 v; v = v OR drop_bit 16 v
      in v OR drop_bit 32 v)"

definition log2_table :: "int list" where
  "log2_table =
     [63,  0, 58,  1, 59, 47, 53,  2,
      60, 39, 48, 27, 54, 33, 42,  3,
      61, 51, 37, 40, 49, 18, 28, 20,
      55, 30, 34, 11, 43, 14, 22,  4,
      62, 57, 46, 52, 38, 26, 32, 41,
      50, 36, 17, 19, 29, 10, 13, 21,
      56, 45, 25, 31, 35, 16,  9, 12,
      44, 24, 15,  8, 23,  7,  6,  5]"

definition log2 :: "u64 \<Rightarrow> int" where
  "log2 v =
     (let v = smear v
      in log2_table ! unat (drop_bit 58 ((v - drop_bit 1 v) * 0x07EDD5E59A4E28C2)))"

definition next_power_of_two :: "u64 \<Rightarrow> u64" where
  "next_power_of_two i = (let i = i - 1; i = smear i in i + 1)"

section \<open>Smearing\<close>

definition smeared :: "nat \<Rightarrow> u64 \<Rightarrow> u64 \<Rightarrow> bool" where
  "smeared n v w \<longleftrightarrow> (\<forall>i. bit w i \<longleftrightarrow> (\<exists>j < n. bit v (i + j)))"

lemma smeared_step:
  assumes "smeared n v w" and m: "n + n = m"
  shows "smeared m v (w OR drop_bit n w)"
  unfolding smeared_def
proof
  fix i
  have upper: "bit w (n + i) \<longleftrightarrow> (\<exists>j < n. bit v (i + (n + j)))"
    using assms(1) by (simp add: smeared_def ac_simps)
  have "bit (w OR drop_bit n w) i \<longleftrightarrow> bit w i \<or> bit w (n + i)"
    by (simp add: bit_or_iff bit_drop_bit_eq)
  also have "\<dots> \<longleftrightarrow> (\<exists>j < n. bit v (i + j)) \<or> (\<exists>j < n. bit v (i + (n + j)))"
    using assms(1) upper by (simp add: smeared_def)
  also have "\<dots> \<longleftrightarrow> (\<exists>j < n + n. bit v (i + j))"
  proof
    assume "\<exists>j < n + n. bit v (i + j)"
    then obtain j where j: "j < n + n" "bit v (i + j)" by blast
    then show "(\<exists>j < n. bit v (i + j)) \<or> (\<exists>j < n. bit v (i + (n + j)))"
      by (cases "j < n") (auto intro: exI [of _ "j - n"])
  next
    assume "(\<exists>j < n. bit v (i + j)) \<or> (\<exists>j < n. bit v (i + (n + j)))"
    then show "\<exists>j < n + n. bit v (i + j)"
      by (elim disjE exE conjE) (meson trans_less_add1, metis add_less_cancel_left)
  qed
  finally show "bit (w OR drop_bit n w) i \<longleftrightarrow> (\<exists>j < m. bit v (i + j))" by (simp only: m)
qed

lemma smear_spec: "bit (smear v) i \<longleftrightarrow> (\<exists>j. bit v (i + j))"
proof -
  have "smeared 1 v v" by (simp add: smeared_def)
  note s2 = smeared_step [OF this, of 2]
  note s4 = smeared_step [OF s2, of 4]
  note s8 = smeared_step [OF s4, of 8]
  note s16 = smeared_step [OF s8, of 16]
  note s32 = smeared_step [OF s16, of 32]
  note s64 = smeared_step [OF s32, of 64]
  have "smeared 64 v (smear v)" unfolding smear_def Let_def by (rule s64) simp_all
  moreover have "j < 64" if "bit v (i + j)" for j
    using bit_imp_le_length [OF that] by simp
  ultimately show ?thesis by (auto simp: smeared_def)
qed

lemma top_bit:
  assumes "(v :: u64) \<noteq> 0"
  obtains k where "k < 64" "2 ^ k \<le> unat v" "unat v < 2 ^ (k + 1)" "\<And>i. bit (smear v) i \<longleftrightarrow> i \<le> k"
proof -
  have "1 \<le> unat v" using assms by (simp add: unat_gt_0 Suc_le_eq)
  then obtain k where k: "2 ^ k \<le> unat v" "unat v < 2 ^ (k + 1)"
    using ex_power_ivl1 [of 2 "unat v"] by auto
  have "2 ^ k < (2 :: nat) ^ 64" using k(1) unat_u64_less [of v] by (simp add: order_le_less_trans)
  then have lt: "k < 64" by (rule power_less_imp_less_exp [rotated]) simp
  have "unat v div 2 ^ k = 1" using k by (simp add: div_nat_eqI)
  then have "bit (unat v) k" by (simp add: bit_iff_odd)
  then have at: "bit v k" by (simp only: bit_unsigned_iff)
  have above: "\<not> bit v j" if "k < j" for j
  proof -
    have "(2 :: nat) ^ (k + 1) \<le> 2 ^ j" using that by (intro power_increasing) simp_all
    then have "unat v < 2 ^ j" using k(2) by simp
    then have "unat v div 2 ^ j = 0" by simp
    then have "\<not> bit (unat v) j" by (simp add: bit_iff_odd)
    then show ?thesis by (simp add: bit_unsigned_iff)
  qed
  have "bit (smear v) i \<longleftrightarrow> i \<le> k" for i
    unfolding smear_spec
  proof
    show "i \<le> k" if "\<exists>j. bit v (i + j)"
      using that above by (metis le_add1 not_less order_less_le_trans)
    show "\<exists>j. bit v (i + j)" if "i \<le> k"
      using that at by (intro exI [of _ "k - i"]) simp
  qed
  then show thesis using lt k by (intro that [of k])
qed

section \<open>The logarithm and the next power of two\<close>

lemma unat_u64_exp:
  assumes "k < 64"
  shows "unat ((2 :: u64) ^ k) = 2 ^ k"
proof -
  have "(2 :: nat) ^ k < 2 ^ 64" using assms by (intro power_strict_increasing) simp_all
  then have "unat (of_nat (2 ^ k) :: u64) = 2 ^ k" by (rule unat_of_nat_small)
  then show ?thesis by simp
qed

lemma log2_table_perfect:
  assumes "k < 64"
  shows "log2_table ! unat (drop_bit 58 ((2 ^ k :: u64) * 0x07EDD5E59A4E28C2)) = int k"
proof -
  let ?P = "\<lambda>k. log2_table ! (2 ^ k * 0x07EDD5E59A4E28C2 mod 18446744073709551616 div 288230376151711744) = int k"
  have "list_all ?P (0 # 1 # [2..<64])"
    by (simp add: upt_rec_numeral log2_table_def)
  moreover have "k \<in> set (0 # 1 # [2..<64])"
    unfolding list.set insert_iff set_upt atLeastLessThan_iff using assms by arith
  ultimately have "?P k" unfolding list_all_iff by (rule bspec)
  moreover have "unat (drop_bit 58 ((2 ^ k :: u64) * 0x07EDD5E59A4E28C2))
      = 2 ^ k * 0x07EDD5E59A4E28C2 mod 18446744073709551616 div 288230376151711744"
    by (simp add: drop_bit_eq_div unat_word_ariths unat_div unat_u64_exp [OF assms])
  ultimately show ?thesis by (simp only:)
qed

lemma smear_mask:
  assumes "(v :: u64) \<noteq> 0"
  obtains k where "k < 64" "2 ^ k \<le> unat v" "unat v < 2 ^ (k + 1)" "smear v = mask (k + 1)"
proof -
  obtain k where k: "k < 64" "2 ^ k \<le> unat v" "unat v < 2 ^ (k + 1)" "\<And>i. bit (smear v) i \<longleftrightarrow> i \<le> k"
    by (rule top_bit [OF assms]) blast
  have "smear v = mask (k + 1)"
  proof (rule bit_word_eqI)
    fix n assume "n < LENGTH(64)"
    then show "bit (smear v) n \<longleftrightarrow> bit (mask (k + 1) :: u64) n"
      unfolding k(4) bit_mask_iff by auto
  qed
  with k that show thesis by blast
qed

lemma mask_top:
  assumes "k < 64"
  shows "mask (k + 1) - drop_bit 1 (mask (k + 1)) = (2 ^ k :: u64)"
proof -
  have "drop_bit 1 (mask (k + 1)) = (mask k :: u64)"
  proof (rule bit_word_eqI)
    fix n assume "n < LENGTH(64)"
    show "bit (drop_bit 1 (mask (k + 1)) :: u64) n \<longleftrightarrow> bit (mask k :: u64) n"
      unfolding bit_drop_bit_eq comp_def bit_mask_iff using assms by auto
  qed
  moreover have "mask (k + 1) - mask k = (2 ^ k :: u64)"
    unfolding mask_eq_exp_minus_1 by (simp add: algebra_simps)
  ultimately show ?thesis by (simp only:)
qed

lemma log2_eq:
  assumes "v \<noteq> 0"
  obtains k where "k < 64" "2 ^ k \<le> unat v" "unat v < 2 ^ (k + 1)" "log2 v = int k"
proof -
  obtain k where k: "k < 64" "2 ^ k \<le> unat v" "unat v < 2 ^ (k + 1)" "smear v = mask (k + 1)"
    by (rule smear_mask [OF assms])
  have "log2 v = int k"
    unfolding log2_def Let_def k(4) mask_top [OF k(1)] by (rule log2_table_perfect [OF k(1)])
  with k that show thesis by blast
qed

text \<open>For a size up to \<open>2\<^sup>6\<^sup>3\<close> the next power of two is the least one not below it; above, it wraps to 0.\<close>

lemma next_power_of_two_spec:
  assumes "i \<noteq> 0"
  obtains k where "k \<le> 64" "unat i \<le> 2 ^ k" "2 ^ k < 2 * unat i" "next_power_of_two i = 2 ^ k"
proof (cases "i = 1")
  case True
  have "next_power_of_two 1 = 1" by code_simp
  with True that [of 0] show thesis by simp
next
  case False
  then have pred: "i - 1 \<noteq> 0" "unat (i - 1) = unat i - 1"
    using assms by (auto simp: unat_minus_one)
  obtain k where k: "k < 64" "2 ^ k \<le> unat (i - 1)" "unat (i - 1) < 2 ^ (k + 1)" "smear (i - 1) = mask (k + 1)"
    by (rule smear_mask [OF pred(1)])
  have "next_power_of_two i = 2 ^ (k + 1)"
    unfolding next_power_of_two_def Let_def k(4) mask_eq_exp_minus_1 by simp
  moreover have "unat i \<noteq> 0" using assms by (simp add: unat_eq_0)
  ultimately show thesis using that [of "k + 1"] k pred(2) by simp
qed

lemma next_power_of_two_in_range:
  assumes "0 < i" and "i \<le> 2 ^ 63"
  obtains k where "k < 64" "next_power_of_two i = 2 ^ k" "unat (next_power_of_two i) = 2 ^ k" "i \<le> next_power_of_two i"
    "next_power_of_two i \<le> 2 ^ 63"
proof -
  obtain k where k: "k \<le> 64" "unat i \<le> 2 ^ k" "2 ^ k < 2 * unat i" "next_power_of_two i = 2 ^ k"
    by (rule next_power_of_two_spec) (use assms(1) in auto)
  have "2 * unat i \<le> 2 ^ 64" using assms(2) by (simp add: word_le_nat_alt)
  then have "(2 :: nat) ^ k < 2 ^ 64" using k(3) by linarith
  then have lt: "k < 64" by (rule power_less_imp_less_exp [rotated]) simp
  then have "(2 :: nat) ^ k \<le> 2 ^ 63" by (intro power_increasing) simp_all
  then show thesis using that [OF lt k(4)] k(2,4) unat_u64_exp [OF lt] by (simp add: word_le_nat_alt)
qed

section \<open>Properties\<close>

text \<open>
  C31. The logarithm by table is the floor of the logarithm: for every size but 0, smearing
  the top bit, a multiplication and the table of 64 entries give \<open>\<lfloor>log\<^sub>2 v\<rfloor>\<close>, and 0, which no
  table is asked for, gives 63.
\<close>

theorem log2_correct: "log2 v = (if v = 0 then 63 else \<lfloor>log 2 (real (unat v))\<rfloor>)"
proof (cases "v = 0")
  case True
  have "log2 0 = 63" by code_simp
  with True show ?thesis by simp
next
  case False
  obtain k where k: "2 ^ k \<le> unat v" "unat v < 2 ^ (k + 1)" "log2 v = int k"
    by (rule log2_eq [OF False])
  have "\<lfloor>log (real 2) (real (unat v))\<rfloor> = int k"
    using k(1,2) by (intro floor_log_nat_eq_if) simp_all
  with False k(3) show ?thesis by simp
qed

text \<open>
  C32. \<^verbatim>\<open>next_power_of_two\<close> is the least power of two not below its argument, for arguments
  from 1 to \<open>2\<^sup>6\<^sup>3\<close>; the argument 0 and every larger one give 0, as the addition wraps.
\<close>

theorem next_power_of_two_correct:
  "unat (next_power_of_two i) =
     (if 1 \<le> unat i \<and> unat i \<le> 2 ^ 63 then (LEAST p. unat i \<le> p \<and> (\<exists>k. p = 2 ^ k)) else 0)"
proof (cases "i = 0")
  case True
  have "next_power_of_two 0 = 0" by code_simp
  with True show ?thesis by simp
next
  case False
  obtain k where k: "k \<le> 64" "unat i \<le> 2 ^ k" "2 ^ k < 2 * unat i" "next_power_of_two i = 2 ^ k"
    by (rule next_power_of_two_spec [OF False])
  have pos: "1 \<le> unat i" using False by (simp add: unat_gt_0 Suc_le_eq)
  show ?thesis
  proof (cases "k = 64")
    case True
    have "(2 :: u64) ^ 64 = 0" by (rule exp_eq_zero_iff [THEN iffD2]) simp
    moreover have "\<not> unat i \<le> 2 ^ 63" using k(3) True by simp
    ultimately show ?thesis using k(4) True by simp
  next
    case False
    then have lt: "k < 64" using k(1) by simp
    have "(2 :: nat) ^ k \<le> 2 ^ 63" using lt by (intro power_increasing) simp_all
    then have "unat i \<le> 2 ^ 63" using k(2) by simp
    moreover have "(LEAST p. unat i \<le> p \<and> (\<exists>k. p = 2 ^ k)) = 2 ^ k"
    proof (rule Least_equality)
      show "unat i \<le> 2 ^ k \<and> (\<exists>j. (2 :: nat) ^ k = 2 ^ j)" using k(2) by blast
    next
      fix p assume p: "unat i \<le> p \<and> (\<exists>j. p = 2 ^ j)"
      then obtain j where j: "unat i \<le> p" "p = 2 ^ j" by blast
      then have "(2 :: nat) ^ k < 2 ^ (j + 1)" using k(3) by simp
      then have "k < j + 1" by (rule power_less_imp_less_exp [rotated]) simp
      then show "2 ^ k \<le> p" unfolding j(2) by (intro power_increasing) simp_all
    qed
    ultimately show ?thesis using pos k(4) unat_u64_exp [OF lt] by simp
  qed
qed

end
