(* ===== verification/HashPolicy.thy ===== *)
theory HashPolicy
  imports HashBits
begin

text \<open>
  The hash policies of \<^verbatim>\<open>src/usockets-tcp/flat_hash_map.h\<close>: how a table size is chosen and how a
  hash selects a slot. \<open>slot_policy\<close> is the interface the table relies on; the three policies of
  the source are its interpretations, and \<open>hash_policy\<close> is the one member of the table that
  \<^verbatim>\<open>HashPolicySelector\<close> gives one of the three types.
\<close>

section \<open>The interface\<close>

text \<open>
  For requests up to \<open>2\<^sup>6\<^sup>3\<close> a size is at least the request and leaves room for the overflow
  slots in 64 bits, and the index for a committed size is a slot of the table. A policy that has
  been reset sends every hash to slot 0 or 1 of the table of \<^verbatim>\<open>empty_default_table\<close>.
\<close>

locale slot_policy =
  fixes next_size :: "u64 \<Rightarrow> u64 \<times> 'c"
    and commit :: "'c \<Rightarrow> 's \<Rightarrow> 's"
    and reset :: "'s \<Rightarrow> 's"
    and index :: "'s \<Rightarrow> u64 \<Rightarrow> u64 \<Rightarrow> u64"
    and keep :: "'s \<Rightarrow> u64 \<Rightarrow> u64 \<Rightarrow> u64"
  assumes size_fits: "0 < n \<Longrightarrow> n \<le> 2 ^ 63 \<Longrightarrow> next_size n = (sz, c) \<Longrightarrow> n \<le> sz \<and> sz \<le> 14480561146010017169"
    and index_fits: "0 < n \<Longrightarrow> n \<le> 2 ^ 63 \<Longrightarrow> next_size n = (sz, c) \<Longrightarrow> index (commit c s) h (sz - 1) \<le> sz - 1"
    and keep_fits: "0 < n \<Longrightarrow> n \<le> 2 ^ 63 \<Longrightarrow> next_size n = (sz, c) \<Longrightarrow> keep (commit c s) i (sz - 1) \<le> sz - 1"
    and reset_index: "index (reset s) h 0 \<le> 1"
begin

lemma index_less:
  assumes "0 < n" and "n \<le> 2 ^ 63" and "next_size n = (sz, c)"
  shows "unat (index (commit c s) h (sz - 1)) < unat sz"
proof -
  have "sz \<noteq> 0" using size_fits [OF assms] assms(1) by auto
  then have "sz - 1 < sz" by (simp add: word_less_nat_alt unat_minus_one unat_gt_0)
  with index_fits [OF assms, of s h] show ?thesis by (simp add: word_le_nat_alt word_less_nat_alt)
qed

end

section \<open>\<^verbatim>\<open>power_of_two_hash_policy\<close>\<close>

text \<open>It has no member; the value \<^verbatim>\<open>next_size_over\<close> returns is ignored by \<^verbatim>\<open>commit\<close>.\<close>

definition pow2_index_for_hash :: "unit \<Rightarrow> u64 \<Rightarrow> u64 \<Rightarrow> u64" where
  "pow2_index_for_hash s hash num_slots_minus_one = hash AND num_slots_minus_one"

definition pow2_keep_in_range :: "unit \<Rightarrow> u64 \<Rightarrow> u64 \<Rightarrow> u64" where
  "pow2_keep_in_range s index num_slots_minus_one = pow2_index_for_hash s index num_slots_minus_one"

definition pow2_next_size_over :: "u64 \<Rightarrow> u64 \<times> int" where
  "pow2_next_size_over sz = (next_power_of_two sz, 0)"

definition pow2_commit :: "int \<Rightarrow> unit \<Rightarrow> unit" where
  "pow2_commit c s = s"

definition pow2_reset :: "unit \<Rightarrow> unit" where
  "pow2_reset s = s"

lemma below_limit: "(n :: u64) \<le> 2 ^ 63 \<Longrightarrow> n \<le> 14480561146010017169"
  by (erule order_trans) simp

lemma and_le: "(a AND b :: u64) \<le> b"
  by (metis AND_upper2 uint_ge_0 uint_and word_le_def)

interpretation pow2: slot_policy pow2_next_size_over pow2_commit pow2_reset pow2_index_for_hash pow2_keep_in_range
proof
  fix n sz :: u64 and c assume n: "0 < n" "n \<le> 2 ^ 63" "pow2_next_size_over n = (sz, c)"
  have "sz = next_power_of_two n" using n(3) by (simp add: pow2_next_size_over_def)
  then have "n \<le> sz" "sz \<le> 2 ^ 63"
    by (auto intro: next_power_of_two_in_range [OF n(1,2)])
  then show "n \<le> sz \<and> sz \<le> 14480561146010017169" by (simp add: below_limit)
qed (simp_all add: pow2_index_for_hash_def pow2_keep_in_range_def and_le)

section \<open>\<^verbatim>\<open>fibonacci_hash_policy\<close>\<close>

text \<open>The member \<^verbatim>\<open>shift\<close>, an \<^verbatim>\<open>int8_t\<close>, is an integer; it stays between 1 and 63.\<close>

definition fib_index_for_hash :: "int \<Rightarrow> u64 \<Rightarrow> u64 \<Rightarrow> u64" where
  "fib_index_for_hash shift hash num_slots_minus_one = drop_bit (nat shift) (11400714819323198485 * hash)"

definition fib_keep_in_range :: "int \<Rightarrow> u64 \<Rightarrow> u64 \<Rightarrow> u64" where
  "fib_keep_in_range shift index num_slots_minus_one = index AND num_slots_minus_one"

definition fib_next_size_over :: "u64 \<Rightarrow> u64 \<times> int" where
  "fib_next_size_over sz = (let sz = max 2 (next_power_of_two sz) in (sz, 64 - log2 sz))"

definition fib_commit :: "int \<Rightarrow> int \<Rightarrow> int" where
  "fib_commit shift old = shift"

definition fib_reset :: "int \<Rightarrow> int" where
  "fib_reset old = 63"

lemma fib_size:
  assumes "0 < n" and "n \<le> 2 ^ 63" and "fib_next_size_over n = (sz, c)"
  obtains k where "0 < k" "k < 64" "unat sz = 2 ^ k" "c = 64 - int k" "n \<le> sz" "sz \<le> 2 ^ 63"
proof -
  obtain j where j: "j < 64" "next_power_of_two n = 2 ^ j" "unat (next_power_of_two n) = 2 ^ j"
    "n \<le> next_power_of_two n" "next_power_of_two n \<le> 2 ^ 63"
    by (rule next_power_of_two_in_range [OF assms(1,2)])
  have sz: "sz = max 2 (next_power_of_two n)" and c: "c = 64 - log2 sz"
    using assms(3) by (auto simp: fib_next_size_over_def Let_def)
  define k where "k = max 1 j"
  have k: "0 < k" "k < 64" using j(1) by (simp_all add: k_def)
  have exp: "unat sz = 2 ^ k"
  proof (cases "j = 0")
    case True
    then show ?thesis using j(2) by (simp add: sz k_def max_def word_le_nat_alt)
  next
    case False
    then have "(2 :: nat) ^ 1 \<le> 2 ^ j" by (intro power_increasing) simp_all
    with False show ?thesis using j(3) by (simp add: sz k_def max_def word_le_nat_alt)
  qed
  then have "sz \<noteq> 0" by auto
  then obtain i where i: "2 ^ i \<le> unat sz" "unat sz < 2 ^ (i + 1)" "log2 sz = int i"
    by (rule log2_eq)
  have "i \<le> k" using i(1) unfolding exp by (rule power_le_imp_le_exp [rotated]) simp
  moreover have "k < i + 1" using i(2) unfolding exp by (rule power_less_imp_less_exp [rotated]) simp
  ultimately have "c = 64 - int k" using i(3) c by simp
  moreover have "n \<le> sz" "sz \<le> 2 ^ 63" using j(4,5) by (auto simp: sz le_max_iff_disj)
  ultimately show thesis using k exp by (intro that)
qed

lemma drop_bit_index:
  assumes "k < 64"
  shows "unat (drop_bit (64 - k) (w :: u64)) < 2 ^ k"
proof -
  have "unat w < 2 ^ (64 - k + k)" using assms unat_u64_less [of w] by simp
  then have "unat w div 2 ^ (64 - k) < 2 ^ k" by (simp add: power_add less_mult_imp_div_less mult.commute)
  then show ?thesis by (cases "k = 0") (simp_all add: drop_bit_eq_div unat_div unat_u64_exp)
qed

interpretation fib: slot_policy fib_next_size_over fib_commit fib_reset fib_index_for_hash fib_keep_in_range
proof
  fix n sz :: u64 and c s :: int and h :: u64
  assume n: "0 < n" "n \<le> 2 ^ 63" "fib_next_size_over n = (sz, c)"
  obtain k where k: "0 < k" "k < 64" "unat sz = 2 ^ k" "c = 64 - int k" "n \<le> sz" "sz \<le> 2 ^ 63"
    by (rule fib_size [OF n])
  show "n \<le> sz \<and> sz \<le> 14480561146010017169" using k(5,6) by (simp add: below_limit)
  have "unat (drop_bit (64 - k) (11400714819323198485 * h)) < 2 ^ k" by (rule drop_bit_index [OF k(2)])
  moreover have "nat c = 64 - k" using k(2,4) by simp
  moreover have "sz \<noteq> 0" using k(3) by auto
  ultimately show "fib_index_for_hash (fib_commit c s) h (sz - 1) \<le> sz - 1"
    using k(3) by (simp add: fib_index_for_hash_def fib_commit_def word_le_nat_alt unat_minus_one)
next
  fix s :: int and h :: u64
  have "unat (drop_bit (64 - 1) (11400714819323198485 * h)) < 2 ^ 1" by (rule drop_bit_index) simp
  then show "fib_index_for_hash (fib_reset s) h 0 \<le> 1"
    by (simp add: fib_index_for_hash_def fib_reset_def word_le_nat_alt)
qed (simp add: fib_keep_in_range_def and_le)

section \<open>\<^verbatim>\<open>prime_number_hash_policy\<close>\<close>

text \<open>
  A member function \<^verbatim>\<open>mod\<close>\<open>p\<close> is named by its modulus; \<^verbatim>\<open>mod0\<close> is the constant 0. The two tables
  are transcribed one after the other, as the source has them.
\<close>

definition mod_function :: "u64 \<Rightarrow> u64 \<Rightarrow> u64" where
  "mod_function p hash = (if p = 0 then 0 else hash mod p)"

definition prime_list :: "u64 list" where
  "prime_list = [
     2, 3, 5, 7, 11, 13, 17, 23, 29, 37, 47, 59, 73, 97, 127, 151, 197, 251, 313, 397, 499, 631,
     797, 1009, 1259, 1597, 2011, 2539, 3203, 4027, 5087, 6421, 8089, 10193, 12853, 16193, 20399,
     25717, 32401, 40823, 51437, 64811, 81649, 102877, 129607, 163307, 205759, 259229, 326617,
     411527, 518509, 653267, 823117, 1037059, 1306601, 1646237, 2074129, 2613229, 3292489,
     4148279, 5226491, 6584983, 8296553, 10453007, 13169977, 16593127, 20906033, 26339969,
     33186281, 41812097, 52679969, 66372617, 83624237, 105359939, 132745199, 167248483,
     210719881, 265490441, 334496971, 421439783, 530980861, 668993977, 842879579, 1061961721,
     1337987929, 1685759167, 2123923447, 2675975881, 3371518343, 4247846927, 5351951779,
     6743036717, 8495693897, 10703903591, 13486073473, 16991387857, 21407807219, 26972146961,
     33982775741, 42815614441, 53944293929, 67965551447, 85631228929, 107888587883, 135931102921,
     171262457903, 215777175787, 271862205833, 342524915839, 431554351609, 543724411781,
     685049831731, 863108703229, 1087448823553, 1370099663459, 1726217406467, 2174897647073,
     2740199326961, 3452434812973, 4349795294267, 5480398654009, 6904869625999, 8699590588571,
     10960797308051, 13809739252051, 17399181177241, 21921594616111, 27619478504183,
     34798362354533, 43843189232363, 55238957008387, 69596724709081, 87686378464759,
     110477914016779, 139193449418173, 175372756929481, 220955828033581, 278386898836457,
     350745513859007, 441911656067171, 556773797672909, 701491027718027, 883823312134381,
     1113547595345903, 1402982055436147, 1767646624268779, 2227095190691797, 2805964110872297,
     3535293248537579, 4454190381383713, 5611928221744609, 7070586497075177, 8908380762767489,
     11223856443489329, 14141172994150357, 17816761525534927, 22447712886978529,
     28282345988300791, 35633523051069991, 44895425773957261, 56564691976601587,
     71267046102139967, 89790851547914507, 113129383953203213, 142534092204280003,
     179581703095829107, 226258767906406483, 285068184408560057, 359163406191658253,
     452517535812813007, 570136368817120201, 718326812383316683, 905035071625626043,
     1140272737634240411, 1436653624766633509, 1810070143251252131, 2280545475268481167,
     2873307249533267101, 3620140286502504283, 4561090950536962147, 5746614499066534157,
     7240280573005008577, 9122181901073924329, 11493228998133068689, 14480561146010017169,
     18446744073709551557]"

definition mod_functions :: "u64 list" where
  "mod_functions = [
     0, 2, 3, 5, 7, 11, 13, 17, 23, 29, 37, 47, 59, 73, 97, 127, 151, 197, 251, 313, 397, 499,
     631, 797, 1009, 1259, 1597, 2011, 2539, 3203, 4027, 5087, 6421, 8089, 10193, 12853, 16193,
     20399, 25717, 32401, 40823, 51437, 64811, 81649, 102877, 129607, 163307, 205759, 259229,
     326617, 411527, 518509, 653267, 823117, 1037059, 1306601, 1646237, 2074129, 2613229,
     3292489, 4148279, 5226491, 6584983, 8296553, 10453007, 13169977, 16593127, 20906033,
     26339969, 33186281, 41812097, 52679969, 66372617, 83624237, 105359939, 132745199, 167248483,
     210719881, 265490441, 334496971, 421439783, 530980861, 668993977, 842879579, 1061961721,
     1337987929, 1685759167, 2123923447, 2675975881, 3371518343, 4247846927, 5351951779,
     6743036717, 8495693897, 10703903591, 13486073473, 16991387857, 21407807219, 26972146961,
     33982775741, 42815614441, 53944293929, 67965551447, 85631228929, 107888587883, 135931102921,
     171262457903, 215777175787, 271862205833, 342524915839, 431554351609, 543724411781,
     685049831731, 863108703229, 1087448823553, 1370099663459, 1726217406467, 2174897647073,
     2740199326961, 3452434812973, 4349795294267, 5480398654009, 6904869625999, 8699590588571,
     10960797308051, 13809739252051, 17399181177241, 21921594616111, 27619478504183,
     34798362354533, 43843189232363, 55238957008387, 69596724709081, 87686378464759,
     110477914016779, 139193449418173, 175372756929481, 220955828033581, 278386898836457,
     350745513859007, 441911656067171, 556773797672909, 701491027718027, 883823312134381,
     1113547595345903, 1402982055436147, 1767646624268779, 2227095190691797, 2805964110872297,
     3535293248537579, 4454190381383713, 5611928221744609, 7070586497075177, 8908380762767489,
     11223856443489329, 14141172994150357, 17816761525534927, 22447712886978529,
     28282345988300791, 35633523051069991, 44895425773957261, 56564691976601587,
     71267046102139967, 89790851547914507, 113129383953203213, 142534092204280003,
     179581703095829107, 226258767906406483, 285068184408560057, 359163406191658253,
     452517535812813007, 570136368817120201, 718326812383316683, 905035071625626043,
     1140272737634240411, 1436653624766633509, 1810070143251252131, 2280545475268481167,
     2873307249533267101, 3620140286502504283, 4561090950536962147, 5746614499066534157,
     7240280573005008577, 9122181901073924329, 11493228998133068689, 14480561146010017169,
     18446744073709551557]"

text \<open>
  \<^verbatim>\<open>std::lower_bound\<close> over all primes but the greatest: the position of the first one that is
  not less than the size, or of the greatest.
\<close>

definition prime_next_size_over :: "u64 \<Rightarrow> u64 \<times> u64" where
  "prime_next_size_over sz =
     (let found = length (takeWhile (\<lambda>p. p < sz) (butlast prime_list))
      in (prime_list ! found, mod_functions ! (1 + found)))"

definition prime_commit :: "u64 \<Rightarrow> u64 \<Rightarrow> u64" where
  "prime_commit new_mod_function old = new_mod_function"

definition prime_reset :: "u64 \<Rightarrow> u64" where
  "prime_reset old = 0"

definition prime_index_for_hash :: "u64 \<Rightarrow> u64 \<Rightarrow> u64 \<Rightarrow> u64" where
  "prime_index_for_hash current_mod_function hash num_slots_minus_one = mod_function current_mod_function hash"

definition prime_keep_in_range :: "u64 \<Rightarrow> u64 \<Rightarrow> u64 \<Rightarrow> u64" where
  "prime_keep_in_range current_mod_function index num_slots_minus_one =
     (if num_slots_minus_one < index then mod_function current_mod_function index else index)"


lemma mod_functions_shifted: "mod_functions = 0 # prime_list"
  by (simp only: mod_functions_def prime_list_def)

lemma prime_list_sorted: "sorted_wrt (<) prime_list"
proof -
  have "successively (<) prime_list" by (simp add: prime_list_def)
  then show ?thesis by (simp add: successively_iff_sorted_wrt_strong)
qed

lemma prime_list_ends: "butlast prime_list \<noteq> []" "last prime_list = 18446744073709551557"
    "last (butlast prime_list) = 14480561146010017169" "prime_list \<noteq> []" "hd prime_list = 2"
  by (simp_all only: prime_list_def butlast.simps last.simps list.sel list.distinct list.simps if_False if_True simp_thms)

lemma prime_next_size:
  assumes "prime_next_size_over n = (sz, m)"
  shows "m = sz" and "2 \<le> sz" and "n \<le> 14480561146010017169 \<Longrightarrow> n \<le> sz \<and> sz \<le> 14480561146010017169"
proof -
  let ?ps = "butlast prime_list"
  define i where "i = length (takeWhile (\<lambda>p. p < n) ?ps)"
  have sz: "sz = prime_list ! i" and m: "m = mod_functions ! Suc i"
    using assms by (simp_all add: prime_next_size_over_def i_def [symmetric] Let_def)
  show "m = sz" by (simp add: sz m mod_functions_shifted)
  have i: "i \<le> length ?ps" "i < length prime_list"
    using length_takeWhile_le [of "\<lambda>p. p < n" ?ps] prime_list_ends(4) by (simp_all add: i_def length_takeWhile_le order_le_less_trans)
  show "2 \<le> sz"
  proof (cases i)
    case 0
    then show ?thesis using prime_list_ends(4,5) by (simp add: sz hd_conv_nth)
  next
    case (Suc j)
    then have "prime_list ! 0 < prime_list ! i" using prime_list_sorted i(2) by (simp add: sorted_wrt_nth_less)
    then show ?thesis using prime_list_ends(4,5) by (simp add: sz hd_conv_nth)
  qed
  assume n: "n \<le> 14480561146010017169"
  have lt: "i < length ?ps"
  proof (rule ccontr)
    assume "\<not> i < length ?ps"
    then have "takeWhile (\<lambda>p. p < n) ?ps = ?ps"
      using i(1) takeWhile_eq_take [of "\<lambda>p. p < n" ?ps] by (simp add: i_def)
    then have "last ?ps < n" using prime_list_ends(1) by (metis last_in_set set_takeWhileD)
    with n prime_list_ends(3) show False by simp
  qed
  then have "?ps ! i \<ge> n" using nth_length_takeWhile [of "\<lambda>p. p < n" ?ps] by (simp add: i_def)
  moreover have sz': "sz = ?ps ! i" using lt by (simp add: sz nth_butlast)
  moreover have "?ps ! i \<le> last ?ps"
  proof (cases "i = length ?ps - 1")
    case True
    then show ?thesis using prime_list_ends(1) by (simp add: last_conv_nth)
  next
    case False
    then have "i < length ?ps - 1" "length ?ps - 1 < length prime_list" using lt by simp_all
    then have "prime_list ! i < prime_list ! (length ?ps - 1)" using prime_list_sorted by (rule sorted_wrt_nth_less [rotated 1])
    then show ?thesis using prime_list_ends(1) lt by (simp add: last_conv_nth nth_butlast)
  qed
  ultimately show "n \<le> sz \<and> sz \<le> 14480561146010017169" by (simp add: prime_list_ends(3))
qed

lemma mod_function_le:
  assumes "p \<noteq> 0"
  shows "mod_function p h \<le> p - 1"
proof -
  have "0 < unat p" using assms by (simp add: unat_gt_0)
  then have "unat h mod unat p \<le> unat p - 1" by (metis Suc_pred' less_Suc_eq_le mod_less_divisor)
  then show ?thesis using assms by (simp add: mod_function_def word_le_nat_alt unat_minus_one unat_mod)
qed

interpretation prime: slot_policy prime_next_size_over prime_commit prime_reset prime_index_for_hash prime_keep_in_range
proof
  fix n sz c s h :: u64
  assume n: "0 < n" "n \<le> 2 ^ 63" "prime_next_size_over n = (sz, c)"
  have "n \<le> 14480561146010017169" using n(2) by (rule below_limit)
  then show "n \<le> sz \<and> sz \<le> 14480561146010017169" by (rule prime_next_size(3) [OF n(3)])
  have "sz \<noteq> 0" "c = sz" using prime_next_size(1,2) [OF n(3)] by auto
  then show "prime_index_for_hash (prime_commit c s) h (sz - 1) \<le> sz - 1"
    and "prime_keep_in_range (prime_commit c s) h (sz - 1) \<le> sz - 1"
    by (auto simp: prime_index_for_hash_def prime_keep_in_range_def prime_commit_def mod_function_le not_less)
qed (simp add: prime_index_for_hash_def prime_reset_def mod_function_def)

section \<open>The policy of a table\<close>

text \<open>
  The member \<^verbatim>\<open>hash_policy\<close> of a table, of the type that \<^verbatim>\<open>HashPolicySelector\<close> chose: the
  constructor says which, its argument is the state. What \<^verbatim>\<open>next_size_over\<close> returns for
  \<^verbatim>\<open>commit\<close> is tagged in the same way.
\<close>

datatype hash_policy = Fibonacci int | PowerOfTwo | PrimeNumber u64

fun next_size_over :: "hash_policy \<Rightarrow> u64 \<Rightarrow> u64 \<times> hash_policy" where
  "next_size_over (Fibonacci s) n = apsnd Fibonacci (fib_next_size_over n)"
| "next_size_over PowerOfTwo n = apsnd (\<lambda>_. PowerOfTwo) (pow2_next_size_over n)"
| "next_size_over (PrimeNumber s) n = apsnd PrimeNumber (prime_next_size_over n)"

fun commit :: "hash_policy \<Rightarrow> hash_policy \<Rightarrow> hash_policy" where
  "commit (Fibonacci c) (Fibonacci s) = Fibonacci (fib_commit c s)"
| "commit (PrimeNumber c) (PrimeNumber s) = PrimeNumber (prime_commit c s)"
| "commit c s = s"

fun reset_policy :: "hash_policy \<Rightarrow> hash_policy" where
  "reset_policy (Fibonacci s) = Fibonacci (fib_reset s)"
| "reset_policy PowerOfTwo = PowerOfTwo"
| "reset_policy (PrimeNumber s) = PrimeNumber (prime_reset s)"

fun index_for_hash :: "hash_policy \<Rightarrow> u64 \<Rightarrow> u64 \<Rightarrow> u64" where
  "index_for_hash (Fibonacci s) h m = fib_index_for_hash s h m"
| "index_for_hash PowerOfTwo h m = pow2_index_for_hash () h m"
| "index_for_hash (PrimeNumber s) h m = prime_index_for_hash s h m"

fun keep_in_range :: "hash_policy \<Rightarrow> u64 \<Rightarrow> u64 \<Rightarrow> u64" where
  "keep_in_range (Fibonacci s) i m = fib_keep_in_range s i m"
| "keep_in_range PowerOfTwo i m = pow2_keep_in_range () i m"
| "keep_in_range (PrimeNumber s) i m = prime_keep_in_range s i m"

lemma policy_size:
  assumes "0 < n" and "n \<le> 2 ^ 63" and "next_size_over p n = (sz, c)"
  shows "n \<le> sz" and "sz \<le> 14480561146010017169"
  using assms fib.size_fits [OF assms(1,2)] pow2.size_fits [OF assms(1,2)] prime.size_fits [OF assms(1,2)]
  by (cases p; cases "fib_next_size_over n"; cases "pow2_next_size_over n"; cases "prime_next_size_over n"; auto)+

lemma policy_index:
  assumes "0 < n" and "n \<le> 2 ^ 63" and "next_size_over p n = (sz, c)"
  shows "unat (index_for_hash (commit c p) h (sz - 1)) < unat sz"
  using assms(3) fib.index_less [OF assms(1,2)] pow2.index_less [OF assms(1,2)] prime.index_less [OF assms(1,2)]
  by (cases p; cases "fib_next_size_over n"; cases "pow2_next_size_over n"; cases "prime_next_size_over n")
    (auto simp: pow2_commit_def)

lemma policy_keep:
  assumes "0 < n" and "n \<le> 2 ^ 63" and "next_size_over p n = (sz, c)"
  shows "keep_in_range (commit c p) i (sz - 1) \<le> sz - 1"
  using assms(3) fib.keep_fits [OF assms(1,2)] pow2.keep_fits [OF assms(1,2)] prime.keep_fits [OF assms(1,2)]
  by (cases p; cases "fib_next_size_over n"; cases "pow2_next_size_over n"; cases "prime_next_size_over n")
    (auto simp: pow2_commit_def)

lemma policy_reset_index: "index_for_hash (reset_policy p) h 0 \<le> 1"
  using fib.reset_index pow2.reset_index prime.reset_index by (cases p) (auto simp: pow2_reset_def)

section \<open>Properties\<close>

text \<open>
  A table never leaves its slots: under each of the three policies, for every size asked
  for between 1 and \<open>2\<^sup>6\<^sup>3\<close>, the size chosen is no smaller, and once it is committed every hash
  has its home in one of that many slots, and \<^verbatim>\<open>keep_in_range\<close> stays in them.
\<close>

theorem hash_policy_in_range:
  assumes "1 \<le> n" and "n \<le> 2 ^ 63" and "next_size_over p n = (sz, c)"
  shows "n \<le> sz \<and> index_for_hash (commit c p) h (sz - 1) < sz \<and> keep_in_range (commit c p) i (sz - 1) < sz"
proof -
  have n: "0 < n" using assms(1) by (simp add: word_le_nat_alt word_less_nat_alt)
  have "index_for_hash (commit c p) h (sz - 1) < sz"
    using policy_index [OF n assms(2,3)] by (simp add: word_less_nat_alt)
  moreover from this have "sz - 1 < sz"
    by (cases "sz = 0") (simp_all add: word_less_nat_alt unat_minus_one unat_gt_0)
  moreover have "keep_in_range (commit c p) i (sz - 1) < sz"
    using policy_keep [OF n assms(2,3), of i] \<open>sz - 1 < sz\<close> by (rule order_le_less_trans)
  ultimately show ?thesis using policy_size(1) [OF n assms(2,3)] by simp
qed

theorem hash_policy_in_range_witness:
  "\<exists>sz c. next_size_over (Fibonacci 63) 100 = (sz, c) \<and> 100 \<le> sz
     \<and> index_for_hash (commit c (Fibonacci 63)) 12345 (sz - 1) < sz"
proof -
  obtain sz c where "next_size_over (Fibonacci 63) 100 = (sz, c)" by fastforce
  with hash_policy_in_range [OF _ _ this, of 12345 0] show ?thesis by simp
qed

text \<open>
  The prime policy chooses the least prime of its list that is not less than the request,
  and \<^verbatim>\<open>commit\<close> gets the function that reduces modulo that prime.
\<close>

theorem prime_size_least:
  assumes "n \<le> 14480561146010017169"
  shows "\<exists>sz. prime_next_size_over n = (sz, sz) \<and> sz \<in> set prime_list \<and> n \<le> sz
     \<and> (\<forall>q \<in> set prime_list. n \<le> q \<longrightarrow> sz \<le> q)
     \<and> prime_index_for_hash (prime_commit sz s) h (sz - 1) = h mod sz"
proof -
  define i where "i = length (takeWhile (\<lambda>p. p < n) (butlast prime_list))"
  obtain sz m where eq: "prime_next_size_over n = (sz, m)" by fastforce
  note sz = prime_next_size [OF eq]
  have at: "sz = prime_list ! i" using eq by (simp add: prime_next_size_over_def Let_def i_def)
  have i: "i < length prime_list"
    using length_takeWhile_le [of "\<lambda>p. p < n" "butlast prime_list"] prime_list_ends(4)
    by (simp add: i_def order_le_less_trans)
  have "sz \<le> q" if q: "q \<in> set prime_list" "n \<le> q" for q
  proof -
    obtain j where j: "j < length prime_list" "q = prime_list ! j" using q(1) by (auto simp: in_set_conv_nth)
    have "\<not> j < i"
    proof
      assume "j < i"
      then have "takeWhile (\<lambda>p. p < n) (butlast prime_list) ! j < n"
        unfolding i_def using nth_mem set_takeWhileD by fastforce
      moreover have "takeWhile (\<lambda>p. p < n) (butlast prime_list) ! j = q"
        using \<open>j < i\<close> j length_takeWhile_le [of "\<lambda>p. p < n" "butlast prime_list"]
        by (simp add: takeWhile_nth i_def nth_butlast)
      ultimately show False using q(2) by simp
    qed
    then show ?thesis using sorted_wrt_nth_less [OF prime_list_sorted, of i j] j at by (cases "i = j") auto
  qed
  moreover have "sz \<in> set prime_list" using at i by simp
  moreover have "sz \<noteq> 0" using sz(2) by auto
  ultimately show ?thesis
    using eq sz(1) sz(3) [OF assms] by (auto simp: prime_index_for_hash_def prime_commit_def mod_function_def)
qed

theorem prime_size_least_witness: "\<exists>sz. prime_next_size_over 5000 = (sz, sz) \<and> sz \<le> 5087 \<and> 5000 \<le> sz"
proof -
  have "(5087 :: u64) \<in> set prime_list" by (simp add: prime_list_def)
  moreover obtain sz where "prime_next_size_over 5000 = (sz, sz)" "5000 \<le> sz"
      "\<forall>q \<in> set prime_list. 5000 \<le> q \<longrightarrow> sz \<le> q"
    using prime_size_least [of 5000 0 0] by auto
  ultimately show ?thesis by auto
qed

end
