(* ===== verification/HashEntries.thy ===== *)
theory HashEntries
  imports Prelude "HOL-Library.Multiset"
begin

text \<open>
  The array of entries of the hash map, \<^verbatim>\<open>src/usockets-tcp/flat_hash_map.h\<close>, and the loops that
  run over it: probing, displacement, the backward shift after an erasure, iteration. \<open>robin\<close> is
  the order the loops rely on: an entry is as far from its home as its distance says, and a
  distance grows by at most one from an entry to the next, so that a search may stop at the first
  entry that is closer to its home than the search is.
\<close>

section \<open>Entries\<close>

text \<open>
  \<^verbatim>\<open>sherwood_v3_entry\<close>: the union is an option, \<open>None\<close> when no value has been constructed in it.
  A distance, an \<^verbatim>\<open>int8_t\<close>, is an integer; in a table it is at most 62.
\<close>

record 't entry =
  distance_from_desired :: int
  entry_value :: "'t option"

definition min_lookups :: int where
  "min_lookups = 4"

definition special_end_value :: int where
  "special_end_value = 0"

definition empty_entry :: "'t entry" where
  "empty_entry = \<lparr>distance_from_desired = -1, entry_value = None\<rparr>"

definition end_entry :: "'t entry" where
  "end_entry = \<lparr>distance_from_desired = special_end_value, entry_value = None\<rparr>"

definition empty_default_table :: "'t entry list" where
  "empty_default_table = [empty_entry, empty_entry, empty_entry, end_entry]"

definition has_value :: "'t entry \<Rightarrow> bool" where
  "has_value c \<longleftrightarrow> 0 \<le> distance_from_desired c"

definition is_empty_entry :: "'t entry \<Rightarrow> bool" where
  "is_empty_entry c \<longleftrightarrow> distance_from_desired c < 0"

definition is_at_desired_position :: "'t entry \<Rightarrow> bool" where
  "is_at_desired_position c \<longleftrightarrow> distance_from_desired c \<le> 0"

definition entry_emplace :: "int \<Rightarrow> 't \<Rightarrow> 't entry \<Rightarrow> 't entry" where
  "entry_emplace d v c = c\<lparr>distance_from_desired := d, entry_value := Some v\<rparr>"

definition the_value :: "'t entry \<Rightarrow> 't result" where
  "the_value c = (case entry_value c of None \<Rightarrow> Inl DeadObject | Some v \<Rightarrow> Inr v)"

definition destroy_value :: "'t entry \<Rightarrow> 't entry result" where
  "destroy_value c =
     bindE (the_value c) (\<lambda>_. Inr (c\<lparr>distance_from_desired := -1, entry_value := None\<rparr>))"

definition entry_at :: "'t entry list \<Rightarrow> nat \<Rightarrow> 't entry result" where
  "entry_at cs p = (if p < length cs then Inr (cs ! p) else Inl OutOfBoundsRead)"

lemmas entry_defs = empty_entry_def end_entry_def special_end_value_def has_value_def is_empty_entry_def
  is_at_desired_position_def entry_emplace_def the_value_def destroy_value_def entry_at_def

section \<open>The loops\<close>

lemma bindE_cong [fundef_cong]:
  "r = r' \<Longrightarrow> (\<And>x. r' = Inr x \<Longrightarrow> f x = g x) \<Longrightarrow> bindE r f = bindE r' g"
  by (cases r') auto

lemma entry_at_bound: "entry_at cs p = Inr c \<Longrightarrow> p < length cs"
  by (simp add: entry_at_def split: if_splits)

text \<open>
  The loop that \<^verbatim>\<open>find\<close> and \<^verbatim>\<open>emplace\<close> share. The result is the position where it stopped, the
  distance there, and whether the key was found.
\<close>

function probe :: "('t \<Rightarrow> 'k) \<Rightarrow> 'k \<Rightarrow> 't entry list \<Rightarrow> nat \<Rightarrow> int \<Rightarrow> (nat \<times> int \<times> bool) result" where
  "probe key_of k cs p d =
     bindE (entry_at cs p) (\<lambda>c.
       if d \<le> distance_from_desired c then
         bindE (the_value c) (\<lambda>v.
           if key_of v = k then Inr (p, d, True) else probe key_of k cs (p + 1) (d + 1))
       else Inr (p, d, False))"
  by pat_completeness auto
termination
  by (relation "measure (\<lambda>(key_of, k, cs, p, d). length cs - p)") (auto dest: entry_at_bound)

text \<open>
  The loop of \<^verbatim>\<open>emplace_new_key\<close>: \<open>x\<close> is \<^verbatim>\<open>to_insert\<close>, \<open>d\<close> its distance at position \<open>p\<close>. It
  ends with the value placed, or with the one left over when the distance reached \<^verbatim>\<open>max_lookups\<close>.
\<close>

function displace :: "int \<Rightarrow> 't entry list \<Rightarrow> nat \<Rightarrow> 't \<Rightarrow> int \<Rightarrow> ('t entry list \<times> 't option) result" where
  "displace max_lookups cs p x d =
     bindE (entry_at cs p) (\<lambda>c.
       if is_empty_entry c then Inr (cs[p := entry_emplace d x c], None)
       else if distance_from_desired c < d then
         bindE (the_value c) (\<lambda>v.
           displace max_lookups (cs[p := c\<lparr>distance_from_desired := d, entry_value := Some x\<rparr>]) (p + 1) v
             (distance_from_desired c + 1))
       else if d + 1 = max_lookups then Inr (cs, Some x)
       else displace max_lookups cs (p + 1) x (d + 1))"
  by pat_completeness auto
termination
  by (relation "measure (\<lambda>(m, cs, p, x, d). length cs - p)") (auto dest: entry_at_bound)

text \<open>The loop of \<^verbatim>\<open>erase\<close> of one position; \<open>p\<close> is \<^verbatim>\<open>current\<close>, the next entry is \<open>p + 1\<close>.\<close>

function shift_back :: "'t entry list \<Rightarrow> nat \<Rightarrow> 't entry list result" where
  "shift_back cs p =
     bindE (entry_at cs (p + 1)) (\<lambda>c.
       if is_at_desired_position c then Inr cs
       else bindE (the_value c) (\<lambda>v. bindE (destroy_value c) (\<lambda>c'.
         shift_back (cs[p := entry_emplace (distance_from_desired c - 1) v (cs ! p), p + 1 := c']) (p + 1))))"
  by pat_completeness auto
termination
  by (relation "measure (\<lambda>(cs, p). length cs - p)") (auto dest: entry_at_bound)

text \<open>
  The loops of \<^verbatim>\<open>erase\<close> of a range: destroy what it holds, counting, then move what follows;
  \<open>n\<close> is \<^verbatim>\<open>num_to_move\<close>.
\<close>

function destroy_range :: "'t entry list \<Rightarrow> nat \<Rightarrow> nat \<Rightarrow> u64 \<Rightarrow> ('t entry list \<times> u64) result" where
  "destroy_range cs p stop n =
     (if p = stop then Inr (cs, n)
      else bindE (entry_at cs p) (\<lambda>c.
        if has_value c
        then bindE (destroy_value c) (\<lambda>c'. destroy_range (cs[p := c']) (p + 1) stop (n - 1))
        else destroy_range cs (p + 1) stop n))"
  by pat_completeness auto
termination
  by (relation "measure (\<lambda>(cs, p, stop, n). length cs - p)") (auto dest: entry_at_bound)

function shift_range :: "'t entry list \<Rightarrow> nat \<Rightarrow> int \<Rightarrow> 't entry list result" where
  "shift_range cs p n =
     bindE (entry_at cs p) (\<lambda>c.
       if is_at_desired_position c then Inr cs
       else bindE (the_value c) (\<lambda>v. bindE (destroy_value c) (\<lambda>c'.
         let target = p - nat n;
             cs = cs[target := entry_emplace (distance_from_desired c - n) v (cs ! target), p := c']
         in bindE (entry_at cs (p + 1)) (\<lambda>next. shift_range cs (p + 1) (min (distance_from_desired next) n)))))"
  by pat_completeness auto
termination
  by (relation "measure (\<lambda>(cs, p, n). length cs - p)") (auto dest: entry_at_bound simp: Let_def)

text \<open>Iteration: \<^verbatim>\<open>begin\<close> and \<^verbatim>\<open>++\<close> look for the next entry that has a value, from a position on.\<close>

function next_value :: "'t entry list \<Rightarrow> nat \<Rightarrow> nat result" where
  "next_value cs p = bindE (entry_at cs p) (\<lambda>c. if has_value c then Inr p else next_value cs (p + 1))"
  by pat_completeness auto
termination
  by (relation "measure (\<lambda>(cs, p). length cs - p)") (auto dest: entry_at_bound)

declare probe.simps [simp del] displace.simps [simp del] shift_back.simps [simp del] destroy_range.simps [simp del]
  shift_range.simps [simp del] next_value.simps [simp del]

lemma next_value_ge: "next_value cs p = Inr q \<Longrightarrow> p \<le> q \<and> q < length cs"
proof (induction cs p rule: next_value.induct)
  case (1 cs p)
  have "bindE (entry_at cs p) (\<lambda>c. if has_value c then Inr p else next_value cs (p + 1)) = Inr q"
    using 1(2) by (simp only: next_value.simps [of cs p])
  then show ?case using 1(1) by (auto simp: bindE_eq_Inr dest: entry_at_bound split: if_splits)
qed

text \<open>A loop \<^verbatim>\<open>for (auto it = first; it != stop; ++it)\<close> that reads every value.\<close>

function values_from :: "'t entry list \<Rightarrow> nat \<Rightarrow> nat \<Rightarrow> 't list result" where
  "values_from cs it stop =
     (if it = stop then Inr []
      else bindE (entry_at cs it) (\<lambda>c. bindE (the_value c) (\<lambda>v.
        bindE (next_value cs (it + 1)) (\<lambda>it'. bindE (values_from cs it' stop) (\<lambda>vs. Inr (v # vs))))))"
  by pat_completeness auto
termination
  by (relation "measure (\<lambda>(cs, it, stop). length cs - it)") (auto dest: entry_at_bound next_value_ge)

declare values_from.simps [simp del]

end
