(* ===== verification/HashRobin.thy ===== *)
theory HashRobin
  imports HashEntries
begin

text \<open>
  The correctness of the loops over the entries: what a table that satisfies \<open>robin\<close> holds, that
  probing finds exactly what is in it, that displacement inserts one value and loses none, and that
  the shifts after an erasure close the gap.
\<close>

section \<open>Contents and order\<close>

abbreviation dst :: "'t entry list \<Rightarrow> nat \<Rightarrow> int" where
  "dst cs p \<equiv> distance_from_desired (cs ! p)"

abbreviation val :: "'t entry list \<Rightarrow> nat \<Rightarrow> 't option" where
  "val cs p \<equiv> entry_value (cs ! p)"

primrec values_of :: "'t entry list \<Rightarrow> 't list" where
  "values_of [] = []"
| "values_of (c # cs) = (case entry_value c of None \<Rightarrow> [] | Some v \<Rightarrow> [v]) @ values_of cs"

text \<open>\<open>m\<close> is \<^verbatim>\<open>max_lookups\<close>, \<open>ix\<close> the home of a value. The last entry is the sentinel.\<close>

definition shape :: "int \<Rightarrow> 't entry list \<Rightarrow> bool" where
  "shape m cs \<longleftrightarrow> cs \<noteq> [] \<and> cs ! (length cs - 1) = end_entry \<and>
     (\<forall>p < length cs - 1. -1 \<le> dst cs p \<and> dst cs p < m \<and> (val cs p = None \<longleftrightarrow> dst cs p = -1))"

definition placed :: "('t \<Rightarrow> nat) \<Rightarrow> 't entry list \<Rightarrow> bool" where
  "placed ix cs \<longleftrightarrow> (\<forall>p < length cs. \<forall>v. val cs p = Some v \<longrightarrow> int p = int (ix v) + dst cs p)"

definition chain :: "(nat \<Rightarrow> bool) \<Rightarrow> 't entry list \<Rightarrow> bool" where
  "chain P cs \<longleftrightarrow> (\<forall>p. P p \<longrightarrow> Suc p < length cs \<longrightarrow> dst cs (Suc p) \<le> dst cs p + 1)"

definition robin :: "('t \<Rightarrow> nat) \<Rightarrow> int \<Rightarrow> 't entry list \<Rightarrow> bool" where
  "robin ix m cs \<longleftrightarrow> shape m cs \<and> placed ix cs \<and> chain (\<lambda>_. True) cs"

lemma values_of_append [simp]: "values_of (cs @ ds) = values_of cs @ values_of ds"
  by (induction cs) simp_all

definition opt_mset :: "'t option \<Rightarrow> 't multiset" where
  "opt_mset x = (case x of None \<Rightarrow> {#} | Some v \<Rightarrow> {#v#})"

lemma opt_mset_simps [simp]: "opt_mset None = {#}" "opt_mset (Some v) = {#v#}"
  by (simp_all add: opt_mset_def)

abbreviation contents_of :: "'t entry list \<Rightarrow> 't multiset" where
  "contents_of cs \<equiv> mset (values_of cs)"

lemma values_of_entry: "mset (case x of None \<Rightarrow> [] | Some v \<Rightarrow> [v]) = opt_mset x"
  by (cases x) simp_all

lemma contents_of_update:
  "p < length cs \<Longrightarrow> contents_of (cs[p := c]) + opt_mset (val cs p) = contents_of cs + opt_mset (entry_value c)"
proof (induction cs arbitrary: p)
  case Nil
  then show ?case by simp
next
  case (Cons a cs)
  then show ?case by (cases p) (simp_all add: values_of_entry ac_simps)
qed

lemma set_values_of: "v \<in> set (values_of cs) \<longleftrightarrow> (\<exists>p < length cs. val cs p = Some v)"
proof (induction cs)
  case Nil
  then show ?case by simp
next
  case (Cons c cs)
  then show ?case by (cases "entry_value c") (auto simp: Ex_less_Suc2)
qed

lemma shapeD:
  assumes "shape m cs" and "p < length cs - 1"
  shows "-1 \<le> dst cs p" and "dst cs p < m" and "val cs p = None \<longleftrightarrow> dst cs p = -1"
  using assms by (simp_all add: shape_def)

lemma shape_end: "shape m cs \<Longrightarrow> cs ! (length cs - 1) = end_entry"
  by (simp add: shape_def)

lemma shape_nonempty: "shape m cs \<Longrightarrow> 0 < length cs"
  by (simp add: shape_def)

lemma shape_value_bound:
  assumes "shape m cs" and "p < length cs" and "val cs p = Some v"
  shows "p < length cs - 1"
  using assms by (cases "p = length cs - 1") (auto simp: shape_def end_entry_def)

lemma shape_live:
  assumes "shape m cs" and "p < length cs - 1" and "0 \<le> dst cs p"
  obtains v where "val cs p = Some v"
  using shapeD(3) [OF assms(1,2)] assms(3) by fastforce

lemma shape_update:
  assumes "shape m cs" and "p < length cs - 1" and "-1 \<le> distance_from_desired c" and "distance_from_desired c < m"
    and "entry_value c = None \<longleftrightarrow> distance_from_desired c = -1"
  shows "shape m (cs[p := c])"
  using assms by (auto simp: shape_def nth_list_update)

lemma placed_update:
  assumes "placed ix cs" and "\<And>v. entry_value c = Some v \<Longrightarrow> int p = int (ix v) + distance_from_desired c"
  shows "placed ix (cs[p := c])"
  unfolding placed_def
proof (intro allI impI)
  fix q v assume "q < length (cs[p := c])" "val (cs[p := c]) q = Some v"
  then show "int q = int (ix v) + dst (cs[p := c]) q"
    using assms by (cases "p = q") (auto simp: placed_def)
qed

lemma chain_mono: "chain P cs \<Longrightarrow> (\<And>p. Q p \<Longrightarrow> P p) \<Longrightarrow> chain Q cs"
  by (simp add: chain_def)

lemma chain_update:
  assumes "chain (\<lambda>q. P q \<and> q \<noteq> p \<and> Suc q \<noteq> p) cs"
    and "\<And>q. P q \<Longrightarrow> p = Suc q \<Longrightarrow> p < length cs \<Longrightarrow> distance_from_desired c \<le> dst cs q + 1"
    and "P p \<Longrightarrow> Suc p < length cs \<Longrightarrow> dst cs (Suc p) \<le> distance_from_desired c + 1"
  shows "chain P (cs[p := c])"
  unfolding chain_def
proof (intro allI impI)
  fix q assume "P q" "Suc q < length (cs[p := c])"
  then show "dst (cs[p := c]) (Suc q) \<le> dst (cs[p := c]) q + 1"
    using assms(2) [of q] assms(3) assms(1) by (cases "p = Suc q"; cases "p = q") (auto simp: chain_def)
qed

lemma chain_run:
  assumes "chain (\<lambda>_. True) cs" and "p + j < length cs"
  shows "dst cs (p + j) \<le> dst cs p + int j"
  using assms(2)
proof (induction j)
  case 0
  then show ?case by simp
next
  case (Suc j)
  then have "dst cs (Suc (p + j)) \<le> dst cs (p + j) + 1" using assms(1) by (simp add: chain_def)
  with Suc show ?case by simp
qed

section \<open>Probing\<close>

lemma probe_step:
  "p < length cs \<Longrightarrow> probe key_of k cs p d =
     (if d \<le> dst cs p then
        bindE (the_value (cs ! p)) (\<lambda>v. if key_of v = k then Inr (p, d, True) else probe key_of k cs (p + 1) (d + 1))
      else Inr (p, d, False))"
  by (subst probe.simps) (simp add: entry_at_def)

text \<open>What a probe has seen between the position \<open>p\<close> it started from and \<open>q\<close>.\<close>

definition passed :: "('t \<Rightarrow> 'k) \<Rightarrow> 'k \<Rightarrow> 't entry list \<Rightarrow> nat \<Rightarrow> int \<Rightarrow> nat \<Rightarrow> bool" where
  "passed key_of k cs p d q \<longleftrightarrow>
     (\<forall>r. p \<le> r \<longrightarrow> r < q \<longrightarrow> d + int (r - p) \<le> dst cs r \<and> (\<forall>v. val cs r = Some v \<longrightarrow> key_of v \<noteq> k))"

lemma probe_result:
  assumes "shape m cs" and "0 \<le> d" and "d \<le> m" and "0 < m" and "int p + (m - d) \<le> int (length cs - 1)"
  shows "\<exists>q e f. probe key_of k cs p d = Inr (q, e, f) \<and> p \<le> q \<and> int q - int p = e - d \<and> e \<le> m
     \<and> q \<le> length cs - 1 \<and> passed key_of k cs p d q
     \<and> (if f then e < m \<and> (\<exists>v. val cs q = Some v \<and> key_of v = k) else dst cs q < e)"
  using assms(2-5)
proof (induction "nat (m - d)" arbitrary: p d)
  case 0
  then have d: "d = m" and p: "p \<le> length cs - 1" by simp_all
  have "p < length cs" using p shape_nonempty [OF assms(1)] by (simp del: length_greater_0_conv)
  moreover have "dst cs p < m"
    using shapeD(2) [OF assms(1), of p] shape_end [OF assms(1)] p 0(4) by (cases "p = length cs - 1") (auto simp: entry_defs)
  ultimately show ?case using d p 0 by (auto simp: probe_step passed_def)
next
  case (Suc n)
  then have lt: "p < length cs - 1" and d: "d < m" by simp_all
  show ?case
  proof (cases "d \<le> dst cs p")
    case False
    then show ?thesis using lt Suc(3-6) by (auto simp: probe_step passed_def)
  next
    case True
    then obtain v where v: "val cs p = Some v" using shape_live [OF assms(1) lt] Suc(3) by auto
    have step: "probe key_of k cs p d = (if key_of v = k then Inr (p, d, True) else probe key_of k cs (p + 1) (d + 1))"
      using lt True v by (simp add: probe_step the_value_def)
    show ?thesis
    proof (cases "key_of v = k")
      case True
      then show ?thesis using step lt d v by (auto simp: passed_def)
    next
      case no: False
      have "n = nat (m - (d + 1))" "0 \<le> d + 1" "d + 1 \<le> m" "int (p + 1) + (m - (d + 1)) \<le> int (length cs - 1)"
        using Suc by simp_all
      from Suc(1) [OF this(1-3) Suc(5) this(4)]
      obtain q e f where r: "probe key_of k cs (p + 1) (d + 1) = Inr (q, e, f)" "p + 1 \<le> q" "int q - int (p + 1) = e - (d + 1)"
          "e \<le> m" "q \<le> length cs - 1" "passed key_of k cs (p + 1) (d + 1) q"
          "if f then e < m \<and> (\<exists>v. val cs q = Some v \<and> key_of v = k) else dst cs q < e" by blast
      have "passed key_of k cs p d q"
        unfolding passed_def
      proof (intro allI impI)
        fix r' assume r': "p \<le> r'" "r' < q"
        show "d + int (r' - p) \<le> dst cs r' \<and> (\<forall>v. val cs r' = Some v \<longrightarrow> key_of v \<noteq> k)"
        proof (cases "r' = p")
          case True
          then show ?thesis using \<open>d \<le> dst cs p\<close> v no by simp
        next
          case False
          then have "p + 1 \<le> r'" using r'(1) by simp
          then have "d + 1 + int (r' - (p + 1)) \<le> dst cs r' \<and> (\<forall>v. val cs r' = Some v \<longrightarrow> key_of v \<noteq> k)"
            using r(6) r'(2) unfolding passed_def by blast
          then show ?thesis using \<open>p + 1 \<le> r'\<close> by (simp add: of_nat_diff)
        qed
      qed
      with r step no show ?thesis by (intro exI [of _ q] exI [of _ e] exI [of _ f]) auto
    qed
  qed
qed

text \<open>A probe from the home of a key finds the value with that key, if there is one.\<close>

lemma probe_complete:
  assumes "robin ix m cs" and "passed key_of k cs h 0 q" and "h \<le> q" and "q < length cs" and "dst cs q < int q - int h"
    and "\<And>v. v \<in> set (values_of cs) \<Longrightarrow> key_of v = k \<Longrightarrow> ix v = h" and "v \<in> set (values_of cs)"
  shows "key_of v \<noteq> k"
proof
  assume k: "key_of v = k"
  obtain r where r: "r < length cs" "val cs r = Some v" using assms(7) by (auto simp: set_values_of)
  have at: "int r = int h + dst cs r"
    using assms(1,6,7) r k by (auto simp: robin_def placed_def)
  have "0 \<le> dst cs r"
    using assms(1) r shape_value_bound [of m cs r v] shapeD [of m cs r] by (force simp: robin_def)
  then have "h \<le> r" using at by simp
  have "\<not> r < q" using assms(2) r k \<open>h \<le> r\<close> by (auto simp: passed_def)
  then have "dst cs (q + (r - q)) \<le> dst cs q + int (r - q)"
    using assms(1) r by (intro chain_run) (simp_all add: robin_def)
  then have "dst cs r \<le> dst cs q + (int r - int q)" using \<open>\<not> r < q\<close> by (simp add: of_nat_diff)
  with at assms(5) show False by simp
qed

section \<open>Displacement\<close>

lemma robin_place:
  assumes "robin ix m cs" and "p < length cs - 1" and "int p = int (ix x) + d" and "0 \<le> d" and "d < m"
    and "dst cs p \<le> d" and "\<And>q. p = Suc q \<Longrightarrow> d \<le> dst cs q + 1"
    and "distance_from_desired c = d" and "entry_value c = Some x"
  shows "robin ix m (cs[p := c])"
proof -
  have "dst cs (Suc p) \<le> dst cs p + 1" using assms(1,2) by (simp add: robin_def chain_def)
  then show ?thesis
    using assms by (auto simp: robin_def intro!: shape_update placed_update chain_update elim: chain_mono)
qed

lemma displace_step:
  "p < length cs \<Longrightarrow> displace m cs p x d =
     (if is_empty_entry (cs ! p) then Inr (cs[p := entry_emplace d x (cs ! p)], None)
      else if dst cs p < d then
        bindE (the_value (cs ! p)) (\<lambda>v.
          displace m (cs[p := (cs ! p)\<lparr>distance_from_desired := d, entry_value := Some x\<rparr>]) (p + 1) v (dst cs p + 1))
      else if d + 1 = m then Inr (cs, Some x)
      else displace m cs (p + 1) x (d + 1))"
  by (subst displace.simps) (simp add: entry_at_def)

lemma displace_correct:
  assumes "robin ix m cs" and "int p = int (ix x) + d" and "0 \<le> d" and "d < m"
    and "\<And>q. p = Suc q \<Longrightarrow> d \<le> dst cs q + 1"
    and homes: "\<And>v. int (ix v) + m \<le> int (length cs - 1)"
  shows "\<exists>cs' y. displace m cs p x d = Inr (cs', y) \<and> robin ix m cs' \<and> length cs' = length cs
     \<and> contents_of cs' + opt_mset y = add_mset x (contents_of cs) \<and> (\<forall>q < p. cs' ! q = cs ! q)"
  using assms
proof (induction "length cs - p" arbitrary: cs p x d rule: less_induct)
  case less
  note robin = less.prems(1) and at = less.prems(2) and d = less.prems(3,4) and prev = less.prems(5)
  have lt: "p < length cs - 1" using at d(2) less.prems(6) [of x] by linarith
  then have lt': "p < length cs" by simp
  have shape: "shape m cs" using robin by (simp add: robin_def)
  let ?c = "(cs ! p)\<lparr>distance_from_desired := d, entry_value := Some x\<rparr>"
  consider "dst cs p < 0" | "0 \<le> dst cs p" "dst cs p < d" | "d \<le> dst cs p" by linarith
  then show ?case
  proof cases
    case 1
    then have "robin ix m (cs[p := ?c])" using robin_place [OF robin lt at d _ prev] d by simp
    moreover have "val cs p = None" using 1 shapeD [OF shape lt] by simp
    then have "contents_of (cs[p := ?c]) = add_mset x (contents_of cs)"
      using contents_of_update [OF lt', of ?c] by simp
    ultimately show ?thesis
      using 1 lt' by (intro exI [of _ "cs[p := ?c]"] exI [of _ None])
        (simp add: displace_step is_empty_entry_def entry_emplace_def)
  next
    case 2
    obtain v where v: "val cs p = Some v" by (rule shape_live [OF shape lt 2(1)])
    have placed: "robin ix m (cs[p := ?c])" using robin_place [OF robin lt at d _ prev] 2 by simp
    have home: "int p = int (ix v) + dst cs p" using robin v lt' by (simp add: robin_def placed_def)
    have step: "displace m cs p x d = displace m (cs[p := ?c]) (p + 1) v (dst cs p + 1)"
      using lt' 2 v by (simp add: displace_step is_empty_entry_def the_value_def)
    have "\<exists>cs' y. displace m (cs[p := ?c]) (p + 1) v (dst cs p + 1) = Inr (cs', y) \<and> robin ix m cs'
       \<and> length cs' = length (cs[p := ?c]) \<and> contents_of cs' + opt_mset y = add_mset v (contents_of (cs[p := ?c]))
       \<and> (\<forall>q < p + 1. cs' ! q = cs[p := ?c] ! q)"
    proof (rule less.hyps)
      show "length (cs[p := ?c]) - (p + 1) < length cs - p" using lt' by simp
      show "robin ix m (cs[p := ?c])" by (rule placed)
      show "int (p + 1) = int (ix v) + (dst cs p + 1)" using home by simp
      show "dst cs p + 1 \<le> dst (cs[p := ?c]) q + 1" if "p + 1 = Suc q" for q using that 2(2) lt' by simp
    qed (use 2 d less.prems(6) in simp_all)
    then obtain cs' y where r: "displace m (cs[p := ?c]) (p + 1) v (dst cs p + 1) = Inr (cs', y)" "robin ix m cs'"
        "length cs' = length cs" "contents_of cs' + opt_mset y = add_mset v (contents_of (cs[p := ?c]))"
        "\<forall>q < p + 1. cs' ! q = cs[p := ?c] ! q" by auto
    have "contents_of cs' + opt_mset y = add_mset x (contents_of cs)"
      using r(4) contents_of_update [OF lt', of ?c] v by simp
    then show ?thesis using r step by (intro exI [of _ cs'] exI [of _ y]) simp
  next
    case 3
    then have step: "displace m cs p x d = (if d + 1 = m then Inr (cs, Some x) else displace m cs (p + 1) x (d + 1))"
      using lt' d(1) by (simp add: displace_step is_empty_entry_def)
    show ?thesis
    proof (cases "d + 1 = m")
      case True
      then show ?thesis using step robin by (intro exI [of _ cs] exI [of _ "Some x"]) simp
    next
      case False
      have "\<exists>cs' y. displace m cs (p + 1) x (d + 1) = Inr (cs', y) \<and> robin ix m cs' \<and> length cs' = length cs
         \<and> contents_of cs' + opt_mset y = add_mset x (contents_of cs) \<and> (\<forall>q < p + 1. cs' ! q = cs ! q)"
      proof (rule less.hyps)
        show "length cs - (p + 1) < length cs - p" using lt' by simp
        show "d + 1 \<le> dst cs q + 1" if "p + 1 = Suc q" for q using that 3 by simp
      qed (use False d at robin less.prems(6) in simp_all)
      then show ?thesis using step False by auto
    qed
  qed
qed

section \<open>Erasure\<close>

text \<open>
  The entries of a table in which the \<open>n\<close> places below \<open>e\<close> are free and everything but the
  step from \<open>e - 1\<close> to \<open>e\<close> is in order.
\<close>

definition gap :: "('t \<Rightarrow> nat) \<Rightarrow> int \<Rightarrow> 't entry list \<Rightarrow> nat \<Rightarrow> int \<Rightarrow> bool" where
  "gap ix m cs e n \<longleftrightarrow> shape m cs \<and> placed ix cs \<and> chain (\<lambda>p. Suc p \<noteq> e) cs \<and> e < length cs
     \<and> n \<le> dst cs e \<and> (0 < dst cs e \<longrightarrow> 0 < n) \<and> n \<le> int e
     \<and> (\<forall>q. e - nat n \<le> q \<longrightarrow> q < e \<longrightarrow> dst cs q = -1)
     \<and> (\<forall>q. Suc q = e - nat n \<longrightarrow> dst cs e - n \<le> dst cs q + 1)"

lemma shape_dst_ge: "shape m cs \<Longrightarrow> q < length cs \<Longrightarrow> -1 \<le> dst cs q"
  using shapeD(1) [of m cs q] shape_end [of m cs]
  by (cases "q = length cs - 1") (auto simp: end_entry_def special_end_value_def)

lemma gap_closed:
  assumes "gap ix m cs e n" and "dst cs e \<le> 0"
  shows "robin ix m cs"
proof -
  have "dst cs (Suc p) \<le> dst cs p + 1" if "Suc p < length cs" for p
  proof (cases "Suc p = e")
    case True
    then show ?thesis using assms that shape_dst_ge [of m cs p] by (simp add: gap_def)
  next
    case False
    then show ?thesis using assms(1) that by (simp add: gap_def chain_def)
  qed
  then show ?thesis using assms(1) by (simp add: robin_def gap_def chain_def)
qed

lemma gap_step:
  assumes gap: "gap ix m cs e n" and "0 < dst cs e" and "val cs e = Some v"
    and cs': "cs' = cs[e - nat n := entry_emplace (dst cs e - n) v (cs ! (e - nat n)), e := empty_entry]"
  shows "gap ix m cs' (e + 1) (min (dst cs' (e + 1)) n)" and "contents_of cs' = contents_of cs"
proof -
  let ?t = "e - nat n" and ?D = "dst cs e"
  note g = gap [unfolded gap_def]
  have shape: "shape m cs" and n: "0 < n" "n \<le> ?D" "n \<le> int e" using g assms(2) by simp_all
  have e: "e < length cs - 1"
    using g assms(2) shape_end [OF shape] by (cases "e = length cs - 1") (auto simp: entry_defs)
  have t: "?t < e" "int ?t = int e - n" using n by auto
  have hole: "dst cs q = -1" if "?t \<le> q" "q < e" for q using g that by blast
  let ?c = "entry_emplace (?D - n) v (cs ! ?t)"
  have D: "?D < m" using shapeD(2) [OF shape e] .
  have len: "length cs' = length cs" by (simp add: cs')
  have at: "cs' ! q = (if q = e then empty_entry else if q = ?t then ?c else cs ! q)" if "q < length cs" for q
    using that t e by (auto simp: cs' nth_list_update)
  have shape': "shape m cs'"
    unfolding cs' using shape e t n D by (intro shape_update) (auto simp: entry_defs)
  have placed': "placed ix cs'"
    unfolding cs' using g assms(3) t e by (intro placed_update) (auto simp: entry_defs placed_def)
  have chain': "chain (\<lambda>p. Suc p \<noteq> e + 1) cs'"
    unfolding chain_def
  proof (intro allI impI)
    fix p assume p: "Suc p \<noteq> e + 1" "Suc p < length cs'"
    consider "Suc p = e" | "Suc p = ?t" | "p = ?t" "Suc p \<noteq> e" | "Suc p \<noteq> e" "Suc p \<noteq> ?t" "p \<noteq> ?t" by blast
    then show "dst cs' (Suc p) \<le> dst cs' p + 1"
    proof cases
      case 1
      then show ?thesis using at [of "Suc p"] shape_dst_ge [OF shape', of p] p len by (simp add: empty_entry_def)
    next
      case 2
      then have "?D - n \<le> dst cs p + 1" using g by metis
      then show ?thesis using 2 at [of "Suc p"] at [of p] p len t by (simp add: entry_emplace_def)
    next
      case 3
      then have "dst cs (Suc p) = -1" using hole [of "Suc p"] t by simp
      then show ?thesis using 3 at [of "Suc p"] at [of p] p len t n by (simp add: entry_emplace_def)
    next
      case 4
      then have "dst cs (Suc p) \<le> dst cs p + 1" using g p len by (simp add: chain_def)
      then show ?thesis using 4 at [of "Suc p"] at [of p] p len by simp
    qed
  qed
  let ?n = "min (dst cs' (e + 1)) n"
  have nxt: "dst cs' (e + 1) = dst cs (e + 1)" using at [of "e + 1"] e t by simp
  have up: "dst cs (e + 1) \<le> ?D + 1" using g e by (simp add: chain_def)
  have hole': "dst cs' q = -1" if "e + 1 - nat ?n \<le> q" "q < e + 1" for q
  proof -
    have "q = e \<or> ?t < q \<and> q < e" using that n t by (auto simp: min_def split: if_splits)
    then show ?thesis using at [of q] hole [of q] e by (auto simp: empty_entry_def)
  qed
  have prev': "dst cs' (e + 1) - ?n \<le> dst cs' q + 1" if q: "Suc q = e + 1 - nat ?n" for q
  proof (cases "n \<le> dst cs (e + 1)")
    case True
    then have "q = ?t" using q nxt n by simp
    then show ?thesis using True at [of ?t] nxt up t e by (simp add: entry_emplace_def)
  next
    case False
    have "q < length cs'" using q e len by simp
    then show ?thesis using False nxt shape_dst_ge [OF shape', of q] by simp
  qed
  show "gap ix m cs' (e + 1) ?n"
    unfolding gap_def
  proof (intro conjI)
    show "\<forall>q. e + 1 - nat ?n \<le> q \<longrightarrow> q < e + 1 \<longrightarrow> dst cs' q = -1" using hole' by blast
    show "\<forall>q. Suc q = e + 1 - nat ?n \<longrightarrow> dst cs' (e + 1) - ?n \<le> dst cs' q + 1" using prev' by blast
  qed (use shape' placed' chain' e len n in \<open>simp_all add: min_def\<close>)
  have "val cs ?t = None" using hole [of ?t] shapeD(3) [OF shape, of ?t] t e by simp
  then have "contents_of (cs[?t := ?c]) = add_mset v (contents_of cs)"
    using contents_of_update [of ?t cs ?c] t e by (simp add: entry_emplace_def)
  moreover have "contents_of cs' + {#v#} = contents_of (cs[?t := ?c])"
    using contents_of_update [of e "cs[?t := ?c]" empty_entry] t e assms(3) by (simp add: cs' empty_entry_def)
  ultimately show "contents_of cs' = contents_of cs" by simp
qed

lemma shift_range_step:
  "e < length cs \<Longrightarrow> shift_range cs e n =
     (if dst cs e \<le> 0 then Inr cs
      else bindE (the_value (cs ! e)) (\<lambda>v. bindE (destroy_value (cs ! e)) (\<lambda>c'.
        let cs = cs[e - nat n := entry_emplace (dst cs e - n) v (cs ! (e - nat n)), e := c']
        in bindE (entry_at cs (e + 1)) (\<lambda>next. shift_range cs (e + 1) (min (distance_from_desired next) n)))))"
  by (subst shift_range.simps) (simp add: entry_at_def is_at_desired_position_def Let_def)

lemma destroyed: "entry_value c = Some v \<Longrightarrow> destroy_value c = Inr empty_entry"
  by (simp add: entry_defs)

lemma shift_range_correct:
  assumes "gap ix m cs e n"
  shows "\<exists>cs'. shift_range cs e n = Inr cs' \<and> robin ix m cs' \<and> length cs' = length cs
     \<and> contents_of cs' = contents_of cs"
  using assms
proof (induction "length cs - e" arbitrary: cs e n rule: less_induct)
  case less
  have e: "e < length cs" and shape: "shape m cs" using less.prems by (simp_all add: gap_def)
  show ?case
  proof (cases "dst cs e \<le> 0")
    case True
    then show ?thesis using gap_closed [OF less.prems] e by (simp add: shift_range_step)
  next
    case False
    have "e < length cs - 1" using False e shape_end [OF shape] by (cases "e = length cs - 1") (auto simp: entry_defs)
    moreover from this have "Suc e < length cs" by simp
    ultimately obtain v where v: "val cs e = Some v" using shape_live [OF shape] False by force
    define cs' where "cs' = cs[e - nat n := entry_emplace (dst cs e - n) v (cs ! (e - nat n)), e := empty_entry]"
    have len: "length cs' = length cs" and nxt: "cs' ! Suc e = cs ! Suc e" by (simp_all add: cs'_def)
    have "shift_range cs e n = shift_range cs' (e + 1) (min (dst cs' (e + 1)) n)"
      using e v False \<open>Suc e < length cs\<close> len
      by (subst shift_range_step) (simp_all add: nxt destroyed the_value_def entry_at_def Let_def flip: cs'_def)
    moreover have gap: "gap ix m cs' (e + 1) (min (dst cs' (e + 1)) n)" and same: "contents_of cs' = contents_of cs"
      using gap_step [OF less.prems _ v cs'_def] False by simp_all
    moreover have "length cs' - (e + 1) < length cs - e" using len e by simp
    ultimately show ?thesis using less.hyps [OF _ gap] len same by auto
  qed
qed

text \<open>The shift after the erasure of one entry is that of a range of one.\<close>

lemma shift_back_range: "shift_back cs p = shift_range cs (p + 1) 1"
proof (induction cs p rule: shift_back.induct)
  case (1 cs p)
  show ?case
  proof (cases "p + 1 < length cs")
    case False
    then show ?thesis by (subst shift_back.simps, subst shift_range.simps) (simp add: entry_at_def)
  next
    case True
    show ?thesis
    proof (cases "dst cs (p + 1) \<le> 0 \<or> val cs (p + 1) = None")
      case True
      then show ?thesis
        using \<open>p + 1 < length cs\<close> by (auto simp: shift_back.simps [of cs p] shift_range_step entry_defs)
    next
      case False
      then obtain v where v: "val cs (p + 1) = Some v" by auto
      define cs' where "cs' = cs[p := entry_emplace (dst cs (p + 1) - 1) v (cs ! p), p + 1 := empty_entry]"
      have "shift_back cs p = shift_back cs' (p + 1)"
        using False v True
        by (simp add: shift_back.simps [of cs p] is_at_desired_position_def entry_at_def the_value_def destroyed cs'_def)
      also have "\<dots> = shift_range cs' (p + 1 + 1) 1"
        unfolding cs'_def by (rule 1) (use False v True in \<open>simp_all add: entry_at_def is_at_desired_position_def the_value_def destroyed\<close>)
      also have "\<dots> = bindE (entry_at cs' (p + 1 + 1)) (\<lambda>next. shift_range cs' (p + 1 + 1) (min (distance_from_desired next) 1))"
      proof (cases "p + 1 + 1 < length cs'")
        case False
        then show ?thesis by (subst shift_range.simps) (simp add: entry_at_def)
      next
        case True
        show ?thesis
        proof (cases "dst cs' (p + 1 + 1) \<le> 0")
          case True
          then show ?thesis using \<open>p + 1 + 1 < length cs'\<close> by (simp add: shift_range_step entry_at_def)
        next
          case False
          then have "min (dst cs' (p + 1 + 1)) 1 = 1" by simp
          then show ?thesis using \<open>p + 1 + 1 < length cs'\<close> by (simp add: entry_at_def)
        qed
      qed
      also have "\<dots> = shift_range cs (p + 1) 1"
        using False v True by (simp add: shift_range_step the_value_def destroyed Let_def cs'_def)
      finally show ?thesis .
    qed
  qed
qed

text \<open>The table after the values of a range have been destroyed.\<close>

definition blank_range :: "nat \<Rightarrow> nat \<Rightarrow> 't entry list \<Rightarrow> 't entry list" where
  "blank_range b e cs = take b cs @ replicate (e - b) empty_entry @ drop e cs"

lemma blank_range_length: "b \<le> e \<Longrightarrow> e \<le> length cs \<Longrightarrow> length (blank_range b e cs) = length cs"
  by (simp add: blank_range_def)

lemma blank_range_nth:
  assumes "b \<le> e" and "e \<le> length cs" and "q < length cs"
  shows "blank_range b e cs ! q = (if b \<le> q \<and> q < e then empty_entry else cs ! q)"
  using assms by (auto simp: blank_range_def nth_append)

lemma blank_range_contents:
  assumes "b \<le> e"
  shows "contents_of cs = contents_of (blank_range b e cs) + mset (values_of (take (e - b) (drop b cs)))"
proof -
  have "cs = take b cs @ take (e - b) (drop b cs) @ drop e cs"
    using assms by (metis append_take_drop_id drop_drop le_add_diff_inverse2)
  then have "contents_of cs = contents_of (take b cs @ take (e - b) (drop b cs) @ drop e cs)" by simp
  moreover have "values_of (replicate n empty_entry) = ([] :: 'a list)" for n
    by (induction n) (simp_all add: empty_entry_def)
  ultimately show ?thesis by (simp add: blank_range_def del: append_take_drop_id)
qed

lemma shape_blank:
  assumes "shape m cs" and "b \<le> e" and "e \<le> length cs - 1" and "0 \<le> m"
  shows "shape m (blank_range b e cs)"
proof -
  have len: "length (blank_range b e cs) = length cs" "0 < length cs"
    using assms shape_nonempty [OF assms(1)] by (simp_all add: blank_range_length)
  then show ?thesis
    using assms blank_range_nth [OF assms(2), of cs] by (auto simp: shape_def empty_entry_def)
qed

lemma destroy_range_correct:
  assumes "shape m cs" and "b \<le> e" and "e \<le> length cs - 1" and "0 \<le> m"
  shows "destroy_range cs b e n =
    Inr (blank_range b e cs, n - of_nat (length (values_of (take (e - b) (drop b cs)))))"
  using assms
proof (induction "e - b" arbitrary: cs b n)
  case 0
  then show ?case by (subst destroy_range.simps) (simp add: blank_range_def)
next
  case (Suc k)
  then have b: "b < e" "b < length cs - 1" "b < length cs" by simp_all
  have eq: "drop b cs = cs ! b # drop (b + 1) cs" using b(3) by (simp add: Cons_nth_drop_Suc)
  have take: "take (e - b) (drop b cs) = cs ! b # take (e - (b + 1)) (drop (b + 1) cs)"
    using Suc(2) b by (simp add: eq take_Cons')
  define cs' where "cs' = cs[b := empty_entry]"
  have blank: "blank_range (b + 1) e cs' = blank_range b e cs"
    using b Suc(2) by (auto simp: blank_range_def cs'_def take_Suc_conv_app_nth drop_update_cancel simp flip: replicate_Suc Suc_diff_Suc
        intro: arg_cong)
  have shape': "shape m cs'" unfolding cs'_def using Suc(3,6) b by (intro shape_update) (auto simp: empty_entry_def)
  have IH: "destroy_range cs' (b + 1) e n' =
      Inr (blank_range b e cs, n' - of_nat (length (values_of (take (e - (b + 1)) (drop (b + 1) cs)))))" for n'
  proof -
    have "k = e - (b + 1)" "b + 1 \<le> e" "e \<le> length cs' - 1" using Suc(2,5) b by (simp_all add: cs'_def)
    note Suc(1) [OF this(1) shape' this(2,3) Suc(6), of n']
    moreover have "drop (b + 1) cs' = drop (b + 1) cs" by (simp add: cs'_def)
    ultimately show ?thesis by (simp only: blank)
  qed
  show ?case
  proof (cases "val cs b")
    case None
    then have "dst cs b = -1" using shapeD(3) [OF Suc(3) b(2)] by simp
    then have "cs ! b = empty_entry" using None by (simp add: empty_entry_def)
    then have same: "cs' = cs" unfolding cs'_def by (metis list_update_id)
    show ?thesis
      using IH [of n] b \<open>dst cs b = -1\<close> None
      by (subst destroy_range.simps) (simp add: entry_at_def has_value_def same take)
  next
    case (Some v)
    then have "0 \<le> dst cs b" using shapeD(1,3) [OF Suc(3) b(2)] by force
    then show ?thesis
      using IH [of "n - 1"] b Some
      by (subst destroy_range.simps) (simp add: entry_at_def has_value_def destroyed take flip: cs'_def)
  qed
qed

lemma gap_blank:
  assumes "robin ix m cs" and "b < e" and "e \<le> length cs - 1" and "0 \<le> m"
  shows "gap ix m (blank_range b e cs) e (min (dst cs e) (int (e - b)))"
proof -
  let ?cs = "blank_range b e cs" and ?n = "min (dst cs e) (int (e - b))"
  have e: "e < length cs" using assms(1,3) shape_nonempty [of m cs] by (simp add: robin_def del: length_greater_0_conv)
  have len: "length ?cs = length cs" using assms(2) e by (simp add: blank_range_length)
  have at: "?cs ! q = (if b \<le> q \<and> q < e then empty_entry else cs ! q)" if "q < length cs" for q
    using that assms(2) e by (simp add: blank_range_nth)
  have shape: "shape m ?cs" using assms by (intro shape_blank) (simp_all add: robin_def)
  have "placed ix ?cs"
    unfolding placed_def
  proof (intro allI impI)
    fix q v assume q: "q < length ?cs" "val ?cs q = Some v"
    then show "int q = int (ix v) + dst ?cs q"
      using assms(1) at [of q] len by (auto simp: robin_def placed_def empty_entry_def split: if_splits)
  qed
  moreover have "chain (\<lambda>p. Suc p \<noteq> e) ?cs"
    unfolding chain_def
  proof (intro allI impI)
    fix q assume q: "Suc q \<noteq> e" "Suc q < length ?cs"
    have "dst cs (Suc q) \<le> dst cs q + 1" using assms(1) q len by (simp add: robin_def chain_def)
    moreover have "-1 \<le> dst ?cs q" using shape q by (intro shape_dst_ge) simp_all
    ultimately show "dst ?cs (Suc q) \<le> dst ?cs q + 1"
      using at [of q] at [of "Suc q"] q len by (auto simp: empty_entry_def split: if_splits)
  qed
  moreover have "dst ?cs q = -1" if "e - nat ?n \<le> q" "q < e" for q
  proof -
    have "b \<le> q" using that(1) assms(2) by (simp add: min_def split: if_splits)
    then show ?thesis using that at [of q] e by (simp add: empty_entry_def)
  qed
  moreover have "dst ?cs e - ?n \<le> dst ?cs q + 1" if q: "Suc q = e - nat ?n" for q
  proof (cases "dst cs e \<le> int (e - b)")
    case True
    moreover have "q < length ?cs" using q e len by linarith
    ultimately show ?thesis using at [of e] e shape_dst_ge [OF shape, of q] by simp
  next
    case False
    then have "q + (e - b + 1) = e" "q < b" using q assms(2) by simp_all
    moreover have "dst cs (q + (e - b + 1)) \<le> dst cs q + int (e - b + 1)"
      using assms(1) \<open>q + (e - b + 1) = e\<close> e by (intro chain_run) (simp_all add: robin_def)
    ultimately show ?thesis using False at [of e] at [of q] e by simp
  qed
  ultimately show ?thesis
    unfolding gap_def using shape e len assms(2) at [of e] by (auto simp: min_def)
qed

section \<open>Iteration\<close>

lemma next_value_step:
  "p < length cs \<Longrightarrow> next_value cs p = (if has_value (cs ! p) then Inr p else next_value cs (p + 1))"
  by (subst next_value.simps) (simp add: entry_at_def)

lemma next_value_correct:
  assumes "shape m cs" and "p < length cs"
  shows "\<exists>q. next_value cs p = Inr q \<and> p \<le> q \<and> q < length cs \<and> has_value (cs ! q)
     \<and> (\<forall>r. p \<le> r \<longrightarrow> r < q \<longrightarrow> \<not> has_value (cs ! r)) \<and> values_of (drop p cs) = values_of (drop q cs)"
  using assms(2)
proof (induction "length cs - p" arbitrary: p)
  case 0
  then show ?case by simp
next
  case (Suc n)
  show ?case
  proof (cases "has_value (cs ! p)")
    case True
    then show ?thesis using Suc(3) by (auto simp: next_value_step)
  next
    case False
    then have "p \<noteq> length cs - 1" using shape_end [OF assms(1)] by (auto simp: entry_defs)
    then have p: "p < length cs - 1" "p + 1 < length cs" using Suc(3) by simp_all
    then have "val cs p = None" using shapeD [OF assms(1) p(1)] False by (simp add: has_value_def)
    then have skip: "values_of (drop p cs) = values_of (drop (p + 1) cs)"
      using Suc(3) by (simp add: Cons_nth_drop_Suc [symmetric])
    have "n = length cs - (p + 1)" using Suc(2) by simp
    then obtain q where q: "next_value cs (p + 1) = Inr q" "p + 1 \<le> q" "q < length cs" "has_value (cs ! q)"
        "\<forall>r. p + 1 \<le> r \<longrightarrow> r < q \<longrightarrow> \<not> has_value (cs ! r)" "values_of (drop (p + 1) cs) = values_of (drop q cs)"
      using Suc(1) [of "p + 1"] p(2) by auto
    have "\<not> has_value (cs ! r)" if "p \<le> r" "r < q" for r using q(5) that False by (cases "r = p") simp_all
    moreover have "next_value cs p = Inr q" using q(1) False Suc(3) by (simp add: next_value_step)
    ultimately show ?thesis using q skip by (intro exI [of _ q]) simp
  qed
qed

lemma values_from_correct:
  assumes "shape m cs" and "it < length cs" and "has_value (cs ! it)"
  shows "values_from cs it (length cs - 1) = Inr (values_of (drop it cs))"
  using assms(2,3)
proof (induction "length cs - it" arbitrary: it rule: less_induct)
  case less
  show ?case
  proof (cases "it = length cs - 1")
    case True
    then have "drop it cs = [end_entry]"
      using less.prems(1) shape_end [OF assms(1)] by (simp add: Cons_nth_drop_Suc [symmetric])
    then show ?thesis using True by (simp add: values_from.simps end_entry_def)
  next
    case False
    then have it: "it < length cs - 1" "it + 1 < length cs" using less.prems(1) by simp_all
    obtain v where v: "val cs it = Some v" using shape_live [OF assms(1) it(1)] less.prems(2) by (auto simp: has_value_def)
    obtain q where q: "next_value cs (it + 1) = Inr q" "it + 1 \<le> q" "q < length cs" "has_value (cs ! q)"
        "values_of (drop (it + 1) cs) = values_of (drop q cs)"
      using next_value_correct [OF assms(1) it(2)] by auto
    have "values_from cs q (length cs - 1) = Inr (values_of (drop q cs))"
      using q less.prems(1) by (intro less.hyps) simp_all
    moreover have "values_of (drop it cs) = v # values_of (drop (it + 1) cs)"
      using less.prems(1) v by (simp add: Cons_nth_drop_Suc [symmetric])
    ultimately show ?thesis
      using q v False less.prems(1) by (subst values_from.simps) (simp add: entry_at_def the_value_def)
  qed
qed

lemma iterate_all:
  assumes "shape m cs"
  shows "bindE (next_value cs 0) (\<lambda>it. values_from cs it (length cs - 1)) = Inr (values_of cs)"
  using next_value_correct [OF assms, of 0] values_from_correct [OF assms] shape_nonempty [OF assms] by auto

end
