(* ===== verification/HashTable.thy ===== *)
theory HashTable
  imports HashPolicy HashRobin Double
begin

text \<open>
  The hash map of \<^verbatim>\<open>src/usockets-tcp/flat_hash_map.h\<close>: \<open>table\<close> is \<^verbatim>\<open>sherwood_v3_table\<close> with its
  operations, followed by the operations of \<^verbatim>\<open>flat_hash_map\<close> and \<^verbatim>\<open>flat_hash_set\<close>. An iterator is
  the position of the entry it points to. The key of a value, the hash function and the allocator
  are the parameters of \<open>hash_env\<close>; keys are compared by \<^verbatim>\<open>std::equal_to\<close>, which is equality.

  \<^verbatim>\<open>emplace\<close> and \<^verbatim>\<open>rehash\<close> call each other; the operations take the \<^verbatim>\<open>emplace\<close> they call as a
  function, and \<open>emplace_fuel\<close> ties the knot with fuel for the depth of the recursion.
\<close>

section \<open>Doubles\<close>

fun dmul :: "dbl \<Rightarrow> dbl \<Rightarrow> dbl" where
  "dmul (Fin a) (Fin b) = Fin (rnd (a * b))"
| "dmul (Fin a) PInf = (if a = 0 then NaN else if 0 < a then PInf else NInf)"
| "dmul (Fin a) NInf = (if a = 0 then NaN else if 0 < a then NInf else PInf)"
| "dmul PInf (Fin b) = (if b = 0 then NaN else if 0 < b then PInf else NInf)"
| "dmul NInf (Fin b) = (if b = 0 then NaN else if 0 < b then NInf else PInf)"
| "dmul PInf PInf = PInf"
| "dmul PInf NInf = NInf"
| "dmul NInf PInf = NInf"
| "dmul NInf NInf = PInf"
| "dmul _ _ = NaN"

fun dless :: "dbl \<Rightarrow> dbl \<Rightarrow> bool" where
  "dless (Fin a) (Fin b) = (a < b)"
| "dless (Fin a) PInf = True"
| "dless NInf (Fin b) = True"
| "dless NInf PInf = True"
| "dless _ _ = False"

text \<open>\<^verbatim>\<open>static_cast<size_t>(std::ceil(d))\<close>, undefined for a value that \<^verbatim>\<open>size_t\<close> does not hold.\<close>

fun size_of_ceil :: "dbl \<Rightarrow> u64 result" where
  "size_of_ceil (Fin r) = (if 0 \<le> \<lceil>r\<rceil> \<and> \<lceil>r\<rceil> < 2 ^ 64 then Inr (of_int \<lceil>r\<rceil>) else Inl BadConversion)"
| "size_of_ceil _ = Inl BadConversion"

section \<open>The state\<close>

record 't table =
  entries :: "'t entry list"
  num_slots_minus_one :: u64
  hash_policy :: hash_policy
  max_lookups :: int
  max_load_factor :: dbl
  num_elements :: u64

text \<open>
  \<open>can_allocate\<close> says whether the allocator has an array of so many entries, or throws
  \<^verbatim>\<open>std::bad_alloc\<close>.
\<close>

record ('k, 't) hash_env =
  key_of :: "'t \<Rightarrow> 'k"
  hasher :: "'k \<Rightarrow> u64"
  can_allocate :: "u64 \<Rightarrow> bool"

text \<open>A new table; the argument only says of which type its policy is.\<close>

definition new_table :: "hash_policy \<Rightarrow> 't table" where
  "new_table p = \<lparr>entries = empty_default_table, num_slots_minus_one = 0, hash_policy = reset_policy p,
     max_lookups = min_lookups - 1, max_load_factor = Fin (1 / 2), num_elements = 0\<rparr>"

definition bucket_count :: "'t table \<Rightarrow> u64" where
  "bucket_count t = (if num_slots_minus_one t \<noteq> 0 then num_slots_minus_one t + 1 else 0)"

definition end_index :: "'t table \<Rightarrow> nat" where
  "end_index t = unat (num_slots_minus_one t + of_int (max_lookups t))"

definition bucket :: "('k, 't) hash_env \<Rightarrow> 'k \<Rightarrow> 't table \<Rightarrow> u64" where
  "bucket env k t = index_for_hash (hash_policy t) (hasher env k) (num_slots_minus_one t)"

definition is_empty_table :: "'t table \<Rightarrow> bool" where
  "is_empty_table t \<longleftrightarrow> num_elements t = 0"

section \<open>Look-up and iteration\<close>

definition find_key :: "('k, 't) hash_env \<Rightarrow> 'k \<Rightarrow> 't table \<Rightarrow> nat result" where
  "find_key env k t =
     bindE (probe (key_of env) k (entries t) (unat (bucket env k t)) 0)
       (\<lambda>(p, d, found). Inr (if found then p else end_index t))"

definition count_key :: "('k, 't) hash_env \<Rightarrow> 'k \<Rightarrow> 't table \<Rightarrow> nat result" where
  "count_key env k t = bindE (find_key env k t) (\<lambda>it. Inr (if it = end_index t then 0 else 1))"

definition begin_it :: "'t table \<Rightarrow> nat result" where
  "begin_it t = next_value (entries t) 0"

definition next_it :: "'t table \<Rightarrow> nat \<Rightarrow> nat result" where
  "next_it t it = next_value (entries t) (it + 1)"

definition equal_range :: "('k, 't) hash_env \<Rightarrow> 'k \<Rightarrow> 't table \<Rightarrow> (nat \<times> nat) result" where
  "equal_range env k t =
     bindE (find_key env k t) (\<lambda>found.
       if found = end_index t then Inr (found, found)
       else bindE (next_it t found) (\<lambda>next. Inr (found, next)))"

definition deref :: "'t table \<Rightarrow> nat \<Rightarrow> 't result" where
  "deref t it = bindE (entry_at (entries t) it) the_value"

text \<open>A loop over the whole table.\<close>

definition elements :: "'t table \<Rightarrow> 't list result" where
  "elements t = bindE (begin_it t) (\<lambda>it. values_from (entries t) it (end_index t))"

section \<open>Growth and insertion\<close>

definition compute_max_lookups :: "u64 \<Rightarrow> int" where
  "compute_max_lookups num_buckets = max min_lookups (log2 num_buckets)"

definition reset_to_empty_state :: "'t table \<Rightarrow> 't table" where
  "reset_to_empty_state t =
     t\<lparr>entries := empty_default_table, num_slots_minus_one := 0, hash_policy := reset_policy (hash_policy t),
       max_lookups := min_lookups - 1\<rparr>"

text \<open>The new array, all empty but for the sentinel.\<close>

definition new_buckets :: "('k, 't) hash_env \<Rightarrow> u64 \<Rightarrow> 't entry list result" where
  "new_buckets env n =
     (if \<not> can_allocate env n then Inl BadAlloc
      else if n = 0 then Inl BufferOverrun
      else Inr (replicate (unat (n - 1)) empty_entry @ [end_entry]))"

text \<open>The entries that the loop of \<^verbatim>\<open>rehash\<close> visits, and the loop.\<close>

definition old_entries :: "'t table \<Rightarrow> 't entry list result" where
  "old_entries t =
     (if end_index t \<le> length (entries t) then Inr (take (end_index t) (entries t)) else Inl OutOfBoundsRead)"

type_synonym 't emplacer = "'t \<Rightarrow> 't table \<Rightarrow> ((nat \<times> bool) \<times> 't table) result"

fun reinsert :: "'t emplacer \<Rightarrow> 't entry list \<Rightarrow> 't table \<Rightarrow> 't table result" where
  "reinsert emp [] t = Inr t"
| "reinsert emp (c # cs) t =
     (if has_value c then bindE (the_value c) (\<lambda>v. bindE (emp v t) (\<lambda>(_, t). reinsert emp cs t))
      else reinsert emp cs t)"

definition rehash_with :: "'t emplacer \<Rightarrow> ('k, 't) hash_env \<Rightarrow> u64 \<Rightarrow> 't table \<Rightarrow> 't table result" where
  "rehash_with emp env num_buckets t =
     bindE (size_of_ceil (ddiv (double_of_u64 (num_elements t)) (max_load_factor t))) (\<lambda>needed.
       let num_buckets = max num_buckets needed in
       if num_buckets = 0 then Inr (reset_to_empty_state t)
       else
         let (num_buckets, new_prime_index) = next_size_over (hash_policy t) num_buckets in
         if num_buckets = bucket_count t then Inr t
         else
           let new_max_lookups = compute_max_lookups num_buckets in
           bindE (new_buckets env (num_buckets + of_int new_max_lookups)) (\<lambda>buckets.
           bindE (old_entries t) (\<lambda>old.
             reinsert emp old
               (t\<lparr>entries := buckets, num_slots_minus_one := num_buckets - 1,
                  hash_policy := commit new_prime_index (hash_policy t),
                  max_lookups := new_max_lookups, num_elements := 0\<rparr>))))"

definition grow_with :: "'t emplacer \<Rightarrow> ('k, 't) hash_env \<Rightarrow> 't table \<Rightarrow> 't table result" where
  "grow_with emp env t = rehash_with emp env (max 4 (2 * bucket_count t)) t"

definition load_exceeded :: "'t table \<Rightarrow> bool" where
  "load_exceeded t \<longleftrightarrow>
     dless (dmul (double_of_u64 (num_slots_minus_one t + 1)) (max_load_factor t)) (double_of_u64 (num_elements t + 1))"

text \<open>
  The value that does not fit is swapped with the new one before the table grows, so the new one
  is what is emplaced again.
\<close>

definition emplace_new_key ::
  "'t emplacer \<Rightarrow> ('k, 't) hash_env \<Rightarrow> int \<Rightarrow> nat \<Rightarrow> 't \<Rightarrow> 't table \<Rightarrow> ((nat \<times> bool) \<times> 't table) result" where
  "emplace_new_key emp env d p x t =
     (if num_slots_minus_one t = 0 \<or> d = max_lookups t \<or> load_exceeded t
      then bindE (grow_with emp env t) (emp x)
      else bindE (entry_at (entries t) p) (\<lambda>c.
        if is_empty_entry c
        then Inr ((p, True), t\<lparr>entries := (entries t)[p := entry_emplace d x c], num_elements := num_elements t + 1\<rparr>)
        else bindE (the_value c) (\<lambda>v.
          bindE (displace (max_lookups t)
              ((entries t)[p := c\<lparr>distance_from_desired := d, entry_value := Some x\<rparr>])
              (p + 1) v (distance_from_desired c + 1)) (\<lambda>(cs, left).
            case left of
              None \<Rightarrow> Inr ((p, True), t\<lparr>entries := cs, num_elements := num_elements t + 1\<rparr>)
            | Some y \<Rightarrow>
                bindE (entry_at cs p) (\<lambda>result. bindE (the_value result) (\<lambda>to_insert.
                  bindE (grow_with emp env (t\<lparr>entries := cs[p := result\<lparr>entry_value := Some y\<rparr>]\<rparr>))
                    (emp to_insert)))))))"

definition emplace_step :: "'t emplacer \<Rightarrow> ('k, 't) hash_env \<Rightarrow> 't emplacer" where
  "emplace_step emp env x t =
     bindE (probe (key_of env) (key_of env x) (entries t) (unat (bucket env (key_of env x) t)) 0)
       (\<lambda>(p, d, found). if found then Inr ((p, False), t) else emplace_new_key emp env d p x t)"

primrec emplace_fuel :: "('k, 't) hash_env \<Rightarrow> nat \<Rightarrow> 't emplacer" where
  "emplace_fuel env 0 = (\<lambda>x t. Inl OutOfFuel)"
| "emplace_fuel env (Suc n) = emplace_step (emplace_fuel env n) env"

definition recursion_bound :: nat where
  "recursion_bound = 64"

definition emplace :: "('k, 't) hash_env \<Rightarrow> 't emplacer" where
  "emplace env = emplace_fuel env recursion_bound"

fun insert_range :: "('k, 't) hash_env \<Rightarrow> 't list \<Rightarrow> 't table \<Rightarrow> 't table result" where
  "insert_range env [] t = Inr t"
| "insert_range env (v # vs) t = bindE (emplace env v t) (\<lambda>(_, t). insert_range env vs t)"

definition rehash :: "('k, 't) hash_env \<Rightarrow> u64 \<Rightarrow> 't table \<Rightarrow> 't table result" where
  "rehash env = rehash_with (emplace env) env"

definition num_buckets_for_reserve :: "'t table \<Rightarrow> u64 \<Rightarrow> u64 result" where
  "num_buckets_for_reserve t n =
     size_of_ceil (ddiv (double_of_u64 n)
       (if dless (max_load_factor t) (Fin (1 / 2)) then max_load_factor t else Fin (1 / 2)))"

definition reserve :: "('k, 't) hash_env \<Rightarrow> u64 \<Rightarrow> 't table \<Rightarrow> 't table result" where
  "reserve env n t =
     bindE (num_buckets_for_reserve t n) (\<lambda>required_buckets.
       if bucket_count t < required_buckets then rehash env required_buckets t else Inr t)"

definition rehash_for_other_container ::
  "('k, 't) hash_env \<Rightarrow> 't table \<Rightarrow> 't table \<Rightarrow> 't table result" where
  "rehash_for_other_container env other t =
     bindE (num_buckets_for_reserve t (num_elements other)) (\<lambda>n. rehash env (min n (bucket_count other)) t)"

definition shrink_to_fit :: "('k, 't) hash_env \<Rightarrow> 't table \<Rightarrow> 't table result" where
  "shrink_to_fit env t = rehash_for_other_container env t t"

section \<open>Erasure\<close>

text \<open>The result of \<^verbatim>\<open>erase\<close> is a position, which \<open>to_iterator\<close> turns into the next iterator.\<close>

definition erase_at :: "nat \<Rightarrow> 't table \<Rightarrow> (nat \<times> 't table) result" where
  "erase_at p t =
     bindE (entry_at (entries t) p) (\<lambda>c. bindE (destroy_value c) (\<lambda>c'.
       bindE (shift_back ((entries t)[p := c']) p) (\<lambda>cs.
         Inr (p, t\<lparr>entries := cs, num_elements := num_elements t - 1\<rparr>))))"

definition to_iterator :: "'t table \<Rightarrow> nat \<Rightarrow> nat result" where
  "to_iterator t p = bindE (entry_at (entries t) p) (\<lambda>c. if has_value c then Inr p else next_it t p)"

definition erase_range :: "nat \<Rightarrow> nat \<Rightarrow> 't table \<Rightarrow> (nat \<times> 't table) result" where
  "erase_range b e t =
     (if b = e then Inr (b, t)
      else bindE (destroy_range (entries t) b e (num_elements t)) (\<lambda>(cs, n).
        if e = end_index t then Inr (end_index t, t\<lparr>entries := cs, num_elements := n\<rparr>)
        else bindE (entry_at cs e) (\<lambda>c.
          let num_to_move = min (distance_from_desired c) (int e - int b) in
          bindE (shift_range cs e num_to_move) (\<lambda>cs.
            Inr (nat (int e - num_to_move), t\<lparr>entries := cs, num_elements := n\<rparr>)))))"

definition erase_key :: "('k, 't) hash_env \<Rightarrow> 'k \<Rightarrow> 't table \<Rightarrow> (nat \<times> 't table) result" where
  "erase_key env k t =
     bindE (find_key env k t) (\<lambda>found.
       if found = end_index t then Inr (0, t)
       else bindE (erase_at found t) (\<lambda>(_, t). Inr (1, t)))"

definition clear :: "'t table \<Rightarrow> 't table result" where
  "clear t = bindE (destroy_range (entries t) 0 (end_index t) 0) (\<lambda>(cs, _). Inr (t\<lparr>entries := cs, num_elements := 0\<rparr>))"

section \<open>Construction, copy, move, swap\<close>

definition set_max_load_factor :: "dbl \<Rightarrow> 't table \<Rightarrow> 't table" where
  "set_max_load_factor v t = t\<lparr>max_load_factor := v\<rparr>"

definition swap_pointers :: "'t table \<Rightarrow> 't table \<Rightarrow> 't table \<times> 't table" where
  "swap_pointers t u =
     (\<lparr>entries = entries u, num_slots_minus_one = num_slots_minus_one u, hash_policy = hash_policy u,
       max_lookups = max_lookups u, max_load_factor = max_load_factor u, num_elements = num_elements u\<rparr>,
      \<lparr>entries = entries t, num_slots_minus_one = num_slots_minus_one t, hash_policy = hash_policy t,
       max_lookups = max_lookups t, max_load_factor = max_load_factor t, num_elements = num_elements t\<rparr>)"

definition construct_sized :: "('k, 't) hash_env \<Rightarrow> hash_policy \<Rightarrow> u64 \<Rightarrow> 't table result" where
  "construct_sized env p n = rehash env n (new_table p)"

definition construct_range :: "('k, 't) hash_env \<Rightarrow> hash_policy \<Rightarrow> 't list \<Rightarrow> u64 \<Rightarrow> 't table result" where
  "construct_range env p vs n = bindE (construct_sized env p n) (insert_range env vs)"

definition construct_list :: "('k, 't) hash_env \<Rightarrow> hash_policy \<Rightarrow> 't list \<Rightarrow> u64 \<Rightarrow> 't table result" where
  "construct_list env p il n =
     bindE (construct_sized env p n) (\<lambda>t.
       bindE (if n = 0 then rehash env (of_nat (length il)) t else Inr t) (insert_range env il))"

text \<open>The copy constructor rethrows what its body throws.\<close>

definition copy_construct :: "('k, 't) hash_env \<Rightarrow> 't table \<Rightarrow> 't table result" where
  "copy_construct env other =
     bindE (rehash_for_other_container env other
        ((new_table (hash_policy other))\<lparr>max_load_factor := max_load_factor other\<rparr>)) (\<lambda>t.
       bindE (elements other) (\<lambda>vs. insert_range env vs t))"

text \<open>
  The assignments with \<^verbatim>\<open>std::allocator\<close>, which is not propagated by a copy and is by a move;
  the other table is another object.
\<close>

definition copy_assign :: "('k, 't) hash_env \<Rightarrow> 't table \<Rightarrow> 't table \<Rightarrow> 't table result" where
  "copy_assign env other t =
     bindE (clear t) (\<lambda>t.
       bindE (rehash_for_other_container env other (t\<lparr>max_load_factor := max_load_factor other\<rparr>)) (\<lambda>t.
         bindE (elements other) (\<lambda>vs. insert_range env vs t)))"

definition move_construct :: "'t table \<Rightarrow> 't table \<times> 't table" where
  "move_construct other = swap_pointers (new_table (hash_policy other)) other"

definition move_assign :: "'t table \<Rightarrow> 't table \<Rightarrow> ('t table \<times> 't table) result" where
  "move_assign other t = bindE (clear t) (\<lambda>t. Inr (swap_pointers (reset_to_empty_state t) other))"

section \<open>\<^verbatim>\<open>flat_hash_map\<close> and \<^verbatim>\<open>flat_hash_set\<close>\<close>

text \<open>\<^verbatim>\<open>operator[]\<close> returns the position of the element; \<open>dflt\<close> is \<^verbatim>\<open>V()\<close>.\<close>

definition subscript ::
  "('k, 'k \<times> 'v) hash_env \<Rightarrow> 'v \<Rightarrow> 'k \<Rightarrow> ('k \<times> 'v) table \<Rightarrow> (nat \<times> ('k \<times> 'v) table) result" where
  "subscript env dflt k t = bindE (emplace env (k, dflt) t) (\<lambda>((p, _), t). Inr (p, t))"

definition at_key :: "('k, 'k \<times> 'v) hash_env \<Rightarrow> 'k \<Rightarrow> ('k \<times> 'v) table \<Rightarrow> 'v result" where
  "at_key env k t =
     bindE (find_key env k t) (\<lambda>found.
       if found = end_index t then Inl OutOfRange else bindE (deref t found) (\<lambda>v. Inr (snd v)))"

definition assign_at :: "nat \<Rightarrow> 'v \<Rightarrow> ('k \<times> 'v) table \<Rightarrow> ('k \<times> 'v) table result" where
  "assign_at p m t =
     bindE (entry_at (entries t) p) (\<lambda>c. bindE (the_value c) (\<lambda>v.
       Inr (t\<lparr>entries := (entries t)[p := c\<lparr>entry_value := Some (fst v, m)\<rparr>]\<rparr>)))"

definition insert_or_assign ::
  "('k, 'k \<times> 'v) hash_env \<Rightarrow> 'k \<Rightarrow> 'v \<Rightarrow> ('k \<times> 'v) table \<Rightarrow> ((nat \<times> bool) \<times> ('k \<times> 'v) table) result" where
  "insert_or_assign env k m t =
     bindE (emplace env (k, m) t) (\<lambda>((p, new), t).
       if new then Inr ((p, new), t) else bindE (assign_at p m t) (\<lambda>t. Inr ((p, new), t)))"

fun all_equal_in ::
  "('k, 'k \<times> 'v) hash_env \<Rightarrow> ('k \<times> 'v) list \<Rightarrow> ('k \<times> 'v) table \<Rightarrow> bool result" where
  "all_equal_in env [] rhs = Inr True"
| "all_equal_in env (v # vs) rhs =
     bindE (find_key env (fst v) rhs) (\<lambda>found.
       if found = end_index rhs then Inr False
       else bindE (deref rhs found) (\<lambda>w. if snd v \<noteq> snd w then Inr False else all_equal_in env vs rhs))"

definition map_equal :: "('k, 'k \<times> 'v) hash_env \<Rightarrow> ('k \<times> 'v) table \<Rightarrow> ('k \<times> 'v) table \<Rightarrow> bool result" where
  "map_equal env lhs rhs =
     (if num_elements lhs \<noteq> num_elements rhs then Inr False
      else bindE (elements lhs) (\<lambda>vs. all_equal_in env vs rhs))"

fun all_found_in :: "('k, 'k) hash_env \<Rightarrow> 'k list \<Rightarrow> 'k table \<Rightarrow> bool result" where
  "all_found_in env [] rhs = Inr True"
| "all_found_in env (v # vs) rhs =
     bindE (find_key env v rhs) (\<lambda>found. if found = end_index rhs then Inr False else all_found_in env vs rhs)"

definition set_equal :: "('k, 'k) hash_env \<Rightarrow> 'k table \<Rightarrow> 'k table \<Rightarrow> bool result" where
  "set_equal env lhs rhs =
     (if num_elements lhs \<noteq> num_elements rhs then Inr False
      else bindE (elements lhs) (\<lambda>vs. all_found_in env vs rhs))"

end
