(* ===== verification/HashMap.thy ===== *)
theory HashMap
  imports HashTable
begin

text \<open>
  The hash map as a map: the invariant of a table, and for every operation that it keeps the
  invariant, reads no entry without a value, and has the effect of the operation of the same name
  on the finite map of what the table holds.
\<close>

section \<open>Sizes computed in floating point\<close>

lemma rnd_bounds:
  assumes "0 \<le> x"
  shows "0 \<le> rnd x" and "rnd x \<le> 2 * x"
proof -
  have "\<bar>rnd x - x\<bar> \<le> x / 2 ^ 53" using rnd_error [of x] assms by (simp add: unit_roundoff_def)
  moreover have "x / 2 ^ 53 \<le> x" using assms by (simp add: field_simps)
  ultimately show "0 \<le> rnd x" and "rnd x \<le> 2 * x" by linarith+
qed

lemma rnd_positive:
  assumes "0 < x"
  shows "0 < rnd x"
proof -
  have "\<bar>rnd x - x\<bar> \<le> x / 2 ^ 53" using rnd_error [of x] assms by (simp add: unit_roundoff_def)
  moreover have "x / 2 ^ 53 < x" using assms by (simp add: field_simps)
  ultimately show ?thesis by linarith
qed

lemma quotient_bounded:
  assumes "unat n \<le> 2 ^ 50" and "1 / 256 \<le> r"
  obtains k where "size_of_ceil (ddiv (double_of_u64 n) (Fin r)) = Inr k" and "k \<le> 2 ^ 62" and "k = 0 \<longrightarrow> n = 0"
proof -
  define x where "x = (of_int (uint n) :: rat)"
  let ?a = "rnd x"
  have "(of_nat (unat n) :: rat) \<le> of_nat (2 ^ 50)" using assms(1) by (simp only: of_nat_le_iff)
  then have "x \<le> 2 ^ 50" by (simp add: x_def)
  moreover have x: "0 \<le> x" by (simp only: x_def of_int_0_le_iff uint_ge_0)
  ultimately have a: "0 \<le> ?a" "?a \<le> 2 ^ 51" using rnd_bounds [of x] by simp_all
  have r: "0 < r" using assms(2) by linarith
  have "?a \<le> 2 ^ 59 * r"
    using a(2) mult_left_mono [OF assms(2), of "2 ^ 59"] by simp
  then have q: "0 \<le> ?a / r" "?a / r \<le> 2 ^ 59" using a r by (simp_all add: field_simps)
  let ?q = "rnd (?a / r)"
  have "0 \<le> ?q" "?q \<le> 2 ^ 60" using rnd_bounds [OF q(1)] q(2) by simp_all
  then have c: "0 \<le> \<lceil>?q\<rceil>" "\<lceil>?q\<rceil> \<le> 2 ^ 60" by (simp_all add: ceiling_le_iff)
  let ?k = "of_int \<lceil>?q\<rceil> :: u64"
  have "uint ?k = \<lceil>?q\<rceil>" using c by (simp add: uint_word_of_int)
  then have "?k \<le> 2 ^ 62" using c(2) by (simp add: word_le_def)
  moreover have "?k = 0 \<longrightarrow> n = 0"
  proof (rule impI, rule ccontr)
    assume k: "?k = 0" and "n \<noteq> 0"
    then have "0 < uint n" by (metis uint_0_iff uint_ge_0 less_le)
    then have "0 < x" by (simp only: x_def of_int_0_less_iff)
    then have "0 < ?q" using r by (intro rnd_positive divide_pos_pos)
    moreover have "\<lceil>?q\<rceil> = 0" using k \<open>uint ?k = \<lceil>?q\<rceil>\<close> by simp
    ultimately show False by linarith
  qed
  moreover have "size_of_ceil (ddiv (double_of_u64 n) (Fin r)) = Inr ?k"
    using c r by (simp add: double_of_u64_def double_of_int_def x_def)
  ultimately show thesis by (intro that)
qed

section \<open>The invariant\<close>

text \<open>
  \<open>2\<^sup>4\<^sup>7\<close> bytes of address space hold no more entries, each of which has at least two bytes. A load
  factor of at least 1/256 keeps the number of slots computed from a number of elements in range.
\<close>

definition alloc_ok :: "('k, 't) hash_env \<Rightarrow> bool" where
  "alloc_ok env \<longleftrightarrow> (\<forall>n. can_allocate env n \<longrightarrow> unat n \<le> 2 ^ 47)"

definition load_ok :: "dbl \<Rightarrow> bool" where
  "load_ok d \<longleftrightarrow> (case d of Fin r \<Rightarrow> 1 / 256 \<le> r | _ \<Rightarrow> False)"

definition home :: "('k, 't) hash_env \<Rightarrow> 't table \<Rightarrow> 't \<Rightarrow> nat" where
  "home env t v = unat (bucket env (key_of env v) t)"

abbreviation contents :: "'t table \<Rightarrow> 't multiset" where
  "contents t \<equiv> contents_of (entries t)"

abbreviation stored :: "'t table \<Rightarrow> 't list" where
  "stored t \<equiv> values_of (entries t)"

text \<open>All but the order of the entries; the table of \<^verbatim>\<open>empty_default_table\<close> is a case of its own.\<close>

definition index_ok :: "'t table \<Rightarrow> bool" where
  "index_ok t \<longleftrightarrow>
     (\<forall>h. index_for_hash (hash_policy t) h (num_slots_minus_one t) \<le> num_slots_minus_one t)
     \<or> stored t = [] \<and> num_slots_minus_one t = 0 \<and> max_lookups t = 3
       \<and> (\<forall>h. index_for_hash (hash_policy t) h 0 \<le> 1)"

definition store_ok :: "('k, 't) hash_env \<Rightarrow> 't table \<Rightarrow> bool" where
  "store_ok env t \<longleftrightarrow>
     shape (max_lookups t) (entries t) \<and> 0 < max_lookups t \<and> max_lookups t \<le> 63
     \<and> length (entries t) = unat (num_slots_minus_one t) + nat (max_lookups t) + 1
     \<and> length (entries t) \<le> 2 ^ 47
     \<and> distinct (map (key_of env) (stored t)) \<and> unat (num_elements t) = length (stored t)
     \<and> load_ok (max_load_factor t) \<and> index_ok t"

definition table_ok :: "('k, 't) hash_env \<Rightarrow> 't table \<Rightarrow> bool" where
  "table_ok env t \<longleftrightarrow> store_ok env t \<and> robin (home env t) (max_lookups t) (entries t)"

lemma store_okD:
  assumes "store_ok env t"
  shows "shape (max_lookups t) (entries t)" and "0 < max_lookups t" and "max_lookups t \<le> 63"
    and "length (entries t) = unat (num_slots_minus_one t) + nat (max_lookups t) + 1"
    and "length (entries t) \<le> 2 ^ 47" and "distinct (map (key_of env) (stored t))"
    and "unat (num_elements t) = length (stored t)" and "load_ok (max_load_factor t)" and "index_ok t"
  using assms by (simp_all add: store_ok_def)

lemma table_okD:
  assumes "table_ok env t"
  shows "store_ok env t" and "robin (home env t) (max_lookups t) (entries t)"
  using assms by (simp_all add: table_ok_def)

lemma end_index:
  assumes "store_ok env t"
  shows "end_index t = length (entries t) - 1"
proof -
  note s = store_okD [OF assms]
  have "of_int (max_lookups t) = (of_nat (nat (max_lookups t)) :: u64)" using s(2) by simp
  then show ?thesis
    using s(2-5) unat_plus_of_nat [of "num_slots_minus_one t" "nat (max_lookups t)"] by (simp add: end_index_def)
qed

lemma values_length_le: "length (values_of cs) \<le> length cs"
  by (induction cs) (auto split: option.split)

lemma num_elements_bound:
  assumes "store_ok env t"
  shows "unat (num_elements t) \<le> 2 ^ 47"
  using store_okD(5,7) [OF assms] values_length_le [of "entries t"] by linarith

lemma needed_bounded:
  assumes "store_ok env t"
  obtains k where "size_of_ceil (ddiv (double_of_u64 (num_elements t)) (max_load_factor t)) = Inr k" and "k \<le> 2 ^ 62"
    and "k = 0 \<longrightarrow> stored t = []"
proof -
  obtain r where r: "max_load_factor t = Fin r" "1 / 256 \<le> r"
    using store_okD(8) [OF assms] by (auto simp: load_ok_def split: dbl.splits)
  have "unat (num_elements t) \<le> 2 ^ 50" using num_elements_bound [OF assms] by simp
  then obtain k where "size_of_ceil (ddiv (double_of_u64 (num_elements t)) (Fin r)) = Inr k" "k \<le> 2 ^ 62"
      "k = 0 \<longrightarrow> num_elements t = 0"
    by (rule quotient_bounded [OF _ r(2)])
  moreover from this(3) have "k = 0 \<longrightarrow> stored t = []" using store_okD(7) [OF assms] by auto
  ultimately show thesis using that r(1) by simp
qed

section \<open>Probing a table\<close>

lemma probe_empty:
  assumes "shape m cs" and "values_of cs = []" and "p < length cs - 1"
  shows "probe g k cs p 0 = Inr (p, 0, False)" and "dst cs p = -1"
proof -
  have "val cs p = None" using assms(2,3) set_values_of [of _ cs] by (cases "val cs p") auto
  then show "dst cs p = -1" using shapeD(3) [OF assms(1,3)] by simp
  then show "probe g k cs p 0 = Inr (p, 0, False)" using assms(3) by (simp add: probe_step)
qed

lemma probe_table:
  assumes "table_ok env t"
  obtains p d f where "probe (key_of env) k (entries t) (unat (bucket env k t)) 0 = Inr (p, d, f)"
    and "f \<Longrightarrow> p < length (entries t) - 1 \<and> (\<exists>v. val (entries t) p = Some v \<and> key_of env v = k)"
    and "\<not> f \<Longrightarrow> k \<notin> set (map (key_of env) (stored t))"
    and "\<not> f \<Longrightarrow> num_slots_minus_one t \<noteq> 0 \<Longrightarrow> 0 \<le> d \<and> d \<le> max_lookups t \<and> dst (entries t) p < d
       \<and> int p = int (unat (bucket env k t)) + d \<and> (\<forall>q. p = Suc q \<longrightarrow> d \<le> dst (entries t) q + 1)"
proof -
  let ?cs = "entries t" and ?h = "unat (bucket env k t)" and ?m = "max_lookups t"
  note s = store_okD [OF table_okD(1) [OF assms]] and robin = table_okD(2) [OF assms]
  show thesis
  proof (cases "\<forall>h. index_for_hash (hash_policy t) h (num_slots_minus_one t) \<le> num_slots_minus_one t")
    case False
    then have e: "stored t = []" "?m = 3" "?h \<le> 1" "num_slots_minus_one t = 0"
      using s(9) by (auto simp: index_ok_def bucket_def word_le_nat_alt)
    then have "probe (key_of env) k ?cs ?h 0 = Inr (?h, 0, False)"
      using s(4) by (intro probe_empty(1) [OF s(1)]) simp_all
    then show thesis using e by (intro that [of ?h 0 False]) simp_all
  next
    case True
    then have h: "?h \<le> unat (num_slots_minus_one t)" by (simp add: bucket_def word_le_nat_alt)
    have "int (length ?cs - 1) = int (unat (num_slots_minus_one t)) + ?m" using s(2,4) by simp
    then have "int ?h + (?m - 0) \<le> int (length ?cs - 1)" using h by linarith
    then obtain p d f where r: "probe (key_of env) k ?cs ?h 0 = Inr (p, d, f)" "?h \<le> p" "int p - int ?h = d - 0" "d \<le> ?m"
        "p \<le> length ?cs - 1" "passed (key_of env) k ?cs ?h 0 p"
        "if f then d < ?m \<and> (\<exists>v. val ?cs p = Some v \<and> key_of env v = k) else dst ?cs p < d"
      using probe_result [OF s(1), of 0 ?h "key_of env" k] s(2) by auto
    have p: "p < length ?cs" using r(5) s(4) by simp
    have d: "0 \<le> d" using r(2,3) by linarith
    show thesis
    proof (rule that [OF r(1)])
      assume f
      then show "p < length ?cs - 1 \<and> (\<exists>v. val ?cs p = Some v \<and> key_of env v = k)"
        using r(7) p shape_value_bound [OF s(1)] by auto
    next
      assume "\<not> f"
      then have stop: "dst ?cs p < int p - int ?h" using r(3,7) by simp
      have "key_of env v \<noteq> k" if "v \<in> set (stored t)" for v
        by (rule probe_complete [OF robin r(6) r(2) p stop _ that]) (simp add: home_def)
      then show "k \<notin> set (map (key_of env) (stored t))" by auto
    next
      assume "\<not> f"
      moreover have "d \<le> dst ?cs q + 1" if q: "p = Suc q" for q
      proof (cases "?h \<le> q")
        case True
        then have "int (q - ?h) \<le> dst ?cs q" using r(6) q by (simp add: passed_def)
        then show ?thesis using True r(3) q by (simp add: of_nat_diff)
      next
        case False
        then have "p = ?h" using r(2) q by linarith
        then show ?thesis using r(3) q shape_dst_ge [OF s(1), of q] p by simp
      qed
      ultimately show "0 \<le> d \<and> d \<le> ?m \<and> dst ?cs p < d \<and> int p = int ?h + d
          \<and> (\<forall>q. p = Suc q \<longrightarrow> d \<le> dst ?cs q + 1)"
        using r d by simp
    qed
  qed
qed

section \<open>Allocation and growth\<close>

text \<open>The number of slots a table has, as the measure of its growth.\<close>

definition capacity :: "'t table \<Rightarrow> nat" where
  "capacity t = (if num_slots_minus_one t = 0 then 2 else unat (num_slots_minus_one t) + 1)"

lemma capacity_bound:
  assumes "store_ok env t"
  shows "2 \<le> capacity t" and "capacity t \<le> 2 ^ 47"
proof -
  note s = store_okD [OF assms]
  have "num_slots_minus_one t \<noteq> 0 \<Longrightarrow> 0 < unat (num_slots_minus_one t)" by (simp add: unat_gt_0)
  then show "2 \<le> capacity t" by (auto simp: capacity_def)
  show "capacity t \<le> 2 ^ 47" using s(2,4,5) by (simp add: capacity_def)
qed

lemma bucket_count_capacity:
  assumes "store_ok env t"
  shows "unat (bucket_count t) = (if num_slots_minus_one t = 0 then 0 else capacity t)"
proof -
  have "unat (num_slots_minus_one t) + 1 < 2 ^ 64" using store_okD(2,4,5) [OF assms] by simp
  then show ?thesis using unat_plus_of_nat [of "num_slots_minus_one t" 1] by (simp add: bucket_count_def capacity_def)
qed

text \<open>What a call of \<^verbatim>\<open>emplace\<close> promises: to throw \<^verbatim>\<open>std::bad_alloc\<close>, or to return this.\<close>

definition inserts :: "('k, 't) hash_env \<Rightarrow> 't \<Rightarrow> 't table \<Rightarrow> nat \<Rightarrow> bool \<Rightarrow> 't table \<Rightarrow> bool" where
  "inserts env x t p new t' \<longleftrightarrow>
     table_ok env t' \<and> capacity t \<le> capacity t' \<and> max_load_factor t' = max_load_factor t
     \<and> p < length (entries t') - 1 \<and> (\<exists>v. val (entries t') p = Some v \<and> key_of env v = key_of env x \<and> (new \<longrightarrow> v = x))
     \<and> (if key_of env x \<in> set (map (key_of env) (stored t)) then \<not> new \<and> t' = t
        else new \<and> contents t' = add_mset x (contents t))"

definition emplacer_ok :: "('k, 't) hash_env \<Rightarrow> nat \<Rightarrow> 't emplacer \<Rightarrow> bool" where
  "emplacer_ok env n emp \<longleftrightarrow>
     (\<forall>x t. table_ok env t \<longrightarrow> 2 ^ 48 < capacity t * 2 ^ n \<longrightarrow>
        emp x t = Inl BadAlloc \<or> (\<exists>p new t'. emp x t = Inr ((p, new), t') \<and> inserts env x t p new t'))"

lemma emplacer_okE:
  assumes "emplacer_ok env n emp" and "table_ok env t" and "2 ^ 48 < capacity t * 2 ^ n"
  obtains "emp x t = Inl BadAlloc" | p new t' where "emp x t = Inr ((p, new), t')" "inserts env x t p new t'"
  using assms unfolding emplacer_ok_def by blast

lemma inserts_fresh:
  assumes "inserts env x t p new t'" and "key_of env x \<notin> set (map (key_of env) (stored t))"
  shows "table_ok env t'" and "capacity t \<le> capacity t'" and "contents t' = add_mset x (contents t)"
    and "max_load_factor t' = max_load_factor t"
  using assms by (simp_all add: inserts_def)

lemma distinct_contents:
  "contents_of cs = contents_of ds + mset vs \<Longrightarrow>
   distinct (map g (values_of cs)) \<longleftrightarrow> distinct (map g (values_of ds @ vs))"
proof -
  assume "contents_of cs = contents_of ds + mset vs"
  then have "mset (map g (values_of cs)) = mset (map g (values_of ds @ vs))" by simp
  then show ?thesis by (rule mset_eq_imp_distinct_iff)
qed

lemma reinsert_correct:
  assumes "emplacer_ok env n emp" and "table_ok env t" and "2 ^ 48 < capacity t * 2 ^ n"
    and "\<And>c. c \<in> set cs \<Longrightarrow> has_value c \<longleftrightarrow> entry_value c \<noteq> None"
    and "distinct (map (key_of env) (stored t @ values_of cs))"
  shows "reinsert emp cs t = Inl BadAlloc \<or>
    (\<exists>t'. reinsert emp cs t = Inr t' \<and> table_ok env t' \<and> capacity t \<le> capacity t'
       \<and> contents t' = contents t + contents_of cs \<and> max_load_factor t' = max_load_factor t)"
  using assms(2-)
proof (induction cs arbitrary: t)
  case Nil
  then show ?case by simp
next
  case (Cons c cs)
  show ?case
  proof (cases "entry_value c")
    case None
    then show ?thesis using Cons by simp
  next
    case (Some v)
    have fresh: "key_of env v \<notin> set (map (key_of env) (stored t))" using Cons.prems(4) Some by auto
    have step: "reinsert emp (c # cs) t = bindE (emp v t) (\<lambda>(_, t). reinsert emp cs t)"
      using Cons.prems(3) [of c] Some by (simp add: the_value_def)
    show ?thesis
    proof (rule emplacer_okE [OF assms(1) Cons.prems(1,2), of v])
      assume "emp v t = Inl BadAlloc"
      then show ?thesis using step by simp
    next
      fix p new t1 assume r: "emp v t = Inr ((p, new), t1)" "inserts env v t p new t1"
      note i = inserts_fresh [OF r(2) fresh]
      have "capacity t * 2 ^ n \<le> capacity t1 * 2 ^ n" using i(2) by simp
      then have "2 ^ 48 < capacity t1 * 2 ^ n" using Cons.prems(2) by linarith
      moreover have "distinct (map (key_of env) (stored t1 @ values_of cs))"
      proof -
        have "mset (map (key_of env) (stored t1 @ values_of cs))
            = mset (map (key_of env) (stored t @ values_of (c # cs)))"
          using i(3) Some by simp
        then show ?thesis using Cons.prems(4) mset_eq_imp_distinct_iff by blast
      qed
      ultimately have "reinsert emp cs t1 = Inl BadAlloc \<or>
          (\<exists>t'. reinsert emp cs t1 = Inr t' \<and> table_ok env t' \<and> capacity t1 \<le> capacity t'
             \<and> contents t' = contents t1 + contents_of cs \<and> max_load_factor t' = max_load_factor t1)"
        using Cons.prems(3) i(1) by (intro Cons.IH) simp_all
      then show ?thesis using r(1) step i Some by auto
    qed
  qed
qed

lemma blank_entries:
  assumes "cs = replicate k empty_entry @ [end_entry]" and "0 \<le> m"
  shows "robin ix m cs" and "values_of cs = []" and "length cs = k + 1"
proof -
  have "cs ! p = (if p < k then empty_entry else end_entry)" if "p < length cs" for p
    using that assms(1) by (simp add: nth_append)
  then show "robin ix m cs"
    using assms by (auto simp: robin_def shape_def placed_def chain_def entry_defs)
  have "values_of (replicate n empty_entry) = ([] :: 'a list)" for n
    by (induction n) (simp_all add: empty_entry_def)
  then show "values_of cs = []" using assms(1) by (simp add: end_entry_def)
qed (simp add: assms(1))

lemma compute_max_lookups_bounds: "4 \<le> compute_max_lookups n" "n \<noteq> 0 \<Longrightarrow> compute_max_lookups n \<le> 63"
proof -
  show "4 \<le> compute_max_lookups n" by (simp add: compute_max_lookups_def min_lookups_def)
  assume "n \<noteq> 0"
  then obtain k where "k < 64" "log2 n = int k" by (rule log2_eq)
  then show "compute_max_lookups n \<le> 63" by (simp add: compute_max_lookups_def min_lookups_def)
qed

lemma room:
  assumes "0 < n" and "n \<le> 2 ^ 63" and "next_size_over p n = (sz, c)"
  shows "sz \<noteq> 0" and "unat (sz + of_int (compute_max_lookups sz)) = unat sz + nat (compute_max_lookups sz)"
    and "sz + of_int (compute_max_lookups sz) \<noteq> 0"
proof -
  let ?m = "compute_max_lookups sz"
  have sz: "n \<le> sz" "sz \<le> 14480561146010017169" using policy_size [OF assms] by simp_all
  then show nz: "sz \<noteq> 0" using assms(1) by auto
  note m = compute_max_lookups_bounds(1) [of sz] compute_max_lookups_bounds(2) [OF nz]
  have "unat sz \<le> 14480561146010017169" using sz(2) by (simp add: word_le_nat_alt)
  moreover have "nat ?m \<le> 63" using m by simp
  ultimately have "unat sz + nat ?m < 2 ^ 64" by simp
  moreover have of: "of_int ?m = (of_nat (nat ?m) :: u64)" using m by simp
  ultimately show sum: "unat (sz + of_int ?m) = unat sz + nat ?m" by (simp only: of unat_plus_of_nat)
  have "0 < unat sz" using nz by (simp add: unat_gt_0)
  then show "sz + of_int ?m \<noteq> 0" using sum by (metis add_gr_0 unat_0 less_irrefl)
qed

lemma allocated:
  assumes "alloc_ok env" and "load_ok (max_load_factor t)" and n: "0 < n" "n \<le> 2 ^ 63" "next_size_over (hash_policy t) n = (sz, c)"
    and "new_buckets env (sz + of_int (compute_max_lookups sz)) = Inr b"
    and t0: "t0 = t\<lparr>entries := b, num_slots_minus_one := sz - 1, hash_policy := commit c (hash_policy t),
      max_lookups := compute_max_lookups sz, num_elements := 0\<rparr>"
  shows "table_ok env t0" and "stored t0 = []" and "unat n \<le> capacity t0"
proof -
  let ?m = "compute_max_lookups sz"
  have sz: "n \<le> sz" using policy_size [OF n] by simp
  note nz = room(1) [OF n] and sum = room(2) [OF n] and n0 = room(3) [OF n]
  note m = compute_max_lookups_bounds(1) [of sz] compute_max_lookups_bounds(2) [OF nz]
  have pos: "0 < unat sz" using nz by (simp add: unat_gt_0)
  have pred: "unat (sz - 1) = unat sz - 1" using nz by (simp add: unat_minus_one)
  have b: "b = replicate (unat sz + nat ?m - 1) empty_entry @ [end_entry]" "can_allocate env (sz + of_int ?m)"
    using assms(6) n0 sum by (auto simp: new_buckets_def unat_minus_one split: if_splits)
  note blank = blank_entries [OF b(1), of ?m]
  have len: "length b = unat (sz - 1) + nat ?m + 1" using blank(3) m pos pred by simp
  have "unat (sz + of_int ?m) \<le> 2 ^ 47" using assms(1) b(2) unfolding alloc_ok_def by blast
  then have "unat sz + nat ?m \<le> 2 ^ 47" by (simp only: sum)
  then have small: "length b \<le> 2 ^ 47" using len pred pos by simp
  have "index_for_hash (commit c (hash_policy t)) h (sz - 1) \<le> sz - 1" for h
    using policy_index [OF n, of h] pred by (simp add: word_le_nat_alt)
  then have "index_ok t0" by (simp add: index_ok_def t0)
  then show "table_ok env t0"
    using blank m len small assms(2) by (simp add: table_ok_def store_ok_def t0 robin_def)
  show "stored t0 = []" using blank(2) m by (simp add: t0)
  show "unat n \<le> capacity t0"
    using sz pos pred by (auto simp: capacity_def t0 word_le_nat_alt)
qed

lemma reset_ok:
  assumes "store_ok env t" and "stored t = []"
  shows "table_ok env (reset_to_empty_state t)" and "stored (reset_to_empty_state t) = []"
proof -
  let ?t = "reset_to_empty_state t"
  have b: "entries ?t = replicate 3 empty_entry @ [end_entry]"
    by (simp add: reset_to_empty_state_def empty_default_table_def numeral_3_eq_3)
  note blank = blank_entries [OF b, of 3]
  show "stored ?t = []" by (rule blank(2)) simp
  have "index_ok ?t"
    using policy_reset_index [of "hash_policy t"] blank(2)
    by (simp add: index_ok_def) (simp add: reset_to_empty_state_def min_lookups_def)
  moreover have "num_elements t = 0" using store_okD(7) [OF assms(1)] assms(2) by (simp add: unat_eq_0)
  ultimately show "table_ok env ?t"
    using blank store_okD(8) [OF assms(1)]
    by (simp add: table_ok_def store_ok_def robin_def reset_to_empty_state_def min_lookups_def)
qed

lemma old_entries:
  assumes "store_ok env t"
  shows "old_entries t = Inr (take (length (entries t) - 1) (entries t))"
    and "values_of (take (length (entries t) - 1) (entries t)) = stored t"
    and "c \<in> set (take (length (entries t) - 1) (entries t)) \<Longrightarrow> has_value c \<longleftrightarrow> entry_value c \<noteq> None"
proof -
  let ?cs = "entries t"
  note s = store_okD [OF assms]
  show "old_entries t = Inr (take (length ?cs - 1) ?cs)" by (simp add: old_entries_def end_index [OF assms])
  have "drop (length ?cs - 1) ?cs = [end_entry]"
    using s(4) shape_end [OF s(1)] by (simp add: Cons_nth_drop_Suc [symmetric])
  then have "?cs = take (length ?cs - 1) ?cs @ [end_entry]" by (metis append_take_drop_id)
  then have "stored t = values_of (take (length ?cs - 1) ?cs @ [end_entry])" by simp
  then show "values_of (take (length ?cs - 1) ?cs) = stored t" by (simp add: end_entry_def)
  show "has_value c \<longleftrightarrow> entry_value c \<noteq> None" if c: "c \<in> set (take (length ?cs - 1) ?cs)"
  proof -
    obtain p where "p < length ?cs - 1" "c = ?cs ! p" using c by (auto simp: in_set_conv_nth)
    then show ?thesis using shapeD [OF s(1), of p] by (auto simp: has_value_def)
  qed
qed

lemma rehash_correct:
  assumes emp: "emplacer_ok env n emp" and store: "store_ok env t" and alloc: "alloc_ok env"
    and nb: "nb \<le> 2 ^ 63" and fuel: "2 ^ 48 < max 2 (unat nb) * 2 ^ n"
  shows "rehash_with emp env nb t = Inl BadAlloc \<or>
    (\<exists>t'. rehash_with emp env nb t = Inr t' \<and> contents t' = contents t \<and> max_load_factor t' = max_load_factor t
       \<and> (table_ok env t \<longrightarrow> table_ok env t')
       \<and> (bucket_count t < nb \<longrightarrow> table_ok env t' \<and> unat nb \<le> capacity t'))"
proof -
  obtain k where k: "size_of_ceil (ddiv (double_of_u64 (num_elements t)) (max_load_factor t)) = Inr k"
      "k \<le> 2 ^ 62" "k = 0 \<longrightarrow> stored t = []"
    by (rule needed_bounded [OF store])
  obtain sz c where sz: "next_size_over (hash_policy t) (max nb k) = (sz, c)" by fastforce
  consider "max nb k = 0" | "max nb k \<noteq> 0" "sz = bucket_count t" | "max nb k \<noteq> 0" "sz \<noteq> bucket_count t" by blast
  then show ?thesis
  proof cases
    case 1
    then have zero: "k = 0" "nb = 0" by (auto simp: max_def split: if_splits)
    then show ?thesis
      using k(1,3) reset_ok [OF store] by (simp add: rehash_with_def reset_to_empty_state_def)
  next
    case 2
    have "max nb k \<le> 2 ^ 63" using nb k(2) by (auto simp: max_def elim: order_trans)
    moreover have "0 < max nb k" using 2(1) by (simp add: word_neq_0_conv)
    ultimately have "nb \<le> sz" using policy_size(1) [OF _ _ sz] by (auto simp: le_max_iff_disj)
    then have "\<not> bucket_count t < nb" using 2(2) by simp
    then show ?thesis using k(1) sz 2 by (simp add: rehash_with_def Let_def)
  next
    case 3
    let ?m = "compute_max_lookups sz"
    have n: "max nb k \<le> 2 ^ 63" "0 < max nb k" using nb k(2) 3(1) by (auto simp: max_def word_neq_0_conv elim: order_trans)
    have step: "rehash_with emp env nb t =
       bindE (new_buckets env (sz + of_int ?m)) (\<lambda>b. reinsert emp (take (length (entries t) - 1) (entries t))
         (t\<lparr>entries := b, num_slots_minus_one := sz - 1, hash_policy := commit c (hash_policy t),
            max_lookups := ?m, num_elements := 0\<rparr>))"
      using k(1) sz 3 old_entries(1) [OF store] by (simp add: rehash_with_def Let_def)
    show ?thesis
    proof (cases "new_buckets env (sz + of_int ?m)")
      case (Inl e)
      moreover have "sz + of_int ?m \<noteq> 0" by (rule room(3) [OF n(2,1) sz])
      ultimately show ?thesis using step by (simp add: new_buckets_def split: if_splits)
    next
      case (Inr b)
      define t0 where "t0 = t\<lparr>entries := b, num_slots_minus_one := sz - 1, hash_policy := commit c (hash_policy t),
            max_lookups := ?m, num_elements := 0\<rparr>"
      have t0: "table_ok env t0" "stored t0 = []" "unat (max nb k) \<le> capacity t0"
        using allocated [OF alloc store_okD(8) [OF store] n(2,1) sz Inr t0_def] by simp_all
      have "unat nb \<le> capacity t0" using t0(3) by (auto simp: max_def word_le_nat_alt split: if_splits)
      then have "max 2 (unat nb) \<le> capacity t0" using capacity_bound(1) [OF table_okD(1) [OF t0(1)]] by simp
      then have "max 2 (unat nb) * 2 ^ n \<le> capacity t0 * 2 ^ n" by simp
      then have "2 ^ 48 < capacity t0 * 2 ^ n" using fuel by linarith
      then have "reinsert emp (take (length (entries t) - 1) (entries t)) t0 = Inl BadAlloc \<or>
        (\<exists>t'. reinsert emp (take (length (entries t) - 1) (entries t)) t0 = Inr t' \<and> table_ok env t'
           \<and> capacity t0 \<le> capacity t' \<and> contents t' = contents t0 + mset (stored t)
           \<and> max_load_factor t' = max_load_factor t0)"
        using reinsert_correct [OF emp t0(1), of "take (length (entries t) - 1) (entries t)"]
          old_entries(2,3) [OF store] store_okD(6) [OF store] t0(2) by simp
      then show ?thesis using step Inr t0(2) \<open>unat nb \<le> capacity t0\<close> by (auto simp: t0_def [symmetric]) (simp_all add: t0_def)
    qed
  qed
qed

lemma grow_correct:
  assumes emp: "emplacer_ok env n emp" and store: "store_ok env t" and alloc: "alloc_ok env"
    and fuel: "2 ^ 48 < capacity t * 2 ^ Suc n"
  shows "grow_with emp env t = Inl BadAlloc \<or>
    (\<exists>t'. grow_with emp env t = Inr t' \<and> table_ok env t' \<and> contents t' = contents t
       \<and> max_load_factor t' = max_load_factor t \<and> 2 * capacity t \<le> capacity t')"
proof -
  note cap = capacity_bound [OF store] and bc = bucket_count_capacity [OF store]
  let ?n = "max 4 (2 * bucket_count t)"
  have "unat (bucket_count t) \<le> 2 ^ 47" using cap(2) bc by simp
  then have "unat (2 * bucket_count t) = 2 * unat (bucket_count t)" by (simp add: unat_word_ariths)
  then have n: "unat ?n = 2 * capacity t"
    using cap(1) bc by (auto simp: max_def word_le_nat_alt capacity_def split: if_splits)
  have "?n \<le> 2 ^ 63" using n cap(2) by (simp add: word_le_nat_alt)
  moreover have "2 ^ 48 < max 2 (unat ?n) * 2 ^ n" using fuel n cap(1) by simp
  moreover have "bucket_count t < ?n" using n cap(1) bc by (simp add: word_less_nat_alt)
  ultimately show ?thesis using rehash_correct [OF emp store alloc, of ?n] n by (auto simp: grow_with_def)
qed

section \<open>Insertion\<close>

lemma index_ok_full: "index_ok t \<Longrightarrow> num_slots_minus_one t \<noteq> 0 \<Longrightarrow>
    index_for_hash (hash_policy t) h (num_slots_minus_one t) \<le> num_slots_minus_one t"
  by (auto simp: index_ok_def)

lemma home_fits:
  assumes "store_ok env t" and "num_slots_minus_one t \<noteq> 0"
  shows "int (home env t v) + max_lookups t \<le> int (length (entries t) - 1)"
proof -
  note s = store_okD [OF assms(1)]
  have "home env t v \<le> unat (num_slots_minus_one t)"
    using index_ok_full [OF s(9) assms(2)] by (simp add: home_def bucket_def word_le_nat_alt)
  moreover have "int (length (entries t) - 1) = int (unat (num_slots_minus_one t)) + max_lookups t"
    using s(2,4) by simp
  ultimately show ?thesis by linarith
qed

lemma store_same:
  assumes "store_ok env t" and "contents_of cs = contents t" and "shape (max_lookups t) cs" and "length cs = length (entries t)"
  shows "store_ok env (t\<lparr>entries := cs\<rparr>)"
proof -
  note s = store_okD [OF assms(1)]
  have "mset (map (key_of env) (values_of cs)) = mset (map (key_of env) (stored t))" using assms(2) by simp
  then have "distinct (map (key_of env) (values_of cs))" using s(6) mset_eq_imp_distinct_iff by blast
  moreover have "length (values_of cs) = length (stored t)" using assms(2) by (rule mset_eq_length)
  moreover have "index_ok (t\<lparr>entries := cs\<rparr>)" using s(9) assms(2) by (auto simp: index_ok_def)
  ultimately show ?thesis using s assms(3,4) by (simp add: store_ok_def)
qed

lemma home_update [simp]: "home env (t\<lparr>entries := cs\<rparr>) = home env t" "home env (t\<lparr>num_elements := n\<rparr>) = home env t"
  by (simp_all add: home_def bucket_def fun_eq_iff)

lemma table_insert:
  assumes "store_ok env t" and "num_slots_minus_one t \<noteq> 0" and "key_of env x \<notin> set (map (key_of env) (stored t))"
    and "contents_of cs = add_mset x (contents t)" and "robin (home env t) (max_lookups t) cs" and "length cs = length (entries t)"
  shows "table_ok env (t\<lparr>entries := cs, num_elements := num_elements t + 1\<rparr>)"
proof -
  note s = store_okD [OF assms(1)]
  have "mset (map (key_of env) (values_of cs)) = mset (map (key_of env) (x # stored t))" using assms(4) by simp
  moreover have "distinct (map (key_of env) (x # stored t))" using s(6) assms(3) by simp
  ultimately have "distinct (map (key_of env) (values_of cs))" using mset_eq_imp_distinct_iff by blast
  moreover have "mset (values_of cs) = mset (x # stored t)" using assms(4) by simp
  then have "length (values_of cs) = length (x # stored t)" by (rule mset_eq_length)
  then have "unat (num_elements t + 1) = length (values_of cs)"
    using num_elements_bound [OF assms(1)] s(7) unat_plus_of_nat [of "num_elements t" 1] by simp
  moreover have "index_ok (t\<lparr>entries := cs, num_elements := num_elements t + 1\<rparr>)"
    using index_ok_full [OF s(9) assms(2)] by (simp add: index_ok_def)
  ultimately show ?thesis using s assms(5,6) by (simp add: table_ok_def store_ok_def robin_def)
qed

lemma inserts_regrown:
  assumes "inserts env x t1 p new t'" and "contents t1 = contents t" and "capacity t \<le> capacity t1"
    and "max_load_factor t1 = max_load_factor t" and "key_of env x \<notin> set (map (key_of env) (stored t))"
  shows "inserts env x t p new t'"
proof -
  have "set_mset (contents t1) = set_mset (contents t)" by (simp only: assms(2))
  then have "key_of env x \<notin> set (map (key_of env) (stored t1))" using assms(5) by simp
  then show ?thesis using assms unfolding inserts_def by auto
qed

lemma grow_and_emplace:
  assumes emp: "emplacer_ok env n emp" and store: "store_ok env t1" and alloc: "alloc_ok env"
    and same: "contents t1 = contents t" "capacity t1 = capacity t" "max_load_factor t1 = max_load_factor t"
    and fuel: "2 ^ 48 < capacity t * 2 ^ Suc n" and fresh: "key_of env x \<notin> set (map (key_of env) (stored t))"
  shows "bindE (grow_with emp env t1) (emp x) = Inl BadAlloc \<or>
    (\<exists>p new t'. bindE (grow_with emp env t1) (emp x) = Inr ((p, new), t') \<and> inserts env x t p new t')"
proof -
  have "2 ^ 48 < capacity t1 * 2 ^ Suc n" using fuel same(2) by simp
  from grow_correct [OF emp store alloc this] show ?thesis
  proof
    assume "grow_with emp env t1 = Inl BadAlloc"
    then show ?thesis by simp
  next
    assume "\<exists>t2. grow_with emp env t1 = Inr t2 \<and> table_ok env t2 \<and> contents t2 = contents t1
       \<and> max_load_factor t2 = max_load_factor t1 \<and> 2 * capacity t1 \<le> capacity t2"
    then obtain t2 where t2: "grow_with emp env t1 = Inr t2" "table_ok env t2" "contents t2 = contents t1"
       "max_load_factor t2 = max_load_factor t1" "2 * capacity t1 \<le> capacity t2" by blast
    have "2 ^ 48 < 2 * capacity t1 * 2 ^ n" using fuel same(2) by simp
    also have "\<dots> \<le> capacity t2 * 2 ^ n" using t2(5) by (rule mult_right_mono) simp
    finally have "2 ^ 48 < capacity t2 * 2 ^ n" .
    from emplacer_okE [OF emp t2(2) this, of x]
    show ?thesis
    proof cases
      case 1
      then show ?thesis using t2(1) by simp
    next
      case (2 p new t')
      have "inserts env x t p new t'"
        using t2(3-5) same fresh by (intro inserts_regrown [OF 2(2)]) simp_all
      then show ?thesis using 2(1) t2(1) by simp
    qed
  qed
qed

text \<open>
  The position where a new value goes, and what is left of the displacement: either every value has
  found a place, or one is left over and takes that of the new value.
\<close>

definition insertion_point :: "('k, 't) hash_env \<Rightarrow> 't \<Rightarrow> 't table \<Rightarrow> nat \<Rightarrow> int \<Rightarrow> bool" where
  "insertion_point env x t p d \<longleftrightarrow> 0 \<le> d \<and> d \<le> max_lookups t \<and> dst (entries t) p < d
     \<and> int p = int (home env t x) + d \<and> (\<forall>q. p = Suc q \<longrightarrow> d \<le> dst (entries t) q + 1)"

lemma probe_point:
  assumes "table_ok env t"
  obtains p d f where "probe (key_of env) (key_of env x) (entries t) (unat (bucket env (key_of env x) t)) 0 = Inr (p, d, f)"
    and "\<not> f \<and> num_slots_minus_one t \<noteq> 0 \<longrightarrow> insertion_point env x t p d"
  by (rule probe_table [OF assms, of "key_of env x"]) (simp add: insertion_point_def home_def that)

lemma insertion_place:
  assumes "table_ok env t" and "num_slots_minus_one t \<noteq> 0" and "d \<noteq> max_lookups t" and "insertion_point env x t p d"
  shows "p < length (entries t) - 1" and "0 \<le> d" and "d < max_lookups t" and "dst (entries t) p < d"
    and "robin (home env t) (max_lookups t) ((entries t)[p := (entries t ! p)\<lparr>distance_from_desired := d, entry_value := Some x\<rparr>])"
proof -
  have d: "0 \<le> d" "d < max_lookups t" "dst (entries t) p < d" and home: "int p = int (home env t x) + d"
    and prev: "\<And>q. p = Suc q \<Longrightarrow> d \<le> dst (entries t) q + 1"
    using assms(3,4) by (auto simp: insertion_point_def)
  have p: "p < length (entries t) - 1" using home d(2) home_fits [OF table_okD(1) [OF assms(1)] assms(2), of x] by linarith
  show "p < length (entries t) - 1" "0 \<le> d" "d < max_lookups t" "dst (entries t) p < d" by fact+
  show "robin (home env t) (max_lookups t) ((entries t)[p := (entries t ! p)\<lparr>distance_from_desired := d, entry_value := Some x\<rparr>])"
    using d prev by (intro robin_place [OF table_okD(2) [OF assms(1)] p home]) simp_all
qed

lemma displacement:
  assumes table: "table_ok env t" and nz: "num_slots_minus_one t \<noteq> 0" and "d \<noteq> max_lookups t"
    and "insertion_point env x t p d" and occupied: "\<not> is_empty_entry (entries t ! p)"
    and c: "c = (entries t ! p)\<lparr>distance_from_desired := d, entry_value := Some x\<rparr>"
  obtains v cs y where "val (entries t) p = Some v"
    and "displace (max_lookups t) ((entries t)[p := c]) (p + 1) v (dst (entries t) p + 1) = Inr (cs, y)"
    and "robin (home env t) (max_lookups t) cs" and "length cs = length (entries t)"
    and "contents_of cs + opt_mset y = add_mset x (contents t)" and "cs ! p = c"
    and "\<forall>z. y = Some z \<longrightarrow> contents_of (cs[p := c\<lparr>entry_value := Some z\<rparr>]) = contents t
       \<and> store_ok env (t\<lparr>entries := cs[p := c\<lparr>entry_value := Some z\<rparr>]\<rparr>)"
proof -
  note store = table_okD(1) [OF table] and robin = table_okD(2) [OF table]
  note s = store_okD [OF store]
  note point = insertion_place [OF assms(1-4)]
  note p = point(1) and d = point(2-4)
  have p': "p < length (entries t)" using p by simp
  let ?cs = "(entries t)[p := c]"
  have placed: "robin (home env t) (max_lookups t) ?cs" using point(5) c by simp
  have pos: "0 \<le> dst (entries t) p" using occupied by (simp add: is_empty_entry_def)
  then obtain v where v: "val (entries t) p = Some v" using shape_live [OF s(1) p] by blast
  have hv: "int p = int (home env t v) + dst (entries t) p" using robin v p' by (simp add: robin_def placed_def)
  have total: "add_mset v (contents_of ?cs) = add_mset x (contents t)"
    using contents_of_update [OF p', of c] v by (simp add: c)
  have "\<exists>cs' y. displace (max_lookups t) ?cs (p + 1) v (dst (entries t) p + 1) = Inr (cs', y)
     \<and> robin (home env t) (max_lookups t) cs' \<and> length cs' = length ?cs
     \<and> contents_of cs' + opt_mset y = add_mset v (contents_of ?cs) \<and> (\<forall>q < p + 1. cs' ! q = ?cs ! q)"
  proof (rule displace_correct [OF placed])
    show "int (p + 1) = int (home env t v) + (dst (entries t) p + 1)" using hv by simp
    show "dst (entries t) p + 1 \<le> dst ?cs q + 1" if "p + 1 = Suc q" for q using that d(3) p' by (simp add: c)
    show "int (home env t w) + max_lookups t \<le> int (length ?cs - 1)" for w using home_fits [OF store nz] by simp
  qed (use d pos in simp_all)
  then obtain cs y where r: "displace (max_lookups t) ?cs (p + 1) v (dst (entries t) p + 1) = Inr (cs, y)"
     "robin (home env t) (max_lookups t) cs" "length cs = length (entries t)"
     "contents_of cs + opt_mset y = add_mset x (contents t)" "cs ! p = c"
    using total p' by auto
  have "contents_of (cs[p := c\<lparr>entry_value := Some z\<rparr>]) = contents t
     \<and> store_ok env (t\<lparr>entries := cs[p := c\<lparr>entry_value := Some z\<rparr>]\<rparr>)" if "y = Some z" for z
  proof -
    let ?ds = "cs[p := c\<lparr>entry_value := Some z\<rparr>]"
    have "contents_of ?ds + {#x#} = contents_of cs + {#z#}"
      using contents_of_update [of p cs "c\<lparr>entry_value := Some z\<rparr>"] p' r(3,5) c by simp
    then have same: "contents_of ?ds = contents t" using r(4) that by simp
    have "shape (max_lookups t) ?ds"
      using r(2,3) p d by (intro shape_update) (simp_all add: robin_def c)
    then have "store_ok env (t\<lparr>entries := ?ds\<rparr>)" using same r(3) by (intro store_same [OF store]) simp_all
    with same show ?thesis by blast
  qed
  then show thesis using v r by (intro that) blast+
qed

lemma emplace_new_key_correct:
  assumes emp: "emplacer_ok env n emp" and table: "table_ok env t" and alloc: "alloc_ok env"
    and fuel: "2 ^ 48 < capacity t * 2 ^ Suc n" and fresh: "key_of env x \<notin> set (map (key_of env) (stored t))"
    and at: "num_slots_minus_one t \<noteq> 0 \<Longrightarrow> insertion_point env x t p d"
  shows "emplace_new_key emp env d p x t = Inl BadAlloc \<or>
    (\<exists>p' new t'. emplace_new_key emp env d p x t = Inr ((p', new), t') \<and> inserts env x t p' new t')"
proof (cases "num_slots_minus_one t = 0 \<or> d = max_lookups t \<or> load_exceeded t")
  case True
  then have "emplace_new_key emp env d p x t = bindE (grow_with emp env t) (emp x)" by (simp add: emplace_new_key_def)
  then show ?thesis
    using grow_and_emplace [OF emp table_okD(1) [OF table] alloc _ _ _ fuel fresh] by simp
next
  case False
  note store = table_okD(1) [OF table]
  have nz: "num_slots_minus_one t \<noteq> 0" and dm: "d \<noteq> max_lookups t" using False by auto
  note point = insertion_place [OF table nz dm at [OF nz]]
  note p = point(1)
  then have p': "p < length (entries t)" by simp
  let ?c = "(entries t ! p)\<lparr>distance_from_desired := d, entry_value := Some x\<rparr>"
  let ?cs = "(entries t)[p := ?c]"
  show ?thesis
  proof (cases "is_empty_entry (entries t ! p)")
    case True
    then have "val (entries t) p = None" using shapeD [OF store_okD(1) [OF store] p] by (simp add: is_empty_entry_def)
    then have "contents_of ?cs = add_mset x (contents t)" using contents_of_update [OF p', of ?c] by simp
    then have "inserts env x t p True (t\<lparr>entries := ?cs, num_elements := num_elements t + 1\<rparr>)"
      using table_insert [OF store nz fresh _ point(5)] fresh p by (simp add: inserts_def capacity_def)
    moreover have "emplace_new_key emp env d p x t = Inr ((p, True), t\<lparr>entries := ?cs, num_elements := num_elements t + 1\<rparr>)"
      using True False p' by (simp add: emplace_new_key_def entry_at_def entry_emplace_def)
    ultimately show ?thesis by blast
  next
    case occupied: False
    obtain v cs' y where r: "val (entries t) p = Some v"
       "displace (max_lookups t) ?cs (p + 1) v (dst (entries t) p + 1) = Inr (cs', y)"
       "robin (home env t) (max_lookups t) cs'" "length cs' = length (entries t)"
       "contents_of cs' + opt_mset y = add_mset x (contents t)" "cs' ! p = ?c"
       "\<forall>z. y = Some z \<longrightarrow> contents_of (cs'[p := ?c\<lparr>entry_value := Some z\<rparr>]) = contents t
         \<and> store_ok env (t\<lparr>entries := cs'[p := ?c\<lparr>entry_value := Some z\<rparr>]\<rparr>)"
      by (rule displacement [OF table nz dm at [OF nz] occupied refl])
    have result: "emplace_new_key emp env d p x t =
       (case y of None \<Rightarrow> Inr ((p, True), t\<lparr>entries := cs', num_elements := num_elements t + 1\<rparr>)
        | Some y \<Rightarrow> bindE (grow_with emp env (t\<lparr>entries := cs'[p := ?c\<lparr>entry_value := Some y\<rparr>]\<rparr>)) (emp x))"
      using False occupied p' r(1,2,4,6)
      by (simp add: emplace_new_key_def entry_at_def the_value_def split: option.split)
    show ?thesis
    proof (cases y)
      case None
      then have "inserts env x t p True (t\<lparr>entries := cs', num_elements := num_elements t + 1\<rparr>)"
        using table_insert [OF store nz fresh _ r(3,4)] r(4-6) fresh p by (simp add: inserts_def capacity_def)
      with result None show ?thesis by auto
    next
      case (Some z)
      from grow_and_emplace [OF emp _ alloc _ _ _ fuel fresh] r(7) Some
      show ?thesis using result Some by (simp add: capacity_def)
    qed
  qed
qed

lemma emplace_step_correct:
  assumes "emplacer_ok env n emp" and "alloc_ok env"
  shows "emplacer_ok env (Suc n) (emplace_step emp env)"
  unfolding emplacer_ok_def
proof (intro allI impI)
  fix x t assume table: "table_ok env t" and fuel: "2 ^ 48 < capacity t * 2 ^ Suc n"
  let ?k = "key_of env x"
  obtain p d f where r: "probe (key_of env) ?k (entries t) (unat (bucket env ?k t)) 0 = Inr (p, d, f)"
    and found: "f \<Longrightarrow> p < length (entries t) - 1 \<and> (\<exists>v. val (entries t) p = Some v \<and> key_of env v = ?k)"
    and absent: "\<not> f \<Longrightarrow> ?k \<notin> set (map (key_of env) (stored t))"
    and at: "\<not> f \<Longrightarrow> num_slots_minus_one t \<noteq> 0 \<Longrightarrow> 0 \<le> d \<and> d \<le> max_lookups t \<and> dst (entries t) p < d
       \<and> int p = int (unat (bucket env ?k t)) + d \<and> (\<forall>q. p = Suc q \<longrightarrow> d \<le> dst (entries t) q + 1)"
    using probe_table [OF table, of ?k] by blast
  show "emplace_step emp env x t = Inl BadAlloc \<or>
      (\<exists>p new t'. emplace_step emp env x t = Inr ((p, new), t') \<and> inserts env x t p new t')"
  proof (cases f)
    case True
    then obtain v where v: "p < length (entries t) - 1" "val (entries t) p = Some v" "key_of env v = ?k" using found by blast
    then have "v \<in> set (stored t)" unfolding set_values_of by (intro exI [of _ p]) simp
    then have "?k \<in> set (map (key_of env) (stored t))" using v(3) by (metis image_eqI set_map)
    then have "inserts env x t p False t" using table v by (simp add: inserts_def)
    moreover have "emplace_step emp env x t = Inr ((p, False), t)" using r True by (simp add: emplace_step_def)
    ultimately show ?thesis by blast
  next
    case False
    then have "emplace_step emp env x t = emplace_new_key emp env d p x t" using r by (simp add: emplace_step_def)
    then show ?thesis
      using emplace_new_key_correct [OF assms(1) table assms(2) fuel absent [OF False]] at [OF False]
      by (simp add: insertion_point_def home_def)
  qed
qed

lemma emplace_fuel_correct:
  assumes "alloc_ok env"
  shows "emplacer_ok env n (emplace_fuel env n)"
proof (induction n)
  case 0
  have "\<not> 2 ^ 48 < capacity t" if "table_ok env t" for t
    using capacity_bound(2) [OF table_okD(1) [OF that]] by simp
  then show ?case by (simp add: emplacer_ok_def)
next
  case (Suc n)
  then show ?case using emplace_step_correct [OF _ assms] by simp
qed

end
