(* ===== verification/HashMapProps.thy ===== *)
theory HashMapProps
  imports HashMap
begin

text \<open>
  The operations of the hash map against the finite map of what the table holds: \<open>contents\<close> as a
  multiset for the table, \<open>assoc\<close> for \<^verbatim>\<open>flat_hash_map\<close>, whose values are pairs. \<open>hash_step\<close> is a
  client's sequence of calls, \<open>hash_spec\<close> what it does to a map.
\<close>

section \<open>The operations of a table\<close>

lemma new_table_ok:
  fixes env :: "('k, 't) hash_env" and t :: "'t table"
  assumes "load_ok f" and t: "t = (new_table p)\<lparr>max_load_factor := f\<rparr>"
  shows "table_ok env t" and "contents t = {#}"
proof -
  have b: "entries t = replicate 3 empty_entry @ [end_entry]"
    by (simp add: t new_table_def empty_default_table_def numeral_3_eq_3)
  note blank = blank_entries [OF b, of 3]
  have empty: "stored t = []" by (rule blank(2)) simp
  then show "contents t = {#}" by simp
  have "index_ok t"
    using policy_reset_index [of p] empty by (simp add: index_ok_def) (simp add: t new_table_def min_lookups_def)
  moreover have "max_lookups t = 3" "num_slots_minus_one t = 0" "num_elements t = 0" "max_load_factor t = f"
    by (simp_all add: t new_table_def min_lookups_def)
  ultimately show "table_ok env t"
    using blank empty assms(1) by (simp add: table_ok_def store_ok_def robin_def)
qed

lemma fuel_enough: "table_ok env t \<Longrightarrow> 2 ^ 48 < capacity t * 2 ^ recursion_bound"
proof -
  assume "table_ok env t"
  then have "2 * 2 ^ 64 \<le> capacity t * 2 ^ 64" by (intro mult_right_mono capacity_bound table_okD) simp_all
  then show ?thesis by (simp add: recursion_bound_def)
qed

lemma emplace_cases:
  assumes "table_ok env t" and "alloc_ok env"
  obtains "emplace env x t = Inl BadAlloc" | p new t' where "emplace env x t = Inr ((p, new), t')" "inserts env x t p new t'"
  using emplacer_okE [OF emplace_fuel_correct [OF assms(2)] assms(1) fuel_enough [OF assms(1)], of x]
  by (auto simp: emplace_def)

lemma rehash_cases:
  assumes "table_ok env t" and "alloc_ok env" and "n \<le> 2 ^ 63"
  obtains "rehash env n t = Inl BadAlloc"
    | t' where "rehash env n t = Inr t'" "table_ok env t'" "contents t' = contents t" "max_load_factor t' = max_load_factor t"
proof -
  have "2 ^ 48 < max 2 (unat n) * 2 ^ recursion_bound"
  proof -
    have "(2 :: nat) * 2 ^ 64 \<le> max 2 (unat n) * 2 ^ 64" by (intro mult_right_mono) simp_all
    then show ?thesis by (simp add: recursion_bound_def)
  qed
  from rehash_correct [OF emplace_fuel_correct [OF assms(2)] table_okD(1) [OF assms(1)] assms(2,3) this] assms(1) that
  show thesis by (auto simp: rehash_def emplace_def)
qed

lemma reserve_bounded:
  assumes "load_ok (max_load_factor t)" and "unat n \<le> 2 ^ 50"
  obtains k where "num_buckets_for_reserve t n = Inr k" and "k \<le> 2 ^ 62"
proof -
  obtain r where r: "max_load_factor t = Fin r" "1 / 256 \<le> r" using assms(1) by (auto simp: load_ok_def split: dbl.splits)
  define q where "q = (if r < 1 / 2 then r else 1 / 2)"
  have q: "1 / 256 \<le> q" using r(2) by (simp add: q_def)
  have "num_buckets_for_reserve t n = size_of_ceil (ddiv (double_of_u64 n) (Fin q))"
    using r(1) by (simp add: num_buckets_for_reserve_def q_def)
  then show thesis using quotient_bounded [OF assms(2) q] that by metis
qed

lemma below_63: "(k :: u64) \<le> 2 ^ 62 \<Longrightarrow> k \<le> 2 ^ 63"
  by (erule order_trans) simp

lemma reserve_cases:
  assumes "table_ok env t" and "alloc_ok env" and "unat n \<le> 2 ^ 50"
  obtains "reserve env n t = Inl BadAlloc"
    | t' where "reserve env n t = Inr t'" "table_ok env t'" "contents t' = contents t" "max_load_factor t' = max_load_factor t"
proof -
  obtain k where k: "num_buckets_for_reserve t n = Inr k" "k \<le> 2 ^ 62"
    by (rule reserve_bounded [OF store_okD(8) [OF table_okD(1) [OF assms(1)]] assms(3)])
  show thesis
  proof (cases "bucket_count t < k")
    case True
    then show ?thesis using rehash_cases [OF assms(1,2) below_63 [OF k(2)]] that k(1) by (auto simp: reserve_def)
  next
    case False
    then show ?thesis using that(2) [of t] k(1) assms(1) by (simp add: reserve_def)
  qed
qed

lemma rehash_for_other_cases:
  assumes "table_ok env t" and "alloc_ok env" and "store_ok env other"
  obtains "rehash_for_other_container env other t = Inl BadAlloc"
    | t' where "rehash_for_other_container env other t = Inr t'" "table_ok env t'" "contents t' = contents t"
        "max_load_factor t' = max_load_factor t"
proof -
  have "unat (num_elements other) \<le> 2 ^ 50" using num_elements_bound [OF assms(3)] by simp
  then obtain k where k: "num_buckets_for_reserve t (num_elements other) = Inr k" "k \<le> 2 ^ 62"
    by (rule reserve_bounded [OF store_okD(8) [OF table_okD(1) [OF assms(1)]]])
  have "min k (bucket_count other) \<le> 2 ^ 63" using below_63 [OF k(2)] by (rule order_trans [rotated]) simp
  from rehash_cases [OF assms(1,2) this] k(1) that show thesis by (auto simp: rehash_for_other_container_def)
qed

text \<open>Look-up.\<close>

lemma find_cases:
  assumes "table_ok env t"
  obtains "find_key env k t = Inr (end_index t)" "k \<notin> set (map (key_of env) (stored t))"
    | p v where "find_key env k t = Inr p" "p < end_index t" "val (entries t) p = Some v" "key_of env v = k" "v \<in> set (stored t)"
proof -
  obtain p d f where r: "probe (key_of env) k (entries t) (unat (bucket env k t)) 0 = Inr (p, d, f)"
    and found: "f \<Longrightarrow> p < length (entries t) - 1 \<and> (\<exists>v. val (entries t) p = Some v \<and> key_of env v = k)"
    and absent: "\<not> f \<Longrightarrow> k \<notin> set (map (key_of env) (stored t))"
    and "\<not> f \<Longrightarrow> num_slots_minus_one t \<noteq> 0 \<Longrightarrow> 0 \<le> d \<and> d \<le> max_lookups t \<and> dst (entries t) p < d
       \<and> int p = int (unat (bucket env k t)) + d \<and> (\<forall>q. p = Suc q \<longrightarrow> d \<le> dst (entries t) q + 1)"
    using probe_table [OF assms, of k] by blast
  show thesis
  proof (cases f)
    case True
    then obtain v where v: "p < length (entries t) - 1" "val (entries t) p = Some v" "key_of env v = k" using found by blast
    then have "v \<in> set (stored t)" unfolding set_values_of by (intro exI [of _ p]) simp
    then show ?thesis
      using that(2) [of p v] v r True end_index [OF table_okD(1) [OF assms]] by (simp add: find_key_def)
  next
    case False
    then show ?thesis using that(1) r absent by (simp add: find_key_def)
  qed
qed

lemma deref_value: "p < length (entries t) \<Longrightarrow> val (entries t) p = Some v \<Longrightarrow> deref t p = Inr v"
  by (simp add: deref_def entry_at_def the_value_def)

lemma elements_stored: "store_ok env t \<Longrightarrow> elements t = Inr (stored t)"
  using iterate_all [OF store_okD(1)] by (simp add: elements_def begin_it_def end_index)

text \<open>Erasure.\<close>

lemma table_erase:
  assumes "store_ok env t" and "contents t = contents_of cs + mset vs" and "robin (home env t) (max_lookups t) cs"
    and "length cs = length (entries t)" and "n = num_elements t - of_nat (length vs)"
  shows "table_ok env (t\<lparr>entries := cs, num_elements := n\<rparr>)"
proof -
  note s = store_okD [OF assms(1)]
  have "distinct (map (key_of env) (values_of cs @ vs))" using s(6) distinct_contents [OF assms(2)] by blast
  then have "distinct (map (key_of env) (values_of cs))" by simp
  moreover have "length (stored t) = length (values_of cs) + length vs"
    using mset_eq_length [of "stored t" "values_of cs @ vs"] assms(2) by simp
  then have "unat n = length (values_of cs)"
    using s(7) unat_minus_of_nat [of "length vs" "num_elements t"] assms(5) by simp
  moreover have "index_ok (t\<lparr>entries := cs, num_elements := n\<rparr>)"
    using s(9) assms(2) by (auto simp: index_ok_def)
  ultimately show ?thesis using s assms(3,4) by (simp add: table_ok_def store_ok_def robin_def)
qed

lemma erase_range_correct:
  assumes "table_ok env t" and "b \<le> e" and "e \<le> end_index t"
  shows "\<exists>r t'. erase_range b e t = Inr (r, t') \<and> table_ok env t' \<and> max_load_factor t' = max_load_factor t
     \<and> contents t = contents t' + mset (values_of (take (e - b) (drop b (entries t))))"
proof (cases "b = e")
  case True
  then show ?thesis using assms(1) by (simp add: erase_range_def)
next
  case False
  note store = table_okD(1) [OF assms(1)] and robin = table_okD(2) [OF assms(1)]
  note s = store_okD [OF store]
  let ?cs = "entries t" and ?bs = "blank_range b e (entries t)" and ?vs = "values_of (take (e - b) (drop b (entries t)))"
  have e: "e \<le> length ?cs - 1" using assms(3) end_index [OF store] by simp
  have lt: "b < e" using False assms(2) by simp
  define m where "m = num_elements t - of_nat (length ?vs)"
  have destroyed: "destroy_range ?cs b e (num_elements t) = Inr (?bs, m)"
    unfolding m_def by (rule destroy_range_correct [OF s(1) assms(2) e less_imp_le [OF s(2)]])
  have len: "length ?bs = length ?cs" using assms(2) e s(4) by (simp add: blank_range_length)
  have gap: "gap (home env t) (max_lookups t) ?bs e (min (dst ?cs e) (int (e - b)))"
    using s(2) by (intro gap_blank [OF robin lt e]) simp
  have at: "?bs ! e = ?cs ! e" using blank_range_nth [of b e ?cs e] assms(2) e s(4) by simp
  have erased: "contents t = contents_of ?bs + mset ?vs" by (rule blank_range_contents [OF assms(2)])
  show ?thesis
  proof (cases "e = end_index t")
    case True
    then have "dst ?bs e \<le> 0" using at shape_end [OF s(1)] end_index [OF store] by (simp add: entry_defs)
    then have "table_ok env (t\<lparr>entries := ?bs, num_elements := m\<rparr>)"
      using gap_closed [OF gap] len by (intro table_erase [OF store erased]) (simp_all add: m_def)
    then show ?thesis using True False destroyed erased by (simp add: erase_range_def)
  next
    case inner: False
    obtain cs' where cs': "shift_range ?bs e (min (dst ?cs e) (int (e - b))) = Inr cs'" "robin (home env t) (max_lookups t) cs'"
        "length cs' = length ?bs" "contents_of cs' = contents_of ?bs"
      using shift_range_correct [OF gap] by blast
    have "table_ok env (t\<lparr>entries := cs', num_elements := m\<rparr>)"
      using cs' len erased by (intro table_erase [OF store, of _ ?vs]) (simp_all add: m_def)
    moreover have "e < length ?bs" using e len s(4) by simp
    ultimately show ?thesis
      using inner False destroyed at cs'(1,4) erased assms(2) by (simp add: erase_range_def entry_at_def of_nat_diff)
  qed
qed

lemma erase_at_correct:
  assumes "table_ok env t" and "p < end_index t" and "val (entries t) p = Some v"
  shows "\<exists>t'. erase_at p t = Inr (p, t') \<and> table_ok env t' \<and> max_load_factor t' = max_load_factor t
     \<and> contents t = add_mset v (contents t')"
proof -
  note store = table_okD(1) [OF assms(1)] and robin = table_okD(2) [OF assms(1)]
  note s = store_okD [OF store]
  let ?cs = "entries t" and ?bs = "(entries t)[p := empty_entry]"
  have p: "p < length ?cs - 1" "p < length ?cs" "p + 1 \<le> length ?cs - 1" using assms(2) end_index [OF store] by simp_all
  have blank: "blank_range p (p + 1) ?cs = ?bs" using p(2) by (simp add: blank_range_def upd_conv_take_nth_drop)
  have gap: "gap (home env t) (max_lookups t) ?bs (p + 1) (min (dst ?cs (p + 1)) 1)"
    using gap_blank [OF robin, of p "p + 1"] p(3) s(2) blank by simp
  have "shift_back ?bs p = shift_range ?bs (p + 1) (min (dst ?cs (p + 1)) 1)"
  proof (cases "dst ?cs (p + 1) \<le> 0")
    case True
    then have "dst ?bs (p + 1) \<le> 0" by simp
    then show ?thesis using p by (simp add: shift_back_range shift_range_step)
  next
    case False
    then have "min (dst ?cs (p + 1)) 1 = 1" by simp
    then show ?thesis by (simp only: shift_back_range)
  qed
  then obtain cs' where cs': "shift_back ?bs p = Inr cs'" "robin (home env t) (max_lookups t) cs'" "length cs' = length ?cs"
      "contents_of cs' = contents_of ?bs"
    using shift_range_correct [OF gap] by auto
  have erased: "contents t = contents_of cs' + mset [v]"
    using contents_of_update [OF p(2), of empty_entry] assms(3) cs'(4) by (simp add: empty_entry_def)
  have "table_ok env (t\<lparr>entries := cs', num_elements := num_elements t - 1\<rparr>)"
    by (rule table_erase [OF store erased cs'(2,3)]) simp
  then show ?thesis
    using p(2) assms(3) cs'(1) erased by (simp add: erase_at_def entry_at_def destroyed)
qed

text \<open>\<^verbatim>\<open>clear\<close> does not rely on the order of the entries, and restores it.\<close>

lemma clear_store:
  assumes "store_ok env t"
  shows "\<exists>t'. clear t = Inr t' \<and> table_ok env t' \<and> max_load_factor t' = max_load_factor t \<and> contents t' = {#}
     \<and> hash_policy t' = hash_policy t"
proof -
  note store = assms
  note s = store_okD [OF store]
  let ?cs = "entries t" and ?bs = "blank_range 0 (length (entries t) - 1) (entries t)"
  have "drop (length ?cs - 1) ?cs = [end_entry]"
    using s(4) shape_end [OF s(1)] by (simp add: Cons_nth_drop_Suc [symmetric])
  then have b: "?bs = replicate (length ?cs - 1) empty_entry @ [end_entry]" by (simp add: blank_range_def)
  note blank = blank_entries [OF b less_imp_le [OF s(2)]]
  have "clear t = Inr (t\<lparr>entries := ?bs, num_elements := 0\<rparr>)"
    using destroy_range_correct [OF s(1) _ _ less_imp_le [OF s(2)], of 0 "length ?cs - 1" 0] by (simp add: clear_def end_index [OF store])
  moreover have "contents t = contents_of ?bs + mset (stored t)" using blank(2) by simp
  then have "table_ok env (t\<lparr>entries := ?bs, num_elements := 0\<rparr>)"
  proof (rule table_erase [OF store])
    show "0 = num_elements t - of_nat (length (stored t))" by (simp flip: s(7))
  qed (use blank s(4) in simp_all)
  ultimately show ?thesis using blank(2) by simp
qed

lemmas clear_correct = clear_store [OF table_okD(1)]

lemma erase_key_correct:
  assumes "table_ok env t"
  shows "\<exists>n t'. erase_key env k t = Inr (n, t') \<and> table_ok env t' \<and> max_load_factor t' = max_load_factor t
     \<and> (if k \<in> set (map (key_of env) (stored t))
        then n = 1 \<and> (\<exists>v. key_of env v = k \<and> contents t = add_mset v (contents t')) else n = 0 \<and> t' = t)"
proof (cases rule: find_cases [OF assms, of k])
  case 1
  then show ?thesis using assms by (simp add: erase_key_def)
next
  case (2 p v)
  obtain t' where "erase_at p t = Inr (p, t')" "table_ok env t'" "max_load_factor t' = max_load_factor t"
      "contents t = add_mset v (contents t')"
    using erase_at_correct [OF assms 2(2,3)] by blast
  with 2 show ?thesis by (auto simp: erase_key_def)
qed

text \<open>Insertion of a list of values with new keys, and copies.\<close>

lemma insert_range_fresh:
  assumes "table_ok env t" and "alloc_ok env" and "distinct (map (key_of env) (stored t @ vs))"
  shows "insert_range env vs t = Inl BadAlloc \<or>
    (\<exists>t'. insert_range env vs t = Inr t' \<and> table_ok env t' \<and> contents t' = contents t + mset vs
       \<and> max_load_factor t' = max_load_factor t)"
  using assms(1,3)
proof (induction vs arbitrary: t)
  case Nil
  then show ?case by simp
next
  case (Cons v vs)
  have fresh: "key_of env v \<notin> set (map (key_of env) (stored t))" using Cons.prems(2) by auto
  show ?case
  proof (cases rule: emplace_cases [OF Cons.prems(1) assms(2), of v])
    case 1
    then show ?thesis by simp
  next
    case (2 p new t1)
    note i = inserts_fresh [OF 2(2) fresh]
    have "mset (map (key_of env) (stored t1 @ vs)) = mset (map (key_of env) (stored t @ v # vs))" using i(3) by simp
    then have "distinct (map (key_of env) (stored t1 @ vs))" using Cons.prems(2) mset_eq_imp_distinct_iff by blast
    from Cons.IH [OF i(1) this] 2(1) i(3,4) show ?thesis by auto
  qed
qed

lemma copy_correct:
  assumes "table_ok env other" and "alloc_ok env"
  shows "copy_construct env other = Inl BadAlloc \<or>
    (\<exists>t. copy_construct env other = Inr t \<and> table_ok env t \<and> contents t = contents other
       \<and> max_load_factor t = max_load_factor other)"
proof -
  note store = table_okD(1) [OF assms(1)]
  let ?t = "(new_table (hash_policy other))\<lparr>max_load_factor := max_load_factor other\<rparr>"
  have new: "table_ok env ?t" "contents ?t = {#}"
    by (rule new_table_ok [OF store_okD(8) [OF store] refl])+
  show ?thesis
  proof (cases rule: rehash_for_other_cases [OF new(1) assms(2) store])
    case 1
    then show ?thesis by (simp add: copy_construct_def)
  next
    case (2 t')
    have "contents t' = {#}" using 2(3) new(2) by (simp only:)
    then have "stored t' = []" by simp
    then have "distinct (map (key_of env) (stored t' @ stored other))" using store_okD(6) [OF store] by simp
    from insert_range_fresh [OF 2(2) assms(2) this] 2 new(2) elements_stored [OF store]
    show ?thesis by (auto simp: copy_construct_def)
  qed
qed

section \<open>The map of a \<^verbatim>\<open>flat_hash_map\<close>\<close>

definition assoc :: "('k \<times> 'v) table \<Rightarrow> 'k \<Rightarrow> 'v option" where
  "assoc t = map_of (stored t)"

definition map_env :: "('k, 'k \<times> 'v) hash_env \<Rightarrow> bool" where
  "map_env env \<longleftrightarrow> alloc_ok env \<and> key_of env = fst"

lemma map_envD [simp]: "map_env env \<Longrightarrow> alloc_ok env" "map_env env \<Longrightarrow> key_of env = fst"
  by (simp_all add: map_env_def)

lemma map_of_mset:
  assumes "mset xs = mset ys" and "distinct (map fst xs)"
  shows "map_of xs = map_of ys"
proof -
  have "mset (map fst xs) = mset (map fst ys)" using assms(1) by simp
  then have "distinct (map fst ys)" using assms(2) mset_eq_imp_distinct_iff by blast
  then show ?thesis using assms mset_eq_setD by (simp add: map_of_inject_set)
qed

lemma map_table_distinct:
  assumes "map_env env" and "table_ok env t"
  shows "distinct (map fst (stored t))"
  using store_okD(6) [OF table_okD(1) [OF assms(2)]] assms(1) by simp

lemma assoc_iff:
  assumes "map_env env" and "table_ok env t"
  shows "assoc t k = Some v \<longleftrightarrow> (k, v) \<in> set (stored t)"
  using map_table_distinct [OF assms] by (simp add: assoc_def)

lemma assoc_dom: "dom (assoc t) = fst ` set (stored t)"
  by (simp add: assoc_def dom_map_of_conv_image_fst)

lemma assoc_same:
  assumes "map_env env" and "table_ok env t" and "contents t' = contents t"
  shows "assoc t' = assoc t"
  using map_of_mset [OF assms(3) [symmetric] map_table_distinct [OF assms(1,2)]] by (simp add: assoc_def)

lemma assoc_add:
  assumes "map_env env" and "table_ok env t'" and "contents t' = add_mset (k, v) (contents t)"
  shows "assoc t' = (assoc t)(k \<mapsto> v)"
  using map_of_mset [of "stored t'" "(k, v) # stored t"] map_table_distinct [OF assms(1,2)] assms(3)
  by (simp add: assoc_def)

lemma assoc_remove:
  assumes "map_env env" and "table_ok env t" and "contents t = add_mset (k, v) (contents t')"
  shows "assoc t' = (assoc t)(k := None)"
proof -
  have "mset (map fst (stored t)) = mset (map fst ((k, v) # stored t'))" using assms(3) by simp
  then have "distinct (map fst ((k, v) # stored t'))"
    using map_table_distinct [OF assms(1,2)] mset_eq_imp_distinct_iff by blast
  then have "k \<notin> dom (assoc t')" by (simp add: assoc_dom)
  moreover have "assoc t = (assoc t')(k \<mapsto> v)"
    using map_of_mset [of "stored t" "(k, v) # stored t'"] map_table_distinct [OF assms(1,2)] assms(3)
    by (simp add: assoc_def)
  ultimately show ?thesis by (auto simp: fun_eq_iff)
qed

lemma num_elements_card:
  assumes "map_env env" and "table_ok env t"
  shows "unat (num_elements t) = card (dom (assoc t))"
proof -
  have "card (fst ` set (stored t)) = length (map fst (stored t))"
    using distinct_card [OF map_table_distinct [OF assms]] by simp
  then show ?thesis using store_okD(7) [OF table_okD(1) [OF assms(2)]] by (simp add: assoc_dom)
qed

text \<open>The operations on the map.\<close>

lemma emplace_assoc:
  assumes "map_env env" and "table_ok env t"
  obtains "emplace env (k, v) t = Inl BadAlloc"
    | p new t' w where "emplace env (k, v) t = Inr ((p, new), t')" "table_ok env t'" "max_load_factor t' = max_load_factor t"
        "new \<longleftrightarrow> assoc t k = None" "assoc t' = (if new then (assoc t)(k \<mapsto> v) else assoc t)"
        "p < length (entries t') - 1" "val (entries t') p = Some (k, w)" "assoc t' k = Some w"
proof (cases rule: emplace_cases [OF assms(2) map_envD(1) [OF assms(1)], of "(k, v)"])
  case 1
  then show ?thesis by (rule that(1))
next
  case (2 p new t')
  then have i: "table_ok env t'" "max_load_factor t' = max_load_factor t" "p < length (entries t') - 1"
      "if k \<in> fst ` set (stored t) then \<not> new \<and> t' = t else new \<and> contents t' = add_mset (k, v) (contents t)"
    using assms(1) by (auto simp: inserts_def)
  obtain w where w: "val (entries t') p = Some (k, w)" using 2(2) assms(1) by (auto simp: inserts_def)
  have "(k, w) \<in> set (stored t')" unfolding set_values_of using w i(3) by (intro exI [of _ p]) simp
  then have "assoc t' k = Some w" using assoc_iff [OF assms(1) i(1)] by simp
  moreover have "k \<in> fst ` set (stored t) \<longleftrightarrow> assoc t k \<noteq> None" unfolding assoc_dom [symmetric] by auto
  moreover have "assoc t' = (if new then (assoc t)(k \<mapsto> v) else assoc t)"
    using i(4) assoc_add [OF assms(1) i(1)] by (auto split: if_splits)
  ultimately show ?thesis using that(2) [OF 2(1) i(1,2)] i(3,4) w by (auto split: if_splits)
qed

lemma find_assoc:
  assumes "map_env env" and "table_ok env t"
  obtains "find_key env k t = Inr (end_index t)" "assoc t k = None"
    | p v where "find_key env k t = Inr p" "p < end_index t" "val (entries t) p = Some (k, v)" "assoc t k = Some v"
proof (cases rule: find_cases [OF assms(2), of k])
  case 1
  then have "k \<notin> dom (assoc t)" using assms(1) by (simp add: assoc_dom)
  then show ?thesis using that(1) 1(1) by auto
next
  case (2 p v)
  then obtain w where "v = (k, w)" using assms(1) by (cases v) auto
  then show ?thesis using that(2) [OF 2(1,2)] 2 assoc_iff [OF assms] by simp
qed

lemma at_assoc:
  assumes "map_env env" and "table_ok env t"
  shows "at_key env k t = (case assoc t k of None \<Rightarrow> Inl OutOfRange | Some v \<Rightarrow> Inr v)"
proof (cases rule: find_assoc [OF assms, of k])
  case 1
  then show ?thesis by (simp add: at_key_def)
next
  case (2 p v)
  then have "deref t p = Inr (k, v)"
    using end_index [OF table_okD(1) [OF assms(2)]] by (intro deref_value) simp_all
  then show ?thesis using 2 by (simp add: at_key_def)
qed

lemma assign_correct:
  assumes "map_env env" and "table_ok env t" and "p < length (entries t) - 1" and "val (entries t) p = Some (k, w)"
  shows "\<exists>t'. assign_at p m t = Inr t' \<and> table_ok env t' \<and> max_load_factor t' = max_load_factor t
     \<and> assoc t' = (assoc t)(k \<mapsto> m)"
proof -
  note store = table_okD(1) [OF assms(2)] and robin = table_okD(2) [OF assms(2)]
  note s = store_okD [OF store]
  let ?c = "(entries t ! p)\<lparr>entry_value := Some (k, m)\<rparr>"
  let ?t = "t\<lparr>entries := (entries t)[p := ?c]\<rparr>"
  have p: "p < length (entries t)" using assms(3) by simp
  have "contents ?t + {#(k, w)#} = contents t + {#(k, m)#}"
    using contents_of_update [OF p, of ?c] assms(4) by simp
  then have swap: "add_mset (k, w) (contents ?t) = add_mset (k, m) (contents t)" by simp
  then have "image_mset fst (add_mset (k, w) (contents ?t)) = image_mset fst (add_mset (k, m) (contents t))" by (simp only:)
  then have keys: "mset (map fst (stored ?t)) = mset (map fst (stored t))" by simp
  have home: "home env t (k, m) = home env t (k, w)" using assms(1) by (simp add: home_def)
  have dist: "0 \<le> dst (entries t) p" using shapeD(1,3) [OF s(1) assms(3)] assms(4) by force
  have "robin (home env t) (max_lookups t) ((entries t)[p := ?c])"
  proof (rule robin_place [OF robin assms(3), where x = "(k, m)" and d = "dst (entries t) p"])
    show "int p = int (home env t (k, m)) + dst (entries t) p"
      using robin p assms(4) by (simp add: robin_def placed_def home)
    show "dst (entries t) p \<le> dst (entries t) q + 1" if "p = Suc q" for q
      using robin p that by (simp add: robin_def chain_def)
  qed (use dist shapeD(2) [OF s(1) assms(3)] in simp_all)
  moreover have "distinct (map fst (stored ?t))" using keys map_table_distinct [OF assms(1,2)] mset_eq_imp_distinct_iff by blast
  moreover have "length (stored ?t) = length (stored t)" using mset_eq_length [OF keys] by simp
  moreover have "index_ok ?t"
    using s(9) \<open>length (stored ?t) = length (stored t)\<close> by (auto simp: index_ok_def)
  ultimately have ok: "table_ok env ?t" using s assms(1) by (simp add: table_ok_def store_ok_def robin_def)
  have "(k, w) \<in># contents t" unfolding set_mset_mset set_values_of using p assms(4) by blast
  then obtain R where R: "contents t = add_mset (k, w) R" by (metis insert_DiffM)
  obtain xs where xs: "R = mset xs" by (metis ex_mset)
  have "contents ?t = add_mset (k, m) R" using swap R by (simp add: add_mset_commute)
  then have "assoc ?t = (map_of xs)(k \<mapsto> m)"
    using map_of_mset [of "stored ?t" "(k, m) # xs"] map_table_distinct [OF assms(1) ok] xs by (simp add: assoc_def)
  moreover have "assoc t = (map_of xs)(k \<mapsto> w)"
    using map_of_mset [of "stored t" "(k, w) # xs"] map_table_distinct [OF assms(1,2)] R xs by (simp add: assoc_def)
  ultimately have "assoc ?t = (assoc t)(k \<mapsto> m)" by simp
  moreover have "assign_at p m t = Inr ?t" using p assms(4) by (simp add: assign_at_def entry_at_def the_value_def)
  ultimately show ?thesis using ok by (intro exI [of _ ?t]) simp
qed

lemma insert_or_assign_cases:
  assumes "map_env env" and "table_ok env t"
  obtains "insert_or_assign env k m t = Inl BadAlloc"
    | r t' where "insert_or_assign env k m t = Inr (r, t')" "table_ok env t'" "max_load_factor t' = max_load_factor t"
        "assoc t' = (assoc t)(k \<mapsto> m)"
proof (cases rule: emplace_assoc [OF assms, of k m])
  case 1
  then show ?thesis using that(1) by (simp add: insert_or_assign_def)
next
  case (2 p new t1 w)
  show ?thesis
  proof (cases new)
    case True
    then show ?thesis using 2 that(2) by (simp add: insert_or_assign_def)
  next
    case False
    obtain t' where "assign_at p m t1 = Inr t'" "table_ok env t'" "max_load_factor t' = max_load_factor t1"
        "assoc t' = (assoc t1)(k \<mapsto> m)"
      using assign_correct [OF assms(1) 2(2,6,7), of m] by blast
    then show ?thesis using 2 False that(2) [of "(p, new)" t'] by (simp add: insert_or_assign_def)
  qed
qed

lemma erase_key_assoc:
  assumes "map_env env" and "table_ok env t"
  shows "\<exists>n t'. erase_key env k t = Inr (n, t') \<and> table_ok env t' \<and> max_load_factor t' = max_load_factor t
     \<and> n = (if assoc t k = None then 0 else 1) \<and> assoc t' = (assoc t)(k := None)"
proof -
  obtain n t' where r: "erase_key env k t = Inr (n, t')" "table_ok env t'" "max_load_factor t' = max_load_factor t"
      "if k \<in> set (map (key_of env) (stored t))
       then n = 1 \<and> (\<exists>v. key_of env v = k \<and> contents t = add_mset v (contents t')) else n = 0 \<and> t' = t"
    using erase_key_correct [OF assms(2), of k] by blast
  have dom: "k \<in> set (map (key_of env) (stored t)) \<longleftrightarrow> assoc t k \<noteq> None"
    using assms(1) by (simp add: assoc_dom [symmetric] domIff)
  show ?thesis
  proof (cases "assoc t k = None")
    case True
    then show ?thesis using r dom by auto
  next
    case False
    then obtain w where "n = 1" "contents t = add_mset (k, w) (contents t')" using r(4) dom assms(1) by auto
    then show ?thesis using r False assoc_remove [OF assms] by auto
  qed
qed

lemma count_assoc:
  assumes "map_env env" and "table_ok env t"
  shows "count_key env k t = Inr (if assoc t k = None then 0 else 1)"
  by (cases rule: find_assoc [OF assms, of k]) (simp_all add: count_key_def)

text \<open>The second iterator of \<^verbatim>\<open>equal_range\<close> is that of the next value, or the end.\<close>

lemma equal_range_assoc:
  assumes "map_env env" and "table_ok env t"
  obtains "equal_range env k t = Inr (end_index t, end_index t)" "assoc t k = None"
    | p q v where "equal_range env k t = Inr (p, q)" "val (entries t) p = Some (k, v)" "assoc t k = Some v"
        "p < q" "q \<le> end_index t" "\<And>r. p < r \<Longrightarrow> r < q \<Longrightarrow> \<not> has_value (entries t ! r)"
proof (cases rule: find_assoc [OF assms, of k])
  case 1
  then show ?thesis using that(1) by (simp add: equal_range_def)
next
  case (2 p v)
  note store = table_okD(1) [OF assms(2)]
  have "p + 1 < length (entries t)" using 2(2) end_index [OF store] by simp
  from next_value_correct [OF store_okD(1) [OF store] this]
  obtain q where q: "next_it t p = Inr q" "p + 1 \<le> q" "q < length (entries t)"
      "\<forall>r. p + 1 \<le> r \<longrightarrow> r < q \<longrightarrow> \<not> has_value (entries t ! r)"
    by (auto simp: next_it_def)
  have "equal_range env k t = Inr (p, q)" using 2(1,2) q(1) by (simp add: equal_range_def)
  then show ?thesis using 2 q end_index [OF store] by (intro that(2) [of p q v]) simp_all
qed

text \<open>Insertion of a range keeps the pairs that are there, and the first of equal keys.\<close>

lemma insert_range_assoc:
  assumes "map_env env" and "table_ok env t"
  shows "insert_range env vs t = Inl BadAlloc \<or>
    (\<exists>t'. insert_range env vs t = Inr t' \<and> table_ok env t' \<and> assoc t' = map_of vs ++ assoc t)"
  using assms(2)
proof (induction vs arbitrary: t)
  case Nil
  then show ?case by simp
next
  case (Cons x vs)
  obtain k v where x: "x = (k, v)" by (cases x)
  show ?case
  proof (cases rule: emplace_assoc [OF assms(1) Cons.prems, of k v])
    case 1
    then show ?thesis by (simp add: x)
  next
    case (2 p new t1 w)
    have "map_of vs ++ assoc t1 = map_of (x # vs) ++ assoc t"
      using 2(4,5) by (auto simp: x fun_eq_iff map_add_def split: option.split if_splits)
    then have same: "map_of (x # vs) ++ assoc t = map_of vs ++ assoc t1" by (rule sym)
    have "insert_range env (x # vs) t = insert_range env vs t1" using 2(1) by (simp add: x)
    with Cons.IH [OF 2(2)] show ?thesis by (simp only: same)
  qed
qed

lemma construct_list_assoc:
  assumes "map_env env" and "n \<le> 2 ^ 63" and "length il \<le> 2 ^ 63"
  shows "construct_list env p il n = Inl BadAlloc \<or>
    (\<exists>t. construct_list env p il n = Inr t \<and> table_ok env t \<and> assoc t = map_of il)"
proof -
  have "new_table p = (new_table p)\<lparr>max_load_factor := Fin (1 / 2)\<rparr>" by (simp add: new_table_def)
  then have new: "table_ok env (new_table p)" "contents (new_table p) = {#}"
    by (rule new_table_ok [rotated], simp add: load_ok_def)+
  have small: "(of_nat (length il) :: u64) \<le> 2 ^ 63"
    using assms(3) by (simp add: word_le_nat_alt unat_of_nat_small)
  show ?thesis
  proof (cases rule: rehash_cases [OF new(1) map_envD(1) [OF assms(1)] assms(2)])
    case 1
    then show ?thesis by (simp add: construct_list_def construct_sized_def)
  next
    case (2 t1)
    show ?thesis
    proof (cases "n = 0")
      case False
      have "contents t1 = {#}" using 2(3) new(2) by (simp only:)
      then have "assoc t1 = Map.empty" by (simp add: assoc_def)
      then show ?thesis
        using insert_range_assoc [OF assms(1) 2(2), of il] 2(1) False
        by (auto simp: construct_list_def construct_sized_def)
    next
      case True
      show ?thesis
      proof (cases rule: rehash_cases [OF 2(2) map_envD(1) [OF assms(1)] small])
        case 1
        then show ?thesis using 2(1) True by (simp add: construct_list_def construct_sized_def)
      next
        case t2: (2 t2)
        have "contents t2 = {#}" using t2(3) 2(3) new(2) by (simp only:)
        then have "assoc t2 = Map.empty" by (simp add: assoc_def)
        then show ?thesis
          using insert_range_assoc [OF assms(1) t2(2), of il] 2(1) t2(1) True
          by (auto simp: construct_list_def construct_sized_def)
      qed
    qed
  qed
qed

text \<open>Assignments, which leave nothing of the old map.\<close>

lemma copy_assign_assoc:
  assumes "map_env env" and "table_ok env t" and "table_ok env other"
  shows "copy_assign env other t = Inl BadAlloc \<or>
    (\<exists>u. copy_assign env other t = Inr u \<and> table_ok env u \<and> assoc u = assoc other)"
proof -
  note store = table_okD(1) [OF assms(3)]
  obtain t0 where t0: "clear t = Inr t0" "table_ok env t0" "contents t0 = {#}" using clear_correct [OF assms(2)] by blast
  let ?t = "t0\<lparr>max_load_factor := max_load_factor other\<rparr>"
  have "home env ?t = home env t0" by (simp add: home_def bucket_def fun_eq_iff)
  then have ok: "table_ok env ?t"
    using t0(2) store_okD(8) [OF store] by (simp add: table_ok_def store_ok_def index_ok_def)
  show ?thesis
  proof (cases rule: rehash_for_other_cases [OF ok map_envD(1) [OF assms(1)] store])
    case 1
    then show ?thesis using t0(1) by (simp add: copy_assign_def)
  next
    case (2 t1)
    have "contents t1 = {#}" using 2(3) t0(3) by simp
    then have "assoc t1 = Map.empty" by (simp add: assoc_def)
    moreover have "map_of (stored other) = assoc other" by (simp add: assoc_def)
    ultimately show ?thesis
      using insert_range_assoc [OF assms(1) 2(2), of "stored other"] 2(1) t0(1) elements_stored [OF store]
      by (auto simp: copy_assign_def)
  qed
qed

lemma swap_pointers: "swap_pointers t u = (u, t)"
  by (simp add: swap_pointers_def)

lemma move_construct: "move_construct other = (other, new_table (hash_policy other))"
  by (simp add: move_construct_def swap_pointers)

lemma move_assign_correct:
  assumes "table_ok env t"
  shows "\<exists>u. move_assign other t = Inr (other, u) \<and> table_ok env u \<and> contents u = {#}"
proof -
  obtain t0 where t0: "clear t = Inr t0" "table_ok env t0" "contents t0 = {#}" using clear_correct [OF assms] by blast
  then have "stored t0 = []" by simp
  from reset_ok [OF table_okD(1) [OF t0(2)] this] t0(1) show ?thesis
    by (simp add: move_assign_def swap_pointers)
qed

text \<open>\<^verbatim>\<open>operator==\<close> of \<^verbatim>\<open>flat_hash_set\<close>, whose values are the keys.\<close>

lemma set_equal_correct:
  assumes "key_of env = (\<lambda>v. v)" and "table_ok env t" and "table_ok env u"
  shows "set_equal env t u = Inr (set (stored t) = set (stored u))"
proof -
  have all: "all_found_in env vs u = Inr (set vs \<subseteq> set (stored u))" for vs
  proof (induction vs)
    case Nil
    then show ?case by simp
  next
    case (Cons v vs)
    show ?case
      by (cases rule: find_cases [OF assms(3), of v]) (use Cons assms(1) in auto)
  qed
  have card: "unat (num_elements w) = card (set (stored w))" if "table_ok env w" for w
    using store_okD(6,7) [OF table_okD(1) [OF that]] assms(1) by (simp add: distinct_card)
  have size: "num_elements t = num_elements u \<longleftrightarrow> card (set (stored t)) = card (set (stored u))"
    unfolding word_unat_eq_iff card [OF assms(2)] card [OF assms(3)] by (rule refl)
  show ?thesis
    using size elements_stored [OF table_okD(1) [OF assms(2)]] all [of "stored t"]
      card_subset_eq [of "set (stored u)" "set (stored t)"]
    by (auto simp: set_equal_def)
qed

section \<open>A client of the map\<close>

datatype ('k, 'v) hash_call =
    CallEmplace 'k 'v
  | CallAssign 'k 'v
  | CallSubscript 'k
  | CallErase 'k
  | CallClear
  | CallRehash u64
  | CallReserve u64
  | CallShrink
  | CallMaxLoad dbl

fun hash_step :: "('k, 'k \<times> 'v) hash_env \<Rightarrow> 'v \<Rightarrow> ('k, 'v) hash_call \<Rightarrow> ('k \<times> 'v) table \<Rightarrow> ('k \<times> 'v) table result" where
  "hash_step env dflt (CallEmplace k v) t = bindE (emplace env (k, v) t) (\<lambda>(_, t). Inr t)"
| "hash_step env dflt (CallAssign k v) t = bindE (insert_or_assign env k v t) (\<lambda>(_, t). Inr t)"
| "hash_step env dflt (CallSubscript k) t = bindE (subscript env dflt k t) (\<lambda>(_, t). Inr t)"
| "hash_step env dflt (CallErase k) t = bindE (erase_key env k t) (\<lambda>(_, t). Inr t)"
| "hash_step env dflt CallClear t = clear t"
| "hash_step env dflt (CallRehash n) t = rehash env n t"
| "hash_step env dflt (CallReserve n) t = reserve env n t"
| "hash_step env dflt CallShrink t = shrink_to_fit env t"
| "hash_step env dflt (CallMaxLoad f) t = Inr (set_max_load_factor f t)"

fun hash_spec :: "'v \<Rightarrow> ('k, 'v) hash_call \<Rightarrow> ('k \<Rightarrow> 'v option) \<Rightarrow> 'k \<Rightarrow> 'v option" where
  "hash_spec dflt (CallEmplace k v) m = (if m k = None then m(k \<mapsto> v) else m)"
| "hash_spec dflt (CallAssign k v) m = m(k \<mapsto> v)"
| "hash_spec dflt (CallSubscript k) m = (if m k = None then m(k \<mapsto> dflt) else m)"
| "hash_spec dflt (CallErase k) m = m(k := None)"
| "hash_spec dflt CallClear m = Map.empty"
| "hash_spec dflt _ m = m"

text \<open>The sizes and load factors a client may ask for.\<close>

fun call_ok :: "('k, 'v) hash_call \<Rightarrow> bool" where
  "call_ok (CallRehash n) = (n \<le> 2 ^ 63)"
| "call_ok (CallReserve n) = (unat n \<le> 2 ^ 50)"
| "call_ok (CallMaxLoad f) = load_ok f"
| "call_ok _ = True"

definition hash_rel :: "('k, 'k \<times> 'v) hash_env \<Rightarrow> ('k \<times> 'v) table \<Rightarrow> ('k \<Rightarrow> 'v option) \<Rightarrow> bool" where
  "hash_rel env t m \<longleftrightarrow> map_env env \<and> table_ok env t \<and> assoc t = m"

definition hash_ok :: "('k, 'k \<times> 'v) hash_env \<Rightarrow> 'v \<Rightarrow> ('k \<times> 'v) table \<Rightarrow> ('k, 'v) hash_call \<Rightarrow> bool" where
  "hash_ok env dflt t c \<longleftrightarrow> call_ok c \<and> hash_step env dflt c t \<noteq> Inl BadAlloc"

lemma hash_step_cases:
  assumes "map_env env" and "table_ok env t" and "call_ok c"
  shows "hash_step env dflt c t = Inl BadAlloc \<or>
    (\<exists>t'. hash_step env dflt c t = Inr t' \<and> table_ok env t' \<and> assoc t' = hash_spec dflt c (assoc t))"
proof (cases c)
  case (CallEmplace k v)
  then show ?thesis by (cases rule: emplace_assoc [OF assms(1,2), of k v]) auto
next
  case (CallAssign k v)
  then show ?thesis by (cases rule: insert_or_assign_cases [OF assms(1,2), of k v]) auto
next
  case (CallSubscript k)
  then show ?thesis by (cases rule: emplace_assoc [OF assms(1,2), of k dflt]) (auto simp: subscript_def)
next
  case (CallErase k)
  then show ?thesis using erase_key_assoc [OF assms(1,2), of k] by auto
next
  case CallClear
  then show ?thesis using clear_correct [OF assms(2)] by (auto simp: assoc_def)
next
  case (CallRehash n)
  then have "n \<le> 2 ^ 63" using assms(3) by simp
  from assms(2) map_envD(1) [OF assms(1)] this show ?thesis
  proof (cases rule: rehash_cases)
    case 1
    then show ?thesis by (simp only: CallRehash hash_step.simps) simp
  next
    case (2 t')
    then show ?thesis
      using assoc_same [OF assms(1,2) 2(3)] by (simp only: CallRehash hash_step.simps hash_spec.simps) simp
  qed
next
  case (CallReserve n)
  then have "unat n \<le> 2 ^ 50" using assms(3) by simp
  from assms(2) map_envD(1) [OF assms(1)] this show ?thesis
  proof (cases rule: reserve_cases)
    case 1
    then show ?thesis by (simp only: CallReserve hash_step.simps) simp
  next
    case (2 t')
    then show ?thesis
      using assoc_same [OF assms(1,2) 2(3)] by (simp only: CallReserve hash_step.simps hash_spec.simps) simp
  qed
next
  case CallShrink
  from assms(2) map_envD(1) [OF assms(1)] table_okD(1) [OF assms(2)] show ?thesis
  proof (cases rule: rehash_for_other_cases)
    case 1
    then show ?thesis by (simp only: CallShrink hash_step.simps shrink_to_fit_def) simp
  next
    case (2 t')
    then show ?thesis
      using assoc_same [OF assms(1,2) 2(3)] by (simp only: CallShrink hash_step.simps hash_spec.simps shrink_to_fit_def) simp
  qed
next
  case (CallMaxLoad f)
  have "home env (t\<lparr>max_load_factor := f\<rparr>) = home env t" by (simp add: home_def bucket_def fun_eq_iff)
  then show ?thesis
    using CallMaxLoad assms(2,3)
    by (simp add: set_max_load_factor_def table_ok_def store_ok_def index_ok_def assoc_def)
qed

interpretation hash: simulation "hash_step env dflt" "hash_ok env dflt" "hash_spec dflt" "hash_rel env"
proof
  fix t m c assume "hash_rel env t m" and "hash_ok env dflt t c"
  then show "\<exists>t'. hash_step env dflt c t = Inr t' \<and> hash_rel env t' (hash_spec dflt c m)"
    using hash_step_cases [of env t c dflt] by (auto simp: hash_rel_def hash_ok_def)
qed

lemma new_table_rel: "map_env env \<Longrightarrow> hash_rel env (new_table p) Map.empty"
proof -
  assume "map_env env"
  have "new_table p = (new_table p)\<lparr>max_load_factor := Fin (1 / 2)\<rparr>" by (simp add: new_table_def)
  then have "table_ok env (new_table p)" "contents (new_table p) = {#}"
    by (rule new_table_ok [rotated], simp add: load_ok_def)+
  with \<open>map_env env\<close> show ?thesis by (simp add: hash_rel_def assoc_def)
qed

end
