(* ===== verification/HashHeap.thy ===== *)
theory HashHeap
  imports HashMapProps
begin

text \<open>
  The hash map of \<^verbatim>\<open>src/usockets-tcp/flat_hash_map.h\<close> with its memory and its exceptions. The
  operations of \<open>HashTable\<close> say what a call returns; here a table comes with the block that holds
  its entries and its allocator, all tables share a heap of blocks, and a computation that throws
  has a state too, the one that the client finds after the exception.
\<close>

section \<open>Computations that may throw\<close>

text \<open>
  \<open>Throws\<close> is a C++ exception with the state at the time of the throw; \<open>Faults\<close> is undefined
  behaviour or the end of the program.
\<close>

datatype ('a, 's) outcome = Returns 'a 's | Throws c_error 's | Faults c_error

primrec bindO :: "('a, 's) outcome \<Rightarrow> ('a \<Rightarrow> 's \<Rightarrow> ('b, 's) outcome) \<Rightarrow> ('b, 's) outcome" where
  "bindO (Returns x s) f = f x s"
| "bindO (Throws e s) f = Throws e s"
| "bindO (Faults e) f = Faults e"

lemma bindO_assoc: "bindO (bindO r f) g = bindO r (\<lambda>x s. bindO (f x s) g)"
  by (cases r) simp_all

definition is_exception :: "c_error \<Rightarrow> bool" where
  "is_exception e \<longleftrightarrow> e = BadAlloc \<or> e = OutOfRange"

text \<open>A computation that does not change the state.\<close>

definition liftO :: "'a result \<Rightarrow> 's \<Rightarrow> ('a, 's) outcome" where
  "liftO r s =
     (case r of Inr x \<Rightarrow> Returns x s | Inl e \<Rightarrow> if is_exception e then Throws e s else Faults e)"

lemma liftO_simps [simp]:
  "liftO (Inr x) s = Returns x s"
  "liftO (Inl BadAlloc) s = Throws BadAlloc s"
  "\<not> is_exception e \<Longrightarrow> liftO (Inl e) s = Faults e"
  by (simp_all add: liftO_def is_exception_def)

section \<open>The heap\<close>

text \<open>
  A block is known by a number; \<open>live\<close> says which allocator has given it out and for how many
  entries. A block must go back to that allocator, with that number, once.
\<close>

record heap =
  next_block :: nat
  live :: "nat \<Rightarrow> (nat \<times> u64) option"

definition empty_heap :: heap where
  "empty_heap = \<lparr>next_block = 0, live = Map.empty\<rparr>"

definition heap_allocate :: "nat \<Rightarrow> u64 \<Rightarrow> heap \<Rightarrow> nat \<times> heap" where
  "heap_allocate a n h = (next_block h, \<lparr>next_block = next_block h + 1, live = (live h)(next_block h \<mapsto> (a, n))\<rparr>)"

definition heap_deallocate :: "nat \<Rightarrow> nat \<Rightarrow> u64 \<Rightarrow> heap \<Rightarrow> heap result" where
  "heap_deallocate a b n h =
     (if live h b = Some (a, n) then Inr (h\<lparr>live := (live h)(b := None)\<rparr>) else Inl BadFree)"

section \<open>Tables with their memory\<close>

text \<open>
  \<open>block\<close> is \<open>None\<close> for a table whose entries are the static \<^verbatim>\<open>empty_default_table()\<close>, which all
  tables share.
\<close>

record 't container =
  tab :: "'t table"
  block :: "nat option"
  allocator :: nat

type_synonym 't held = "'t container \<times> heap"

definition deallocate_data :: "nat \<Rightarrow> nat option \<Rightarrow> u64 \<Rightarrow> int \<Rightarrow> heap \<Rightarrow> heap result" where
  "deallocate_data a begin slots lookups h =
     (case begin of None \<Rightarrow> Inr h | Some b \<Rightarrow> heap_deallocate a b (slots + of_int lookups + 1) h)"

definition reset_held :: "'t held \<Rightarrow> (unit, 't held) outcome" where
  "reset_held = (\<lambda>(c, h).
     bindO (liftO (deallocate_data (allocator c) (block c) (num_slots_minus_one (tab c)) (max_lookups (tab c)) h) (c, h))
       (\<lambda>h _. Returns () (c\<lparr>tab := reset_to_empty_state (tab c), block := None\<rparr>, h)))"

text \<open>An operation that touches the table only.\<close>

definition on_table :: "('t table \<Rightarrow> ('a \<times> 't table) result) \<Rightarrow> 't held \<Rightarrow> ('a, 't held) outcome" where
  "on_table f = (\<lambda>(c, h). bindO (liftO (f (tab c)) (c, h)) (\<lambda>(x, t) _. Returns x (c\<lparr>tab := t\<rparr>, h)))"

definition clear_held :: "'t held \<Rightarrow> (unit, 't held) outcome" where
  "clear_held = on_table (\<lambda>t. bindE (clear t) (\<lambda>t. Inr ((), t)))"

section \<open>Growth and insertion\<close>

type_synonym 't emplacer_held = "'t \<Rightarrow> 't held \<Rightarrow> (nat \<times> bool, 't held) outcome"

fun reinsert_held :: "'t emplacer_held \<Rightarrow> 't entry list \<Rightarrow> 't held \<Rightarrow> (unit, 't held) outcome" where
  "reinsert_held emp [] s = Returns () s"
| "reinsert_held emp (e # es) s =
     (if has_value e then bindO (liftO (the_value e) s) (\<lambda>v s. bindO (emp v s) (\<lambda>_. reinsert_held emp es))
      else reinsert_held emp es s)"

text \<open>
  The new array is in place before the values are put back into it; the old one is known to
  \<^verbatim>\<open>rehash\<close> alone, which returns it at the end.
\<close>

definition rehash_held_with :: "'t emplacer_held \<Rightarrow> ('k, 't) hash_env \<Rightarrow> u64 \<Rightarrow> 't held \<Rightarrow> (unit, 't held) outcome" where
  "rehash_held_with emp env num_buckets = (\<lambda>(c, h). let t = tab c in
     bindO (liftO (size_of_ceil (ddiv (double_of_u64 (num_elements t)) (max_load_factor t))) (c, h)) (\<lambda>needed _.
       let num_buckets = max num_buckets needed in
       if num_buckets = 0 then reset_held (c, h)
       else
         let (num_buckets, new_prime_index) = next_size_over (hash_policy t) num_buckets in
         if num_buckets = bucket_count t then Returns () (c, h)
         else
           let new_max_lookups = compute_max_lookups num_buckets; n = num_buckets + of_int new_max_lookups in
           bindO (liftO (new_buckets env n) (c, h)) (\<lambda>buckets _.
           bindO (liftO (old_entries t) (c, h)) (\<lambda>old _.
             let (b, h) = heap_allocate (allocator c) n h in
             bindO (reinsert_held emp old
               (c\<lparr>tab := t\<lparr>entries := buckets, num_slots_minus_one := num_buckets - 1,
                    hash_policy := commit new_prime_index (hash_policy t),
                    max_lookups := new_max_lookups, num_elements := 0\<rparr>, block := Some b\<rparr>, h)) (\<lambda>_ (c', h).
             bindO (liftO (deallocate_data (allocator c') (block c) (num_slots_minus_one t) (max_lookups t) h) (c', h))
               (\<lambda>h _. Returns () (c', h)))))))"

definition grow_held_with :: "'t emplacer_held \<Rightarrow> ('k, 't) hash_env \<Rightarrow> 't held \<Rightarrow> (unit, 't held) outcome" where
  "grow_held_with emp env s = rehash_held_with emp env (max 4 (2 * bucket_count (tab (fst s)))) s"

text \<open>
  When the table is about to grow because a displaced value did not fit, that value has been
  swapped into the place of the new one.
\<close>

definition emplace_new_key_held ::
  "'t emplacer_held \<Rightarrow> ('k, 't) hash_env \<Rightarrow> int \<Rightarrow> nat \<Rightarrow> 't \<Rightarrow> 't held \<Rightarrow> (nat \<times> bool, 't held) outcome" where
  "emplace_new_key_held emp env d p x = (\<lambda>(c, h). let t = tab c in
     if num_slots_minus_one t = 0 \<or> d = max_lookups t \<or> load_exceeded t
     then bindO (grow_held_with emp env (c, h)) (\<lambda>_. emp x)
     else bindO (liftO (entry_at (entries t) p) (c, h)) (\<lambda>e _.
       if is_empty_entry e
       then Returns (p, True)
         (c\<lparr>tab := t\<lparr>entries := (entries t)[p := entry_emplace d x e], num_elements := num_elements t + 1\<rparr>\<rparr>, h)
       else bindO (liftO (the_value e) (c, h)) (\<lambda>v _.
         bindO (liftO (displace (max_lookups t)
             ((entries t)[p := e\<lparr>distance_from_desired := d, entry_value := Some x\<rparr>])
             (p + 1) v (distance_from_desired e + 1)) (c, h)) (\<lambda>(cs, left) _.
           case left of
             None \<Rightarrow> Returns (p, True) (c\<lparr>tab := t\<lparr>entries := cs, num_elements := num_elements t + 1\<rparr>\<rparr>, h)
           | Some y \<Rightarrow>
               bindO (liftO (entry_at cs p) (c, h)) (\<lambda>result _. bindO (liftO (the_value result) (c, h)) (\<lambda>to_insert _.
                 bindO (grow_held_with emp env
                     (c\<lparr>tab := t\<lparr>entries := cs[p := result\<lparr>entry_value := Some y\<rparr>]\<rparr>\<rparr>, h))
                   (\<lambda>_. emp to_insert)))))))"

definition emplace_step_held :: "'t emplacer_held \<Rightarrow> ('k, 't) hash_env \<Rightarrow> 't emplacer_held" where
  "emplace_step_held emp env x = (\<lambda>(c, h).
     bindO (liftO (probe (key_of env) (key_of env x) (entries (tab c)) (unat (bucket env (key_of env x) (tab c))) 0) (c, h))
       (\<lambda>(p, d, found) s. if found then Returns (p, False) s else emplace_new_key_held emp env d p x s))"

primrec emplace_held_fuel :: "('k, 't) hash_env \<Rightarrow> nat \<Rightarrow> 't emplacer_held" where
  "emplace_held_fuel env 0 = (\<lambda>x s. Faults OutOfFuel)"
| "emplace_held_fuel env (Suc n) = emplace_step_held (emplace_held_fuel env n) env"

definition emplace_held :: "('k, 't) hash_env \<Rightarrow> 't emplacer_held" where
  "emplace_held env = emplace_held_fuel env recursion_bound"

fun insert_range_held :: "('k, 't) hash_env \<Rightarrow> 't list \<Rightarrow> 't held \<Rightarrow> (unit, 't held) outcome" where
  "insert_range_held env [] s = Returns () s"
| "insert_range_held env (v # vs) s = bindO (emplace_held env v s) (\<lambda>_. insert_range_held env vs)"

definition rehash_held :: "('k, 't) hash_env \<Rightarrow> u64 \<Rightarrow> 't held \<Rightarrow> (unit, 't held) outcome" where
  "rehash_held env = rehash_held_with (emplace_held env) env"

definition reserve_held :: "('k, 't) hash_env \<Rightarrow> u64 \<Rightarrow> 't held \<Rightarrow> (unit, 't held) outcome" where
  "reserve_held env n s =
     bindO (liftO (num_buckets_for_reserve (tab (fst s)) n) s) (\<lambda>required_buckets s.
       if bucket_count (tab (fst s)) < required_buckets then rehash_held env required_buckets s else Returns () s)"

definition rehash_for_other_held :: "('k, 't) hash_env \<Rightarrow> 't table \<Rightarrow> 't held \<Rightarrow> (unit, 't held) outcome" where
  "rehash_for_other_held env other s =
     bindO (liftO (num_buckets_for_reserve (tab (fst s)) (num_elements other)) s)
       (\<lambda>n. rehash_held env (min n (bucket_count other)))"

section \<open>\<^verbatim>\<open>flat_hash_map\<close>\<close>

definition insert_or_assign_held ::
  "('k, 'k \<times> 'v) hash_env \<Rightarrow> 'k \<Rightarrow> 'v \<Rightarrow> ('k \<times> 'v) held \<Rightarrow> (nat \<times> bool, ('k \<times> 'v) held) outcome" where
  "insert_or_assign_held env k m s =
     bindO (emplace_held env (k, m) s) (\<lambda>(p, new) s.
       if new then Returns (p, new) s
       else bindO (on_table (\<lambda>t. bindE (assign_at p m t) (\<lambda>t. Inr ((), t))) s) (\<lambda>_. Returns (p, new)))"

fun hash_step_held ::
  "('k, 'k \<times> 'v) hash_env \<Rightarrow> 'v \<Rightarrow> ('k, 'v) hash_call \<Rightarrow> ('k \<times> 'v) held \<Rightarrow> (unit, ('k \<times> 'v) held) outcome" where
  "hash_step_held env dflt (CallEmplace k v) s = bindO (emplace_held env (k, v) s) (\<lambda>_. Returns ())"
| "hash_step_held env dflt (CallAssign k v) s = bindO (insert_or_assign_held env k v s) (\<lambda>_. Returns ())"
| "hash_step_held env dflt (CallSubscript k) s = bindO (emplace_held env (k, dflt) s) (\<lambda>_. Returns ())"
| "hash_step_held env dflt (CallErase k) s = bindO (on_table (erase_key env k) s) (\<lambda>_. Returns ())"
| "hash_step_held env dflt CallClear s = clear_held s"
| "hash_step_held env dflt (CallRehash n) s = rehash_held env n s"
| "hash_step_held env dflt (CallReserve n) s = reserve_held env n s"
| "hash_step_held env dflt CallShrink s = rehash_for_other_held env (tab (fst s)) s"
| "hash_step_held env dflt (CallMaxLoad f) s = on_table (\<lambda>t. Inr ((), set_max_load_factor f t)) s"

section \<open>Construction and destruction\<close>

text \<open>
  A constructor that throws leaves no object. When its first part has returned the object exists
  and its destructor runs, as does the handler of the copy constructor, which does the same.
\<close>

definition destroy_held :: "'t held \<Rightarrow> (unit, heap) outcome" where
  "destroy_held s = (case clear_held s of
     Returns _ (c, h) \<Rightarrow>
       bindO (liftO (deallocate_data (allocator c) (block c) (num_slots_minus_one (tab c)) (max_lookups (tab c)) h) h)
         (\<lambda>h _. Returns () h)
   | Throws e (c, h) \<Rightarrow> Throws e h
   | Faults e \<Rightarrow> Faults e)"

definition constructed :: "(unit, 't held) outcome \<Rightarrow> ('t container, heap) outcome" where
  "constructed r = (case r of
     Returns _ (c, h) \<Rightarrow> Returns c h | Throws e (c, h) \<Rightarrow> Throws e h | Faults e \<Rightarrow> Faults e)"

definition or_destroy :: "(unit, 't held) outcome \<Rightarrow> ('t container, heap) outcome" where
  "or_destroy r = (case r of
     Returns _ (c, h) \<Rightarrow> Returns c h
   | Throws e s \<Rightarrow> bindO (destroy_held s) (\<lambda>_. Throws e)
   | Faults e \<Rightarrow> Faults e)"

definition blank_container :: "nat \<Rightarrow> hash_policy \<Rightarrow> 't container" where
  "blank_container a p = \<lparr>tab = new_table p, block = None, allocator = a\<rparr>"

definition construct_sized_held ::
  "('k, 't) hash_env \<Rightarrow> nat \<Rightarrow> hash_policy \<Rightarrow> u64 \<Rightarrow> heap \<Rightarrow> ('t container, heap) outcome" where
  "construct_sized_held env a p n h = constructed (rehash_held env n (blank_container a p, h))"

definition construct_range_held ::
  "('k, 't) hash_env \<Rightarrow> nat \<Rightarrow> hash_policy \<Rightarrow> 't list \<Rightarrow> u64 \<Rightarrow> heap \<Rightarrow> ('t container, heap) outcome" where
  "construct_range_held env a p vs n h =
     bindO (construct_sized_held env a p n h) (\<lambda>c h. or_destroy (insert_range_held env vs (c, h)))"

definition construct_list_held ::
  "('k, 't) hash_env \<Rightarrow> nat \<Rightarrow> hash_policy \<Rightarrow> 't list \<Rightarrow> u64 \<Rightarrow> heap \<Rightarrow> ('t container, heap) outcome" where
  "construct_list_held env a p il n h =
     bindO (construct_sized_held env a p n h) (\<lambda>c h. or_destroy (
       bindO (if n = 0 then rehash_held env (of_nat (length il)) (c, h) else Returns () (c, h))
         (\<lambda>_. insert_range_held env il)))"

definition copy_construct_held ::
  "('k, 't) hash_env \<Rightarrow> nat \<Rightarrow> 't table \<Rightarrow> heap \<Rightarrow> ('t container, heap) outcome" where
  "copy_construct_held env a other h =
     bindO (constructed (rehash_for_other_held env other
         ((blank_container a (hash_policy other))\<lparr>tab := (new_table (hash_policy other))\<lparr>max_load_factor := max_load_factor other\<rparr>\<rparr>, h)))
       (\<lambda>c h. or_destroy (bindO (liftO (elements other) (c, h)) (insert_range_held env)))"

section \<open>Moves, swaps and assignments\<close>

text \<open>
  The traits of the allocator type, and the allocator that a copy gets. \<open>std_traits\<close> are those of
  \<^verbatim>\<open>std::allocator\<close>, all objects of which are equal.
\<close>

record alloc_traits =
  propagate_copy :: bool
  propagate_move :: bool
  propagate_swap :: bool
  select_copy :: "nat \<Rightarrow> nat"

definition std_traits :: alloc_traits where
  "std_traits = \<lparr>propagate_copy = False, propagate_move = True, propagate_swap = False, select_copy = (\<lambda>a. a)\<rparr>"

definition AssignIfTrue :: "bool \<Rightarrow> 'a \<Rightarrow> 'a \<Rightarrow> 'a" where
  "AssignIfTrue b lhs rhs = (if b then rhs else lhs)"

definition swap_pointers_held :: "'t container \<Rightarrow> 't container \<Rightarrow> 't container \<times> 't container" where
  "swap_pointers_held c d =
     (let (t, u) = swap_pointers (tab c) (tab d)
      in (c\<lparr>tab := t, block := block d\<rparr>, d\<lparr>tab := u, block := block c\<rparr>))"

definition swap_held :: "alloc_traits \<Rightarrow> 't container \<Rightarrow> 't container \<Rightarrow> 't container \<times> 't container" where
  "swap_held tr c d =
     (let (c, d) = swap_pointers_held c d
      in if propagate_swap tr then (c\<lparr>allocator := allocator d\<rparr>, d\<lparr>allocator := allocator c\<rparr>) else (c, d))"

definition move_construct_held :: "'t container \<Rightarrow> 't container \<times> 't container" where
  "move_construct_held other = swap_pointers_held (blank_container (allocator other) (hash_policy (tab other))) other"

definition move_construct_alloc :: "nat \<Rightarrow> 't container \<Rightarrow> 't container \<times> 't container" where
  "move_construct_alloc a other = swap_pointers_held (blank_container a (hash_policy (tab other))) other"

definition copy_assign_held ::
  "alloc_traits \<Rightarrow> ('k, 't) hash_env \<Rightarrow> 't container \<Rightarrow> 't held \<Rightarrow> (unit, 't held) outcome" where
  "copy_assign_held tr env other s =
     bindO (clear_held s) (\<lambda>_ (c, h).
     bindO (if propagate_copy tr
            then bindO (if allocator c \<noteq> allocator other then reset_held (c, h) else Returns () (c, h)) (\<lambda>_ (c, h).
              Returns () (c\<lparr>allocator := AssignIfTrue (propagate_copy tr) (allocator c) (allocator other)\<rparr>, h))
            else Returns () (c, h)) (\<lambda>_ (c, h).
     bindO (rehash_for_other_held env (tab other)
         (c\<lparr>tab := (tab c)\<lparr>max_load_factor := max_load_factor (tab other)\<rparr>\<rparr>, h)) (\<lambda>_ s.
     bindO (liftO (elements (tab other)) s) (insert_range_held env))))"

text \<open>
  The move assignment is \<^verbatim>\<open>noexcept\<close>: an exception in it ends the program. Its result is the pair
  of the two tables.
\<close>

definition no_except :: "('a, 's) outcome \<Rightarrow> ('a, 's) outcome" where
  "no_except r = (case r of Throws e s \<Rightarrow> Faults Aborted | _ \<Rightarrow> r)"

definition move_assign_held ::
  "alloc_traits \<Rightarrow> ('k, 't) hash_env \<Rightarrow> 't container \<Rightarrow> 't held \<Rightarrow> ('t container, 't held) outcome" where
  "move_assign_held tr env other s = no_except (
     if propagate_move tr then
       bindO (clear_held s) (\<lambda>_ s. bindO (reset_held s) (\<lambda>_ (c, h).
         let c = c\<lparr>allocator := AssignIfTrue (propagate_move tr) (allocator c) (allocator other)\<rparr>;
             (c, other) = swap_pointers_held c other
         in Returns other (c, h)))
     else if allocator (fst s) = allocator other then
       (let (c, other) = swap_pointers_held (fst s) other in Returns other (c, snd s))
     else
       bindO (clear_held s) (\<lambda>_ (c, h).
       bindO (rehash_for_other_held env (tab other)
           (c\<lparr>tab := (tab c)\<lparr>max_load_factor := max_load_factor (tab other)\<rparr>\<rparr>, h)) (\<lambda>_ s.
       bindO (liftO (elements (tab other)) s) (\<lambda>vs s.
       bindO (insert_range_held env vs s) (\<lambda>_ s.
       bindO (liftO (clear (tab other)) s) (\<lambda>u. Returns (other\<lparr>tab := u\<rparr>)))))))"

end
