(* ===== verification/HashHeapProps.thy ===== *)
theory HashHeapProps
  imports HashHeap
begin

text \<open>
  What a call does to the heap, whatever the state of the table: the table's block is live, with
  the size and from the allocator it will be returned with; a call that returns leaves all other
  blocks as they were, one that throws returns none of them. \<open>tracks\<close> says this together with the
  refinement: the outcome is that of the operation of the same name in \<open>HashTable\<close>.
\<close>

section \<open>Ownership\<close>

definition heap_ok :: "heap \<Rightarrow> bool" where
  "heap_ok h \<longleftrightarrow> (\<forall>b. live h b \<noteq> None \<longrightarrow> b < next_block h)"

definition owns :: "'t container \<Rightarrow> heap \<Rightarrow> bool" where
  "owns c h \<longleftrightarrow> (case block c of
     None \<Rightarrow> entries (tab c) = empty_default_table \<and> num_slots_minus_one (tab c) = 0 \<and> max_lookups (tab c) = 3
   | Some b \<Rightarrow> live h b = Some (allocator c, num_slots_minus_one (tab c) + of_int (max_lookups (tab c)) + 1))"

definition held_ok :: "'t held \<Rightarrow> bool" where
  "held_ok s \<longleftrightarrow> heap_ok (snd s) \<and> owns (fst s) (snd s)"

text \<open>The blocks of others.\<close>

definition rest :: "'t container \<Rightarrow> heap \<Rightarrow> nat \<Rightarrow> (nat \<times> u64) option" where
  "rest c h = (case block c of None \<Rightarrow> live h | Some b \<Rightarrow> (live h)(b := None))"

definition same_rest :: "'t held \<Rightarrow> 't held \<Rightarrow> bool" where
  "same_rest s s' \<longleftrightarrow> held_ok s' \<and> allocator (fst s') = allocator (fst s)
     \<and> rest (fst s') (snd s') = rest (fst s) (snd s)"

definition may_leak :: "'t held \<Rightarrow> 't held \<Rightarrow> bool" where
  "may_leak s s' \<longleftrightarrow> held_ok s' \<and> allocator (fst s') = allocator (fst s)
     \<and> rest (fst s) (snd s) \<subseteq>\<^sub>m rest (fst s') (snd s')"

lemma same_rest_refl: "held_ok s \<Longrightarrow> same_rest s s"
  by (simp add: same_rest_def)

lemma same_rest_trans: "same_rest s s' \<Longrightarrow> same_rest s' s'' \<Longrightarrow> same_rest s s''"
  by (simp add: same_rest_def)

lemma same_may_leak: "same_rest s s' \<Longrightarrow> may_leak s' s'' \<Longrightarrow> may_leak s s''"
  by (simp add: same_rest_def may_leak_def)

lemma may_leak_refl: "held_ok s \<Longrightarrow> may_leak s s"
  by (simp add: may_leak_def)

lemma same_rest_leak: "same_rest s s' \<Longrightarrow> may_leak s s'"
  by (simp add: same_rest_def may_leak_def)

lemma rest_blocks:
  assumes "rest c h \<subseteq>\<^sub>m rest c' h'" and "live h b = Some x" and "block c \<noteq> Some b"
  shows "live h' b = Some x" and "block c' \<noteq> Some b"
proof -
  have "rest c h b = Some x" using assms(2,3) by (auto simp: rest_def split: option.split)
  then have "rest c' h' b = Some x" using assms(1) by (metis domI map_le_def)
  then show "live h' b = Some x" and "block c' \<noteq> Some b" by (auto simp: rest_def split: option.splits if_splits)
qed

section \<open>Tracking\<close>

definition tracks :: "'t held \<Rightarrow> ('a, 't held) outcome \<Rightarrow> ('a \<times> 't table) result \<Rightarrow> bool" where
  "tracks s r v = (case r of
     Returns x s' \<Rightarrow> v = Inr (x, tab (fst s')) \<and> same_rest s s'
   | Throws e s' \<Rightarrow> v = Inl e \<and> is_exception e \<and> may_leak s s'
   | Faults e \<Rightarrow> v = Inl e \<and> \<not> is_exception e)"

abbreviation tracks_unit :: "'t held \<Rightarrow> (unit, 't held) outcome \<Rightarrow> 't table result \<Rightarrow> bool" where
  "tracks_unit s r v \<equiv> tracks s r (bindE v (\<lambda>t. Inr ((), t)))"

lemma tracks_returns [simp]: "tracks s (Returns x s') v \<longleftrightarrow> v = Inr (x, tab (fst s')) \<and> same_rest s s'"
  by (simp add: tracks_def)

lemma tracks_faults [simp]: "tracks s (Faults e) v \<longleftrightarrow> v = Inl e \<and> \<not> is_exception e"
  by (simp add: tracks_def)

lemma tracks_bind:
  assumes "tracks s r v" and "\<And>x s'. r = Returns x s' \<Longrightarrow> same_rest s s' \<Longrightarrow> tracks s' (f x s') (g x (tab (fst s')))"
  shows "tracks s (bindO r f) (bindE v (\<lambda>(x, t). g x t))"
proof (cases r)
  case (Returns x s')
  then have v: "v = Inr (x, tab (fst s'))" and s': "same_rest s s'" using assms(1) by simp_all
  then have "tracks s' (f x s') (g x (tab (fst s')))" using assms(2) Returns by blast
  then show ?thesis
    using Returns v s' by (auto simp: tracks_def split: outcome.split elim: same_rest_trans same_may_leak)
next
  case (Throws e s')
  then show ?thesis using assms(1) by (simp add: tracks_def)
next
  case (Faults e)
  then show ?thesis using assms(1) by simp
qed

lemma tracks_bind_unit:
  assumes "tracks_unit s r v" and "\<And>x s'. r = Returns x s' \<Longrightarrow> same_rest s s' \<Longrightarrow> tracks s' (f x s') (g (tab (fst s')))"
  shows "tracks s (bindO r f) (bindE v g)"
proof -
  have "tracks s (bindO r f) (bindE (bindE v (\<lambda>t. Inr ((), t))) (\<lambda>(x, t). g t))"
    by (rule tracks_bind [OF assms(1)]) (rule assms(2))
  then show ?thesis by (simp add: bindE_assoc)
qed

lemma tracks_lift:
  assumes "held_ok s" and "\<And>x. r = Inr x \<Longrightarrow> tracks s (f x s) (g x)"
  shows "tracks s (bindO (liftO r s) f) (bindE r g)"
  using assms by (cases r) (auto simp: liftO_def tracks_def may_leak_refl)

lemma tracks_on_table:
  assumes "held_ok s" and "\<And>x t. f (tab (fst s)) = Inr (x, t) \<Longrightarrow>
      num_slots_minus_one t = num_slots_minus_one (tab (fst s)) \<and> max_lookups t = max_lookups (tab (fst s))
      \<and> (block (fst s) = None \<longrightarrow> entries t = entries (tab (fst s)))"
  shows "tracks s (on_table f s) (f (tab (fst s)))"
proof (cases s)
  case (Pair c h)
  have "tracks s (on_table f s) (bindE (f (tab c)) Inr)"
    unfolding on_table_def Pair prod.case
  proof (rule tracks_lift [OF assms(1) [unfolded Pair]])
    fix y assume y: "f (tab c) = Inr y"
    obtain x t where xt: "y = (x, t)" by (cases y)
    have t: "num_slots_minus_one t = num_slots_minus_one (tab c)" "max_lookups t = max_lookups (tab c)"
        "block c = None \<longrightarrow> entries t = entries (tab c)"
      using assms(2) [of x t] y xt Pair by simp_all
    have "same_rest (c, h) (c\<lparr>tab := t\<rparr>, h)"
      using assms(1) t Pair by (auto simp: same_rest_def held_ok_def owns_def rest_def split: option.splits)
    then show "tracks (c, h) ((\<lambda>(x, t) _. Returns x (c\<lparr>tab := t\<rparr>, h)) y (c, h)) (Inr y)" by (simp add: xt)
  qed
  moreover have "bindE (f (tab c)) Inr = f (tab c)" by (cases "f (tab c)") simp_all
  ultimately show ?thesis using Pair by simp
qed

section \<open>Memory\<close>

lemma heap_ok_fresh: "heap_ok h \<Longrightarrow> live h (next_block h) = None"
  unfolding heap_ok_def by blast

lemma deallocate_owned:
  assumes "held_ok (c, h)"
  obtains h' where "deallocate_data (allocator c) (block c) (num_slots_minus_one (tab c)) (max_lookups (tab c)) h = Inr h'"
    and "live h' = rest c h" and "next_block h' = next_block h" and "heap_ok h'"
proof (cases "block c")
  case None
  then show ?thesis using assms that [of h] by (simp add: deallocate_data_def rest_def held_ok_def)
next
  case (Some b)
  let ?h = "h\<lparr>live := (live h)(b := None)\<rparr>"
  have "heap_ok ?h" using assms by (auto simp: held_ok_def heap_ok_def)
  then show ?thesis
    using assms Some that [of ?h] by (simp add: deallocate_data_def heap_deallocate_def rest_def held_ok_def owns_def)
qed

lemma reset_tracks:
  assumes "held_ok s"
  shows "tracks_unit s (reset_held s) (Inr (reset_to_empty_state (tab (fst s))))"
proof (cases s)
  case (Pair c h)
  obtain h' where h': "deallocate_data (allocator c) (block c) (num_slots_minus_one (tab c)) (max_lookups (tab c)) h = Inr h'"
      "live h' = rest c h" "heap_ok h'"
    using deallocate_owned assms Pair by blast
  have "same_rest s (c\<lparr>tab := reset_to_empty_state (tab c), block := None\<rparr>, h')"
    using h'(2,3) Pair
    by (simp add: same_rest_def held_ok_def owns_def rest_def reset_to_empty_state_def min_lookups_def)
  then show ?thesis using h'(1) Pair by (simp add: reset_held_def)
qed

section \<open>Growth and insertion\<close>

definition emplacer_tracks :: "'t emplacer_held \<Rightarrow> 't emplacer \<Rightarrow> bool" where
  "emplacer_tracks emp_h emp \<longleftrightarrow> (\<forall>x s. held_ok s \<longrightarrow> tracks s (emp_h x s) (emp x (tab (fst s))))"

lemma same_rest_ok: "same_rest s s' \<Longrightarrow> held_ok s'"
  by (simp add: same_rest_def)

lemma emplacer_tracksD: "emplacer_tracks emp_h emp \<Longrightarrow> held_ok s \<Longrightarrow> tracks s (emp_h x s) (emp x (tab (fst s)))"
  unfolding emplacer_tracks_def by blast

lemma reinsert_tracks:
  assumes "emplacer_tracks emp_h emp" and "held_ok s"
  shows "tracks_unit s (reinsert_held emp_h es s) (reinsert emp es (tab (fst s)))"
  using assms(2)
proof (induction es arbitrary: s)
  case Nil
  then show ?case by (simp add: same_rest_refl)
next
  case (Cons e es)
  show ?case
  proof (cases "has_value e")
    case False
    then show ?thesis using Cons by simp
  next
    case True
    have "tracks s (bindO (liftO (the_value e) s) (\<lambda>v s. bindO (emp_h v s) (\<lambda>_. reinsert_held emp_h es)))
        (bindE (the_value e) (\<lambda>v. bindE (emp v (tab (fst s))) (\<lambda>(_, t). bindE (reinsert emp es t) (\<lambda>t. Inr ((), t)))))"
      by (intro tracks_lift [OF Cons.prems] tracks_bind [OF emplacer_tracksD [OF assms(1) Cons.prems]])
        (erule Cons.IH [OF same_rest_ok])
    then show ?thesis using True by (simp add: bindE_assoc prod.case_distrib [of "\<lambda>r. bindE r _"] split_def)
  qed
qed

lemma allocate_owned:
  assumes "held_ok (c, h)" and "heap_allocate (allocator c) n h = (b, h')" and "block c' = Some b"
    and "allocator c' = allocator c" and "num_slots_minus_one (tab c') + of_int (max_lookups (tab c')) + 1 = n"
  shows "held_ok (c', h')" and "rest c' h' = live h"
proof -
  have h': "b = next_block h" "h' = \<lparr>next_block = b + 1, live = (live h)(b \<mapsto> (allocator c, n))\<rparr>"
    using assms(2) by (auto simp: heap_allocate_def)
  have "heap_ok h" using assms(1) by (simp add: held_ok_def)
  note fresh = heap_ok_fresh [OF this]
  show "held_ok (c', h')"
    using \<open>heap_ok h\<close> h' assms(3-5) by (auto simp: held_ok_def heap_ok_def owns_def less_Suc_eq)
  show "rest c' h' = live h" using h' assms(3) fresh by (auto simp: rest_def fun_eq_iff)
qed

text \<open>The end of \<^verbatim>\<open>rehash\<close>, from the state with the new block on.\<close>

lemma rebuild_tracks:
  assumes "emplacer_tracks emp_h emp" and "held_ok (c, h)"
    and "held_ok (c1, h1)" and "rest c1 h1 = live h" and "allocator c1 = allocator c"
  shows "tracks_unit (c, h)
     (bindO (reinsert_held emp_h old (c1, h1)) (\<lambda>_ (c', h).
        bindO (liftO (deallocate_data (allocator c') (block c) (num_slots_minus_one (tab c)) (max_lookups (tab c)) h) (c', h))
          (\<lambda>h _. Returns () (c', h))))
     (reinsert emp old (tab c1))"
proof -
  have r: "tracks_unit (c1, h1) (reinsert_held emp_h old (c1, h1)) (reinsert emp old (tab c1))"
    using reinsert_tracks [OF assms(1,3), of old] by simp
  have sub: "rest c h \<subseteq>\<^sub>m live h" by (auto simp: rest_def map_le_def split: option.splits)
  show ?thesis
  proof (cases "reinsert_held emp_h old (c1, h1)")
    case (Faults e)
    then show ?thesis using r by simp
  next
    case (Throws e s2)
    then have "may_leak (c, h) s2" using r sub assms(4,5) by (auto simp: tracks_def may_leak_def intro: map_le_trans)
    then show ?thesis using r Throws by (simp add: tracks_def)
  next
    case (Returns u s2)
    obtain c2 h2 where s2: "s2 = (c2, h2)" by (cases s2)
    have same: "held_ok (c2, h2)" "allocator c2 = allocator c" "rest c2 h2 = live h"
      using r Returns assms(4,5) s2 by (simp_all add: same_rest_def)
    have old: "live h2 b = live h b \<and> block c2 \<noteq> Some b" if "block c = Some b" for b
    proof -
      have "live h b \<noteq> None" using assms(2) that by (simp add: held_ok_def owns_def)
      then have "rest c2 h2 b \<noteq> None" using same(3) by simp
      then show ?thesis using fun_cong [OF same(3), of b] by (auto simp: rest_def split: option.splits if_splits)
    qed
    define h3 where "h3 = h2\<lparr>live := (case block c of None \<Rightarrow> live h2 | Some b \<Rightarrow> (live h2)(b := None))\<rparr>"
    have h3: "deallocate_data (allocator c2) (block c) (num_slots_minus_one (tab c)) (max_lookups (tab c)) h2 = Inr h3"
        "live h3 = (case block c of None \<Rightarrow> live h2 | Some b \<Rightarrow> (live h2)(b := None))" "next_block h3 = next_block h2"
      using assms(2) same(2) old
      by (cases "block c"; simp add: h3_def deallocate_data_def heap_deallocate_def held_ok_def owns_def)+
    have "heap_ok h3" using same(1) h3(2,3) by (auto simp: held_ok_def heap_ok_def split: option.splits)
    moreover have "owns c2 h3"
      using same(1) h3(2) old
      by (auto simp: held_ok_def owns_def split: option.splits)
    moreover have "rest c2 h3 = rest c h"
    proof -
      have "rest c2 h3 = (case block c of None \<Rightarrow> rest c2 h2 | Some b \<Rightarrow> (rest c2 h2)(b := None))"
        using h3(2) by (auto simp: rest_def fun_eq_iff split: option.split)
      then show ?thesis unfolding same(3) by (simp add: rest_def)
    qed
    ultimately have "same_rest (c, h) (c2, h3)" using same(2) by (simp add: same_rest_def held_ok_def)
    moreover have "reinsert emp old (tab c1) = Inr (tab c2)" using r Returns s2 by (simp add: bindE_eq_Inr)
    ultimately show ?thesis using Returns s2 h3(1) by simp
  qed
qed

lemma rehash_tracks:
  assumes "emplacer_tracks emp_h emp" and "held_ok s"
  shows "tracks_unit s (rehash_held_with emp_h env n s) (rehash_with emp env n (tab (fst s)))"
proof (cases s)
  case (Pair c h)
  note ok = assms(2) [unfolded Pair]
  let ?t = "tab c"
  have "tracks_unit (c, h) (rehash_held_with emp_h env n (c, h)) (rehash_with emp env n ?t)"
    unfolding rehash_held_with_def rehash_with_def Let_def prod.case bindE_assoc
  proof (rule tracks_lift [OF ok], goal_cases)
    case (1 needed)
    obtain m idx where step: "next_size_over (hash_policy ?t) (max n needed) = (m, idx)" by fastforce
    let ?k = "compute_max_lookups m"
    show ?case
    proof (cases "max n needed = 0 \<or> m = bucket_count ?t")
      case True
      then show ?thesis using reset_tracks [OF ok] step by (auto simp: same_rest_refl [OF ok])
    next
      case False
      let ?n = "m + of_int ?k"
      obtain b h1 where b: "heap_allocate (allocator c) ?n h = (b, h1)" by fastforce
      have "tracks_unit (c, h)
         (bindO (liftO (new_buckets env ?n) (c, h)) (\<lambda>buckets _.
             bindO (liftO (old_entries ?t) (c, h)) (\<lambda>old _.
                 bindO (reinsert_held emp_h old
                   (c\<lparr>tab := ?t\<lparr>entries := buckets, num_slots_minus_one := m - 1,
                      hash_policy := commit idx (hash_policy ?t), max_lookups := ?k,
                      num_elements := 0\<rparr>, block := Some b\<rparr>, h1))
                 (\<lambda>_ (c', h). bindO (liftO (deallocate_data (allocator c') (block c) (num_slots_minus_one ?t)
                      (max_lookups ?t) h) (c', h)) (\<lambda>h _. Returns () (c', h))))))
         (bindE (new_buckets env ?n) (\<lambda>buckets. bindE (old_entries ?t) (\<lambda>old.
               reinsert emp old
                 (?t\<lparr>entries := buckets, num_slots_minus_one := m - 1,
                      hash_policy := commit idx (hash_policy ?t), max_lookups := ?k, num_elements := 0\<rparr>))))"
        unfolding bindE_assoc
      proof (intro tracks_lift [OF ok])
        fix buckets old
        let ?c = "c\<lparr>tab := ?t\<lparr>entries := buckets, num_slots_minus_one := m - 1,
                      hash_policy := commit idx (hash_policy ?t), max_lookups := ?k,
                      num_elements := 0\<rparr>, block := Some b\<rparr>"
        have "held_ok (?c, h1)" "rest ?c h1 = live h"
          by (rule allocate_owned [OF ok b]; simp)+
        from rebuild_tracks [OF assms(1) ok this, of old]
        show "tracks_unit (c, h)
            (bindO (reinsert_held emp_h old (?c, h1))
              (\<lambda>_ (c', h). bindO (liftO (deallocate_data (allocator c') (block c) (num_slots_minus_one ?t)
                      (max_lookups ?t) h) (c', h)) (\<lambda>h _. Returns () (c', h))))
            (reinsert emp old (?t\<lparr>entries := buckets, num_slots_minus_one := m - 1,
                      hash_policy := commit idx (hash_policy ?t), max_lookups := ?k, num_elements := 0\<rparr>))"
          by simp
      qed
      then show ?thesis using False step b by simp
    qed
  qed
  then show ?thesis using Pair by simp
qed

lemma grow_tracks:
  assumes "emplacer_tracks emp_h emp" and "held_ok s"
  shows "tracks_unit s (grow_held_with emp_h env s) (grow_with emp env (tab (fst s)))"
  unfolding grow_held_with_def grow_with_def by (rule rehash_tracks [OF assms])

lemma grow_emplace_tracks:
  assumes "emplacer_tracks emp_h emp" and "held_ok s"
  shows "tracks s (bindO (grow_held_with emp_h env s) (\<lambda>_. emp_h x)) (bindE (grow_with emp env (tab (fst s))) (emp x))"
  by (rule tracks_bind_unit [OF grow_tracks [OF assms]]) (rule emplacer_tracksD [OF assms(1) same_rest_ok])

lemma emplace_new_key_tracks:
  assumes "emplacer_tracks emp_h emp" and "held_ok s"
  shows "tracks s (emplace_new_key_held emp_h env d p x s) (emplace_new_key emp env d p x (tab (fst s)))"
proof (cases s)
  case (Pair c h)
  note ok = assms(2) [unfolded Pair]
  let ?t = "tab c"
  have ge: "tracks (c, h) (bindO (grow_held_with emp_h env (c, h)) (\<lambda>_. emp_h x)) (bindE (grow_with emp env ?t) (emp x))"
    using grow_emplace_tracks [OF assms(1) ok] by simp
  show ?thesis
  proof (cases "num_slots_minus_one ?t = 0 \<or> d = max_lookups ?t \<or> load_exceeded ?t")
    case True
    then show ?thesis using ge Pair by (simp add: emplace_new_key_held_def emplace_new_key_def)
  next
    case False
    have changed: "held_ok (c\<lparr>tab := ?t\<lparr>entries := cs, num_elements := n\<rparr>\<rparr>, h)"
       "same_rest (c, h) (c\<lparr>tab := ?t\<lparr>entries := cs, num_elements := n\<rparr>\<rparr>, h)" for cs n
      using ok False by (auto simp: same_rest_def held_ok_def owns_def rest_def split: option.splits)
    have swapped: "held_ok (c\<lparr>tab := ?t\<lparr>entries := cs\<rparr>\<rparr>, h)" "same_rest (c, h) (c\<lparr>tab := ?t\<lparr>entries := cs\<rparr>\<rparr>, h)" for cs
      using changed [where cs = cs and n = "num_elements ?t"] by simp_all
    have ge': "tracks (c, h)
        (bindO (grow_held_with emp_h env (c\<lparr>tab := ?t\<lparr>entries := cs\<rparr>\<rparr>, h)) (\<lambda>_. emp_h y))
        (bindE (grow_with emp env (?t\<lparr>entries := cs\<rparr>)) (emp y))" for cs y
    proof -
      have "tracks (c\<lparr>tab := ?t\<lparr>entries := cs\<rparr>\<rparr>, h)
        (bindO (grow_held_with emp_h env (c\<lparr>tab := ?t\<lparr>entries := cs\<rparr>\<rparr>, h)) (\<lambda>_. emp_h y))
        (bindE (grow_with emp env (?t\<lparr>entries := cs\<rparr>)) (emp y))"
        using grow_emplace_tracks [OF assms(1) swapped(1) [of cs]] by simp
      then show ?thesis
        using swapped(2) [of cs] by (auto simp: tracks_def split: outcome.splits elim: same_rest_trans same_may_leak)
    qed
    have "tracks (c, h) (emplace_new_key_held emp_h env d p x (c, h)) (emplace_new_key emp env d p x ?t)"
      unfolding emplace_new_key_held_def emplace_new_key_def Let_def prod.case if_not_P [OF False]
    proof (rule tracks_lift [OF ok], goal_cases)
      case (1 e)
      show ?case
        by (cases "is_empty_entry e")
          (auto simp: changed intro!: tracks_lift [OF ok] ge' split: option.split)
    qed
    then show ?thesis using Pair by simp
  qed
qed

lemma emplace_fuel_tracks:
  fixes env :: "('k, 't) hash_env"
  shows "emplacer_tracks (emplace_held_fuel env n) (emplace_fuel env n)"
proof (induction n)
  case 0
  show ?case by (simp add: emplacer_tracks_def is_exception_def)
next
  case (Suc n)
  show ?case
    unfolding emplacer_tracks_def
  proof (intro allI impI)
    fix x and s :: "'t held" assume ok: "held_ok s"
    obtain c h where s: "s = (c, h)" by (cases s)
    have "tracks (c, h) (emplace_step_held (emplace_held_fuel env n) env x (c, h))
        (emplace_step (emplace_fuel env n) env x (tab c))"
      unfolding emplace_step_held_def emplace_step_def prod.case
      using emplace_new_key_tracks [OF Suc ok [unfolded s]] same_rest_refl [OF ok [unfolded s]]
      by (intro tracks_lift [OF ok [unfolded s]]) (auto split: prod.split)
    then show "tracks s (emplace_held_fuel env (Suc n) x s) (emplace_fuel env (Suc n) x (tab (fst s)))" by (simp add: s)
  qed
qed

lemma emplace_tracks: "held_ok s \<Longrightarrow> tracks s (emplace_held env x s) (emplace env x (tab (fst s)))"
  unfolding emplace_held_def emplace_def by (rule emplacer_tracksD [OF emplace_fuel_tracks])

lemma insert_range_tracks:
  assumes "held_ok s"
  shows "tracks_unit s (insert_range_held env vs s) (insert_range env vs (tab (fst s)))"
  using assms
proof (induction vs arbitrary: s)
  case Nil
  then show ?case by (simp add: same_rest_refl)
next
  case (Cons v vs)
  have "tracks s (bindO (emplace_held env v s) (\<lambda>_. insert_range_held env vs))
      (bindE (emplace env v (tab (fst s))) (\<lambda>(_, t). bindE (insert_range env vs t) (\<lambda>t. Inr ((), t))))"
    by (rule tracks_bind [OF emplace_tracks [OF Cons.prems]]) (erule Cons.IH [OF same_rest_ok])
  then show ?case by (simp add: bindE_assoc split_def)
qed

lemma rehash_held_tracks: "held_ok s \<Longrightarrow> tracks_unit s (rehash_held env n s) (rehash env n (tab (fst s)))"
  unfolding rehash_held_def rehash_def
  by (rule rehash_tracks) (simp_all add: emplacer_tracks_def emplace_tracks)

lemma reserve_tracks: "held_ok s \<Longrightarrow> tracks_unit s (reserve_held env n s) (reserve env n (tab (fst s)))"
  unfolding reserve_held_def reserve_def bindE_assoc
  by (rule tracks_lift) (simp_all add: rehash_held_tracks same_rest_refl)

lemma rehash_for_other_tracks:
  "held_ok s \<Longrightarrow> tracks_unit s (rehash_for_other_held env u s) (rehash_for_other_container env u (tab (fst s)))"
  unfolding rehash_for_other_held_def rehash_for_other_container_def bindE_assoc
  by (rule tracks_lift) (simp_all add: rehash_held_tracks)

section \<open>Operations on the entries\<close>

text \<open>The static array is never written: no operation finds a value in it.\<close>

lemma probe_finds:
  assumes "probe g k cs p d = Inr (q, e, True)"
  shows "q < length cs" and "val cs q \<noteq> None"
proof -
  have "q < length cs \<and> val cs q \<noteq> None"
    using assms
  proof (induction g k cs p d rule: probe.induct)
    case (1 g k cs p d)
    have p: "p < length cs"
      using 1(2) by (subst (asm) probe.simps) (auto simp: bindE_eq_Inr dest: entry_at_bound)
    with 1(2) obtain v where v: "d \<le> dst cs p" "val cs p = Some v"
        "if g v = k then q = p else probe g k cs (p + 1) (d + 1) = Inr (q, e, True)"
      by (auto simp: probe_step the_value_def split: if_splits option.splits)
    show ?case
    proof (cases "g v = k")
      case False
      then show ?thesis using 1(1) [of "cs ! p" v] v p by (simp add: entry_at_def the_value_def)
    qed (use v p in simp)
  qed
  then show "q < length cs" and "val cs q \<noteq> None" by blast+
qed

lemma default_values: "p < length empty_default_table \<Longrightarrow> val empty_default_table p = None"
  by (auto simp: empty_default_table_def entry_defs nth_Cons split: nat.splits)

lemma default_no_value: "val empty_default_table p = Some v \<Longrightarrow> p < length empty_default_table \<Longrightarrow> False"
  by (simp add: default_values)

lemma find_default:
  assumes "find_key env k t = Inr p" and "entries t = empty_default_table"
  shows "p = end_index t"
proof -
  obtain q d f where "probe (key_of env) k (entries t) (unat (bucket env k t)) 0 = Inr (q, d, f)"
      "p = (if f then q else end_index t)"
    using assms(1) by (auto simp: find_key_def bindE_eq_Inr)
  note r = this
  show ?thesis
  proof (cases f)
    case True
    then have "probe (key_of env) k (entries t) (unat (bucket env k t)) 0 = Inr (q, d, True)" using r(1) by simp
    from probe_finds [OF this] show ?thesis using assms(2) default_no_value by fastforce
  qed (use r in simp)
qed

lemma clear_default:
  fixes t :: "'t table"
  assumes "entries t = empty_default_table" and "num_slots_minus_one t = 0" and "max_lookups t = 3"
  shows "clear t = Inr (t\<lparr>num_elements := 0\<rparr>)"
proof -
  have "destroy_range empty_default_table 0 3 0 = Inr (empty_default_table :: 't entry list, 0)"
    by (simp add: destroy_range.simps entry_at_def empty_default_table_def empty_entry_def has_value_def)
  moreover have "end_index t = 3" using assms by (simp add: end_index_def)
  ultimately have "clear t = Inr (t\<lparr>entries := empty_default_table, num_elements := 0\<rparr>)"
    using assms(1) unfolding clear_def by (simp only: bindE.simps prod.case)
  also have "t\<lparr>entries := empty_default_table, num_elements := 0\<rparr> = t\<lparr>num_elements := 0\<rparr>"
    by (simp flip: assms(1))
  finally show ?thesis .
qed

lemma clear_frame:
  "clear t = Inr t' \<Longrightarrow> num_slots_minus_one t' = num_slots_minus_one t \<and> max_lookups t' = max_lookups t"
  by (auto simp: clear_def bindE_eq_Inr)

lemma clear_tracks:
  assumes "held_ok s"
  shows "tracks_unit s (clear_held s) (clear (tab (fst s)))"
  unfolding clear_held_def
proof (rule tracks_on_table [OF assms])
  fix u t' assume "bindE (clear (tab (fst s))) (\<lambda>t. Inr ((), t)) = Inr (u, t')"
  then have c: "clear (tab (fst s)) = Inr t'" by (simp add: bindE_eq_Inr)
  have "entries t' = entries (tab (fst s))" if "block (fst s) = None"
    using c clear_default [of "tab (fst s)"] assms that by (auto simp: held_ok_def owns_def)
  then show "num_slots_minus_one t' = num_slots_minus_one (tab (fst s)) \<and> max_lookups t' = max_lookups (tab (fst s))
     \<and> (block (fst s) = None \<longrightarrow> entries t' = entries (tab (fst s)))"
    using clear_frame [OF c] by blast
qed

lemma erase_key_tracks:
  assumes "held_ok s"
  shows "tracks s (on_table (erase_key env k) s) (erase_key env k (tab (fst s)))"
proof (rule tracks_on_table [OF assms])
  fix n t' assume e: "erase_key env k (tab (fst s)) = Inr (n, t')"
  let ?t = "tab (fst s)"
  obtain p where p: "find_key env k ?t = Inr p"
      "(if p = end_index ?t then Inr (0, ?t) else bindE (erase_at p ?t) (\<lambda>(_, t). Inr (1, t))) = Inr (n, t')"
    using e unfolding erase_key_def bindE_eq_Inr by blast
  have "num_slots_minus_one u = num_slots_minus_one ?t \<and> max_lookups u = max_lookups ?t" if "erase_at p ?t = Inr (q, u)" for q u
    using that by (auto simp: erase_at_def bindE_eq_Inr)
  then have "num_slots_minus_one t' = num_slots_minus_one ?t \<and> max_lookups t' = max_lookups ?t"
    using p(2) by (auto simp: bindE_eq_Inr split: if_splits)
  moreover have "entries t' = entries ?t" if "block (fst s) = None"
  proof -
    have "entries ?t = empty_default_table" using assms that by (simp add: held_ok_def owns_def)
    then show ?thesis using find_default [OF p(1)] p(2) by simp
  qed
  ultimately show "num_slots_minus_one t' = num_slots_minus_one ?t \<and> max_lookups t' = max_lookups ?t
     \<and> (block (fst s) = None \<longrightarrow> entries t' = entries ?t)" by blast
qed

lemma assign_tracks:
  assumes "held_ok s"
  shows "tracks_unit s (on_table (\<lambda>t. bindE (assign_at p m t) (\<lambda>t. Inr ((), t))) s) (assign_at p m (tab (fst s)))"
proof (rule tracks_on_table [OF assms])
  fix u t' assume e: "bindE (assign_at p m (tab (fst s))) (\<lambda>t. Inr ((), t)) = Inr (u, t')"
  let ?t = "tab (fst s)"
  have "num_slots_minus_one t' = num_slots_minus_one ?t \<and> max_lookups t' = max_lookups ?t"
    using e by (auto simp: assign_at_def bindE_eq_Inr)
  moreover have "block (fst s) \<noteq> None"
  proof
    assume "block (fst s) = None"
    then have "entries ?t = empty_default_table" using assms by (simp add: held_ok_def owns_def)
    then show False
      using e
      by (auto simp: assign_at_def bindE_eq_Inr entry_at_def the_value_def dest: default_no_value split: if_splits option.splits)
  qed
  ultimately show "num_slots_minus_one t' = num_slots_minus_one ?t \<and> max_lookups t' = max_lookups ?t
     \<and> (block (fst s) = None \<longrightarrow> entries t' = entries ?t)" by blast
qed

lemma insert_or_assign_tracks:
  assumes "held_ok s"
  shows "tracks s (insert_or_assign_held env k m s) (insert_or_assign env k m (tab (fst s)))"
proof -
  have "tracks s (insert_or_assign_held env k m s)
     (bindE (emplace env (k, m) (tab (fst s))) (\<lambda>(x, t). case x of (p, new) \<Rightarrow>
       if new then Inr ((p, new), t) else bindE (assign_at p m t) (\<lambda>t. Inr ((p, new), t))))"
    unfolding insert_or_assign_held_def
  proof (rule tracks_bind [OF emplace_tracks [OF assms]], goal_cases)
    case (1 x s')
    obtain p new where x: "x = (p, new)" by (cases x)
    have "tracks s' (bindO (on_table (\<lambda>t. bindE (assign_at p m t) (\<lambda>t. Inr ((), t))) s') (\<lambda>_. Returns (p, new)))
        (bindE (assign_at p m (tab (fst s'))) (\<lambda>t. Inr ((p, new), t)))"
      by (rule tracks_bind_unit [OF assign_tracks [OF same_rest_ok [OF 1(2)]]]) (simp add: same_rest_refl same_rest_ok)
    then show ?case using 1(2) by (cases new) (simp_all add: x same_rest_refl same_rest_ok)
  qed
  then show ?thesis by (simp add: insert_or_assign_def split_def)
qed

text \<open>Every call of a client.\<close>

lemma tracks_discard:
  assumes "tracks s r v"
  shows "tracks_unit s (bindO r (\<lambda>_. Returns ())) (bindE v (\<lambda>(_, t). Inr t))"
proof -
  have "tracks s (bindO r (\<lambda>_. Returns ())) (bindE v (\<lambda>(_, t). Inr ((), t)))"
    by (rule tracks_bind [OF assms]) (simp add: same_rest_refl same_rest_ok)
  then show ?thesis by (simp add: bindE_assoc split_def)
qed

lemma hash_step_tracks:
  assumes "held_ok s"
  shows "tracks_unit s (hash_step_held env dflt c s) (hash_step env dflt c (tab (fst s)))"
proof (cases c)
  case (CallSubscript k)
  have "subscript env dflt k t = bindE (emplace env (k, dflt) t) (\<lambda>((p, _), t). Inr (p, t))" for t
    by (simp add: subscript_def)
  then have "bindE (subscript env dflt k t) (\<lambda>(_, t). Inr t) = bindE (emplace env (k, dflt) t) (\<lambda>(_, t). Inr t)" for t
    by (simp add: bindE_assoc split_def)
  then show ?thesis using tracks_discard [OF emplace_tracks [OF assms]] by (simp add: CallSubscript)
next
  case CallShrink
  then show ?thesis using rehash_for_other_tracks [OF assms] by (simp add: shrink_to_fit_def)
next
  case (CallMaxLoad f)
  have "tracks s (on_table (\<lambda>t. Inr ((), set_max_load_factor f t)) s) (Inr ((), set_max_load_factor f (tab (fst s))))"
    by (rule tracks_on_table [OF assms]) (auto simp: set_max_load_factor_def)
  then show ?thesis by (simp add: CallMaxLoad)
qed (simp_all add: tracks_discard emplace_tracks insert_or_assign_tracks erase_key_tracks clear_tracks
    rehash_held_tracks reserve_tracks assms)

end
