(* ===== verification/HashThrows.thy ===== *)
theory HashThrows
  imports HashHeapProps
begin

text \<open>
  The state of a table after an exception: the size is the number of values, the values are among
  those that were there, and the table can be cleared and destroyed. The order of the entries,
  which searches rely on, may be lost.
\<close>

section \<open>What an exception leaves\<close>

definition throws_ok :: "('k, 't) hash_env \<Rightarrow> 't multiset \<Rightarrow> ('a, 't held) outcome \<Rightarrow> bool" where
  "throws_ok env m r = (case r of
     Throws e s \<Rightarrow> e = BadAlloc \<and> store_ok env (tab (fst s)) \<and> contents (tab (fst s)) \<subseteq># m
   | _ \<Rightarrow> True)"

lemma throws_ok_simps [simp]:
  "throws_ok env m (Returns x s)"
  "throws_ok env m (Faults e)"
  "throws_ok env m (Throws e s) \<longleftrightarrow> e = BadAlloc \<and> store_ok env (tab (fst s)) \<and> contents (tab (fst s)) \<subseteq># m"
  by (simp_all add: throws_ok_def)

lemma throws_ok_bind:
  assumes "throws_ok env m r" and "\<And>x s. r = Returns x s \<Longrightarrow> throws_ok env m (f x s)"
  shows "throws_ok env m (bindO r f)"
  using assms by (cases r) simp_all

lemma throws_ok_mono: "throws_ok env m r \<Longrightarrow> m \<subseteq># m' \<Longrightarrow> throws_ok env m' r"
  by (auto simp: throws_ok_def split: outcome.splits)

text \<open>An emplacement inside of a growing table, with what it returns and what it leaves.\<close>

definition emplacer_throws :: "('k, 't) hash_env \<Rightarrow> nat \<Rightarrow> 't emplacer_held \<Rightarrow> bool" where
  "emplacer_throws env n emp \<longleftrightarrow> (\<forall>x s. held_ok s \<longrightarrow> table_ok env (tab (fst s)) \<longrightarrow>
     2 ^ 48 < capacity (tab (fst s)) * 2 ^ n \<longrightarrow> throws_ok env (contents (tab (fst s))) (emp x s))"

lemma emplacer_returns:
  assumes "emplacer_tracks emp_h emp" and "emplacer_ok env n emp" and "held_ok s" and "table_ok env (tab (fst s))"
    and "2 ^ 48 < capacity (tab (fst s)) * 2 ^ n" and "emp_h x s = Returns y s'"
  shows "held_ok s'" and "inserts env x (tab (fst s)) (fst y) (snd y) (tab (fst s'))"
proof -
  have t: "tracks s (emp_h x s) (emp x (tab (fst s)))" by (rule emplacer_tracksD [OF assms(1,3)])
  then show "held_ok s'" using assms(6) by (auto intro: same_rest_ok)
  from t show "inserts env x (tab (fst s)) (fst y) (snd y) (tab (fst s'))"
    using emplacer_okE [OF assms(2,4,5), of x] assms(6) by (cases y) auto
qed

lemma reinsert_throws:
  assumes "emplacer_tracks emp_h emp" and "emplacer_ok env n emp" and "emplacer_throws env n emp_h"
    and "held_ok s" and "table_ok env (tab (fst s))" and "2 ^ 48 < capacity (tab (fst s)) * 2 ^ n"
    and "\<And>c. c \<in> set cs \<Longrightarrow> has_value c \<longleftrightarrow> entry_value c \<noteq> None"
    and "distinct (map (key_of env) (stored (tab (fst s)) @ values_of cs))"
  shows "throws_ok env (contents (tab (fst s)) + contents_of cs) (reinsert_held emp_h cs s)"
  using assms(4-)
proof (induction cs arbitrary: s)
  case Nil
  then show ?case by simp
next
  case (Cons c cs)
  show ?case
  proof (cases "entry_value c")
    case None
    then show ?thesis using Cons by simp
  next
    case (Some v)
    let ?t = "tab (fst s)"
    have fresh: "key_of env v \<notin> set (map (key_of env) (stored ?t))" using Cons.prems(5) Some by auto
    have step: "reinsert_held emp_h (c # cs) s = bindO (emp_h v s) (\<lambda>_. reinsert_held emp_h cs)"
      using Cons.prems(4) [of c] Some by (simp add: the_value_def)
    show ?thesis
      unfolding step
    proof (rule throws_ok_bind)
      have "throws_ok env (contents ?t) (emp_h v s)"
        using assms(3) Cons.prems(1-3) unfolding emplacer_throws_def by blast
      then show "throws_ok env (contents ?t + contents_of (c # cs)) (emp_h v s)"
        by (rule throws_ok_mono) simp
    next
      fix y s1 assume r: "emp_h v s = Returns y s1"
      note ret = emplacer_returns [OF assms(1,2) Cons.prems(1-3) r]
      note i = inserts_fresh [OF ret(2) fresh]
      have "capacity ?t * 2 ^ n \<le> capacity (tab (fst s1)) * 2 ^ n" using i(2) by simp
      then have fuel: "2 ^ 48 < capacity (tab (fst s1)) * 2 ^ n" using Cons.prems(3) by linarith
      have "mset (map (key_of env) (stored (tab (fst s1)) @ values_of cs))
          = mset (map (key_of env) (stored ?t @ values_of (c # cs)))"
        using i(3) Some by simp
      then have "distinct (map (key_of env) (stored (tab (fst s1)) @ values_of cs))"
        using Cons.prems(5) mset_eq_imp_distinct_iff by blast
      then have "throws_ok env (contents (tab (fst s1)) + contents_of cs) (reinsert_held emp_h cs s1)"
        using Cons.prems(4) ret(1) i(1) fuel by (intro Cons.IH) simp_all
      then show "throws_ok env (contents ?t + contents_of (c # cs)) (reinsert_held emp_h cs s1)"
        using i(3) Some by simp
    qed
  qed
qed

lemma throws_ok_lift:
  assumes "store_ok env (tab (fst s))" and "contents (tab (fst s)) \<subseteq># m" and "r \<noteq> Inl OutOfRange"
    and "\<And>x. r = Inr x \<Longrightarrow> throws_ok env m (f x s)"
  shows "throws_ok env m (bindO (liftO r s) f)"
  using assms by (cases r) (auto simp: liftO_def is_exception_def)

lemma deallocate_no_exception: "deallocate_data a b n m h \<noteq> Inl BadAlloc" "deallocate_data a b n m h \<noteq> Inl OutOfRange"
  by (simp_all add: deallocate_data_def heap_deallocate_def split: option.split)

lemma throws_ok_deallocate: "(\<And>h. throws_ok env m (f h s)) \<Longrightarrow>
    throws_ok env m (bindO (liftO (deallocate_data a b n k h) s) f)"
  using deallocate_no_exception [of a b n k h]
  by (cases "deallocate_data a b n k h") (auto simp: liftO_def is_exception_def)

lemma rehash_throws:
  assumes emp: "emplacer_tracks emp_h emp" "emplacer_ok env n emp" "emplacer_throws env n emp_h"
    and held: "held_ok s" and store: "store_ok env (tab (fst s))" and alloc: "alloc_ok env"
    and nb: "nb \<le> 2 ^ 63" and fuel: "2 ^ 48 < max 2 (unat nb) * 2 ^ n"
  shows "throws_ok env (contents (tab (fst s))) (rehash_held_with emp_h env nb s)"
proof -
  obtain ct h where s: "s = (ct, h)" by (cases s)
  let ?t = "tab ct"
  have store: "store_ok env ?t" using store s by simp
  obtain k where k: "size_of_ceil (ddiv (double_of_u64 (num_elements ?t)) (max_load_factor ?t)) = Inr k"
      "k \<le> 2 ^ 62" "k = 0 \<longrightarrow> stored ?t = []"
    by (rule needed_bounded [OF store])
  obtain sz c where sz: "next_size_over (hash_policy ?t) (max nb k) = (sz, c)" by fastforce
  consider "max nb k = 0" | "max nb k \<noteq> 0" "sz = bucket_count ?t" | "max nb k \<noteq> 0" "sz \<noteq> bucket_count ?t" by blast
  then show ?thesis
  proof cases
    case 1
    then show ?thesis using k(1) s by (simp add: rehash_held_with_def reset_held_def throws_ok_deallocate Let_def)
  next
    case 2
    then show ?thesis using k(1) sz s by (simp add: rehash_held_with_def Let_def)
  next
    case 3
    let ?m = "compute_max_lookups sz"
    let ?n = "sz + of_int ?m"
    have n: "max nb k \<le> 2 ^ 63" "0 < max nb k" using nb k(2) 3(1) by (auto simp: max_def word_neq_0_conv elim: order_trans)
    obtain b h1 where b: "heap_allocate (allocator ct) ?n h = (b, h1)" by fastforce
    define t0 where "t0 bs = ?t\<lparr>entries := bs, num_slots_minus_one := sz - 1, hash_policy := commit c (hash_policy ?t),
            max_lookups := ?m, num_elements := 0\<rparr>" for bs
    have step: "rehash_held_with emp_h env nb s =
       bindO (liftO (new_buckets env ?n) s) (\<lambda>bs _.
         bindO (reinsert_held emp_h (take (length (entries ?t) - 1) (entries ?t)) (ct\<lparr>tab := t0 bs, block := Some b\<rparr>, h1))
           (\<lambda>_ (c', h). bindO (liftO (deallocate_data (allocator c') (block ct) (num_slots_minus_one ?t) (max_lookups ?t) h) (c', h))
             (\<lambda>h _. Returns () (c', h))))"
      using k(1) sz s 3 b old_entries(1) [OF store] by (simp add: rehash_held_with_def Let_def t0_def)
    show ?thesis
      unfolding step
    proof (rule throws_ok_lift)
      show "new_buckets env ?n \<noteq> Inl OutOfRange" by (simp add: new_buckets_def)
      fix bs assume bs: "new_buckets env ?n = Inr bs"
      have t0: "table_ok env (t0 bs)" "stored (t0 bs) = []" "unat (max nb k) \<le> capacity (t0 bs)"
        using allocated [OF alloc store_okD(8) [OF store] n(2,1) sz bs t0_def] by simp_all
      have "unat nb \<le> capacity (t0 bs)" using t0(3) by (auto simp: max_def word_le_nat_alt split: if_splits)
      then have "max 2 (unat nb) \<le> capacity (t0 bs)" using capacity_bound(1) [OF table_okD(1) [OF t0(1)]] by simp
      then have "max 2 (unat nb) * 2 ^ n \<le> capacity (t0 bs) * 2 ^ n" by simp
      then have "2 ^ 48 < capacity (t0 bs) * 2 ^ n" using fuel by linarith
      moreover have "held_ok (ct\<lparr>tab := t0 bs, block := Some b\<rparr>, h1)"
        by (rule allocate_owned [OF held [unfolded s] b]) (simp_all add: t0_def)
      ultimately have "throws_ok env (contents (t0 bs) + mset (stored ?t))
          (reinsert_held emp_h (take (length (entries ?t) - 1) (entries ?t)) (ct\<lparr>tab := t0 bs, block := Some b\<rparr>, h1))"
        using reinsert_throws [OF emp, of "(ct\<lparr>tab := t0 bs, block := Some b\<rparr>, h1)" "take (length (entries ?t) - 1) (entries ?t)"]
          old_entries(2,3) [OF store] store_okD(6) [OF store] t0(1,2) by simp
      then show "throws_ok env (contents (tab (fst s)))
         (bindO (reinsert_held emp_h (take (length (entries ?t) - 1) (entries ?t)) (ct\<lparr>tab := t0 bs, block := Some b\<rparr>, h1))
           (\<lambda>_ (c', h). bindO (liftO (deallocate_data (allocator c') (block ct) (num_slots_minus_one ?t) (max_lookups ?t) h) (c', h))
             (\<lambda>h _. Returns () (c', h))))"
        using t0(2) s by (intro throws_ok_bind) (auto intro: throws_ok_deallocate split: prod.split)
    qed (use store s in simp_all)
  qed
qed

lemma grow_throws:
  assumes "emplacer_tracks emp_h emp" "emplacer_ok env n emp" "emplacer_throws env n emp_h"
    and "held_ok s" and store: "store_ok env (tab (fst s))" and "alloc_ok env"
    and fuel: "2 ^ 48 < capacity (tab (fst s)) * 2 ^ Suc n"
  shows "throws_ok env (contents (tab (fst s))) (grow_held_with emp_h env s)"
    and "grow_held_with emp_h env s = Returns u s' \<Longrightarrow> held_ok s' \<and> table_ok env (tab (fst s'))
       \<and> contents (tab (fst s')) = contents (tab (fst s)) \<and> 2 ^ 48 < capacity (tab (fst s')) * 2 ^ n"
proof -
  let ?t = "tab (fst s)" and ?n = "max 4 (2 * bucket_count (tab (fst s)))"
  note cap = capacity_bound [OF store] and bc = bucket_count_capacity [OF store]
  have "unat (bucket_count ?t) \<le> 2 ^ 47" using cap(2) bc by simp
  then have "unat (2 * bucket_count ?t) = 2 * unat (bucket_count ?t)" by (simp add: unat_word_ariths)
  then have n: "unat ?n = 2 * capacity ?t"
    using cap(1) bc by (auto simp: max_def word_le_nat_alt capacity_def split: if_splits)
  have "?n \<le> 2 ^ 63" using n cap(2) by (simp add: word_le_nat_alt)
  moreover have "2 ^ 48 < max 2 (unat ?n) * 2 ^ n" using fuel n cap(1) by simp
  ultimately show "throws_ok env (contents ?t) (grow_held_with emp_h env s)"
    unfolding grow_held_with_def by (rule rehash_throws [OF assms(1-6)])
  assume r: "grow_held_with emp_h env s = Returns u s'"
  have "tracks_unit s (grow_held_with emp_h env s) (grow_with emp env ?t)" by (rule grow_tracks [OF assms(1,4)])
  then have g: "grow_with emp env ?t = Inr (tab (fst s'))" "held_ok s'"
    using r by (auto simp: bindE_eq_Inr same_rest_ok)
  then have t': "table_ok env (tab (fst s'))" "contents (tab (fst s')) = contents ?t" "2 * capacity ?t \<le> capacity (tab (fst s'))"
    using grow_correct [OF assms(2) store assms(6) fuel] by auto
  have "2 ^ 48 < 2 * capacity ?t * 2 ^ n" using fuel by simp
  also have "\<dots> \<le> capacity (tab (fst s')) * 2 ^ n" using t'(3) by (rule mult_right_mono) simp
  finally show "held_ok s' \<and> table_ok env (tab (fst s'))
       \<and> contents (tab (fst s')) = contents (tab (fst s)) \<and> 2 ^ 48 < capacity (tab (fst s')) * 2 ^ n"
    using g(2) t' by simp
qed

lemma grow_emplace_throws:
  assumes "emplacer_tracks emp_h emp" "emplacer_ok env n emp" "emplacer_throws env n emp_h"
    and "held_ok s" and "store_ok env (tab (fst s))" and "alloc_ok env"
    and "2 ^ 48 < capacity (tab (fst s)) * 2 ^ Suc n"
  shows "throws_ok env (contents (tab (fst s))) (bindO (grow_held_with emp_h env s) (\<lambda>_. emp_h x))"
proof (rule throws_ok_bind)
  show "throws_ok env (contents (tab (fst s))) (grow_held_with emp_h env s)" by (rule grow_throws [OF assms])
  fix u s' assume "grow_held_with emp_h env s = Returns u s'"
  from grow_throws(2) [OF assms this] show "throws_ok env (contents (tab (fst s))) (emp_h x s')"
    using assms(3) unfolding emplacer_throws_def by metis
qed

lemma emplace_new_key_throws:
  assumes emp: "emplacer_tracks emp_h emp" "emplacer_ok env n emp" "emplacer_throws env n emp_h"
    and held: "held_ok s" and table: "table_ok env (tab (fst s))" and alloc: "alloc_ok env"
    and fuel: "2 ^ 48 < capacity (tab (fst s)) * 2 ^ Suc n"
    and at: "num_slots_minus_one (tab (fst s)) \<noteq> 0 \<Longrightarrow> insertion_point env x (tab (fst s)) p d"
  shows "throws_ok env (contents (tab (fst s))) (emplace_new_key_held emp_h env d p x s)"
proof -
  obtain ct h where s: "s = (ct, h)" by (cases s)
  let ?t = "tab ct"
  have table: "table_ok env ?t" using table s by simp
  note store = table_okD(1) [OF table]
  show ?thesis
  proof (cases "num_slots_minus_one ?t = 0 \<or> d = max_lookups ?t \<or> load_exceeded ?t")
    case True
    then have "emplace_new_key_held emp_h env d p x s = bindO (grow_held_with emp_h env s) (\<lambda>_. emp_h x)"
      by (simp add: emplace_new_key_held_def s)
    then show ?thesis using grow_emplace_throws [OF emp held _ alloc fuel] store s by simp
  next
    case False
    have nz: "num_slots_minus_one ?t \<noteq> 0" and dm: "d \<noteq> max_lookups ?t" using False by auto
    have at: "insertion_point env x ?t p d" using at nz s by simp
    have p: "p < length (entries ?t)" using insertion_place(1) [OF table nz dm at] by simp
    let ?c = "(entries ?t ! p)\<lparr>distance_from_desired := d, entry_value := Some x\<rparr>"
    show ?thesis
    proof (cases "is_empty_entry (entries ?t ! p)")
      case True
      then show ?thesis using False p s by (simp add: emplace_new_key_held_def entry_at_def Let_def)
    next
      case occupied: False
      obtain v cs' y where r: "val (entries ?t) p = Some v"
         "displace (max_lookups ?t) ((entries ?t)[p := ?c]) (p + 1) v (dst (entries ?t) p + 1) = Inr (cs', y)"
         "robin (home env ?t) (max_lookups ?t) cs'" "length cs' = length (entries ?t)"
         "contents_of cs' + opt_mset y = add_mset x (contents ?t)" "cs' ! p = ?c"
         "\<forall>z. y = Some z \<longrightarrow> contents_of (cs'[p := ?c\<lparr>entry_value := Some z\<rparr>]) = contents ?t
           \<and> store_ok env (?t\<lparr>entries := cs'[p := ?c\<lparr>entry_value := Some z\<rparr>]\<rparr>)"
        by (rule displacement [OF table nz dm at occupied refl])
      show ?thesis
      proof (cases y)
        case None
        then show ?thesis
          using False occupied p r(1,2) s by (simp add: emplace_new_key_held_def entry_at_def the_value_def Let_def)
      next
        case (Some z)
        let ?s = "(ct\<lparr>tab := ?t\<lparr>entries := cs'[p := ?c\<lparr>entry_value := Some z\<rparr>]\<rparr>\<rparr>, h)"
        have "emplace_new_key_held emp_h env d p x s = bindO (grow_held_with emp_h env ?s) (\<lambda>_. emp_h x)"
          using False occupied p r(1,2,4,6) Some s by (simp add: emplace_new_key_held_def entry_at_def the_value_def Let_def)
        moreover have "held_ok ?s"
          using held s nz by (auto simp: held_ok_def owns_def split: option.splits)
        moreover have "capacity (?t\<lparr>entries := cs\<rparr>) = capacity ?t" for cs by (simp add: capacity_def)
        ultimately show ?thesis
          using grow_emplace_throws [OF emp, of ?s x] r(7) Some alloc fuel s by simp
      qed
    qed
  qed
qed

lemma emplace_fuel_throws:
  assumes "alloc_ok env"
  shows "emplacer_throws env n (emplace_held_fuel env n)"
proof (induction n)
  case 0
  show ?case by (simp add: emplacer_throws_def)
next
  case (Suc n)
  note emp = emplace_fuel_tracks [of env n] emplace_fuel_correct [OF assms, of n] Suc
  show ?case
    unfolding emplacer_throws_def
  proof (intro allI impI)
    fix x and s :: "'b held"
    assume held: "held_ok s" and table: "table_ok env (tab (fst s))"
      and fuel: "2 ^ 48 < capacity (tab (fst s)) * 2 ^ Suc n"
    obtain ct h where s: "s = (ct, h)" by (cases s)
    let ?k = "key_of env x" and ?t = "tab ct"
    have "table_ok env ?t" using table s by simp
    then obtain p d f where r: "probe (key_of env) ?k (entries ?t) (unat (bucket env ?k ?t)) 0 = Inr (p, d, f)"
      and at: "\<not> f \<and> num_slots_minus_one ?t \<noteq> 0 \<longrightarrow> insertion_point env x ?t p d"
      by (rule probe_point)
    show "throws_ok env (contents (tab (fst s))) (emplace_held_fuel env (Suc n) x s)"
    proof (cases f)
      case True
      then show ?thesis using r s by (simp add: emplace_step_held_def)
    next
      case False
      then have "emplace_held_fuel env (Suc n) x s = emplace_new_key_held (emplace_held_fuel env n) env d p x s"
        using r s by (simp add: emplace_step_held_def)
      then show ?thesis
        using emplace_new_key_throws [OF emp held table assms fuel, of x p d] at False s by simp
    qed
  qed
qed

section \<open>The operations of a table\<close>

lemma emplace_throws:
  assumes "alloc_ok env" and "held_ok s" and "table_ok env (tab (fst s))"
  shows "throws_ok env (contents (tab (fst s))) (emplace_held env x s)"
  using emplace_fuel_throws [OF assms(1), of recursion_bound] assms(2,3) fuel_enough [OF assms(3)]
  unfolding emplacer_throws_def emplace_held_def by blast

text \<open>What a call that returns has done, from the operation of \<open>HashTable\<close>.\<close>

lemma emplace_held_returns:
  assumes "alloc_ok env" and "held_ok s" and "table_ok env (tab (fst s))" and "emplace_held env x s = Returns (p, new) s'"
  shows "same_rest s s'" and "inserts env x (tab (fst s)) p new (tab (fst s'))"
  using emplace_tracks [OF assms(2), of env x] emplace_cases [OF assms(3,1), of x] assms(4) by auto

lemma insert_range_throws:
  assumes "alloc_ok env" and "held_ok s" and "table_ok env (tab (fst s))"
  shows "throws_ok env (contents (tab (fst s)) + mset vs) (insert_range_held env vs s)"
  using assms(2,3)
proof (induction vs arbitrary: s)
  case Nil
  then show ?case by simp
next
  case (Cons v vs)
  let ?t = "tab (fst s)"
  show ?case
    unfolding insert_range_held.simps
  proof (rule throws_ok_bind)
    show "throws_ok env (contents ?t + mset (v # vs)) (emplace_held env v s)"
      by (rule throws_ok_mono [OF emplace_throws [OF assms(1) Cons.prems]]) simp
  next
    fix y s1 assume r: "emplace_held env v s = Returns y s1"
    then have i: "same_rest s s1" "inserts env v ?t (fst y) (snd y) (tab (fst s1))"
      using emplace_held_returns [OF assms(1) Cons.prems, of v "fst y" "snd y" s1] by simp_all
    then have "contents (tab (fst s1)) \<subseteq># add_mset v (contents ?t)" by (auto simp: inserts_def split: if_splits)
    then have "contents (tab (fst s1)) + mset vs \<subseteq># contents ?t + mset (v # vs)" by (simp add: subset_mset.add_right_mono)
    moreover have "throws_ok env (contents (tab (fst s1)) + mset vs) (insert_range_held env vs s1)"
      using i by (intro Cons.IH) (simp_all add: same_rest_ok inserts_def)
    ultimately show "throws_ok env (contents ?t + mset (v # vs)) (insert_range_held env vs s1)" by (rule throws_ok_mono [rotated])
  qed
qed

lemma rehash_held_throws:
  assumes "alloc_ok env" and "held_ok s" and "store_ok env (tab (fst s))" and "n \<le> 2 ^ 63"
  shows "throws_ok env (contents (tab (fst s))) (rehash_held env n s)"
  unfolding rehash_held_def emplace_held_def
proof (rule rehash_throws [OF emplace_fuel_tracks emplace_fuel_correct [OF assms(1)] emplace_fuel_throws [OF assms(1)]
      assms(2,3,1,4)])
  have "(2 :: nat) * 2 ^ 64 \<le> max 2 (unat n) * 2 ^ 64" by (intro mult_right_mono) simp_all
  then show "2 ^ 48 < max 2 (unat n) * 2 ^ recursion_bound" by (simp add: recursion_bound_def)
qed

lemma reserve_throws:
  assumes "alloc_ok env" and "held_ok s" and "store_ok env (tab (fst s))" and "unat n \<le> 2 ^ 50"
  shows "throws_ok env (contents (tab (fst s))) (reserve_held env n s)"
proof -
  obtain k where k: "num_buckets_for_reserve (tab (fst s)) n = Inr k" "k \<le> 2 ^ 62"
    by (rule reserve_bounded [OF store_okD(8) [OF assms(3)] assms(4)])
  show ?thesis using k(1) rehash_held_throws [OF assms(1-3) below_63 [OF k(2)]] by (simp add: reserve_held_def)
qed

lemma rehash_for_other_throws:
  assumes "alloc_ok env" and "held_ok s" and "store_ok env (tab (fst s))" and "store_ok env other"
  shows "throws_ok env (contents (tab (fst s))) (rehash_for_other_held env other s)"
proof -
  have "unat (num_elements other) \<le> 2 ^ 50" using num_elements_bound [OF assms(4)] by simp
  then obtain k where k: "num_buckets_for_reserve (tab (fst s)) (num_elements other) = Inr k" "k \<le> 2 ^ 62"
    by (rule reserve_bounded [OF store_okD(8) [OF assms(3)]])
  have "min k (bucket_count other) \<le> 2 ^ 63" using below_63 [OF k(2)] by (rule order_trans [rotated]) simp
  from rehash_held_throws [OF assms(1-3) this] k(1) show ?thesis by (simp add: rehash_for_other_held_def)
qed

lemma throws_ok_on_table:
  assumes "store_ok env (tab (fst s))" and "f (tab (fst s)) \<noteq> Inl BadAlloc" and "f (tab (fst s)) \<noteq> Inl OutOfRange"
  shows "throws_ok env m (on_table f s)"
  using assms by (cases s; cases "f (tab (fst s))") (auto simp: on_table_def liftO_def is_exception_def)

lemma clear_held_returns:
  assumes "held_ok s" and "store_ok env (tab (fst s))"
  obtains s' where "clear_held s = Returns () s'" and "same_rest s s'" and "table_ok env (tab (fst s'))"
    and "contents (tab (fst s')) = {#}" and "max_load_factor (tab (fst s')) = max_load_factor (tab (fst s))"
proof -
  obtain t where t: "clear (tab (fst s)) = Inr t" "table_ok env t" "contents t = {#}"
      "max_load_factor t = max_load_factor (tab (fst s))"
    using clear_store [OF assms(2)] by blast
  obtain s' where "clear_held s = Returns () s'" "tab (fst s') = t"
    using t(1) by (cases s) (auto simp: clear_held_def on_table_def)
  moreover from this have "same_rest s s'" using clear_tracks [OF assms(1)] by simp
  ultimately show thesis using that t(2-4) by blast
qed

lemma hash_step_throws:
  assumes "map_env env" and "held_ok s" and "table_ok env (tab (fst s))" and "call_ok c"
  shows "throws_ok env (contents (tab (fst s))) (hash_step_held env dflt c s)"
proof -
  let ?t = "tab (fst s)"
  note alloc = map_envD(1) [OF assms(1)] and store = table_okD(1) [OF assms(3)]
  have emplace: "throws_ok env (contents ?t) (bindO (emplace_held env x s) (\<lambda>_. Returns ()))" for x
    by (rule throws_ok_bind [OF emplace_throws [OF alloc assms(2,3)]]) simp
  show ?thesis
  proof (cases c)
    case (CallEmplace k v)
    then show ?thesis using emplace by simp
  next
    case (CallSubscript k)
    then show ?thesis using emplace by simp
  next
    case (CallAssign k v)
    have "throws_ok env (contents ?t) (insert_or_assign_held env k v s)"
      unfolding insert_or_assign_held_def
    proof (rule throws_ok_bind [OF emplace_throws [OF alloc assms(2,3)]])
      fix y s1 assume r: "emplace_held env (k, v) s = Returns y s1"
      obtain p new where y: "y = (p, new)" by (cases y)
      have i: "inserts env (k, v) ?t p new (tab (fst s1))"
        using emplace_held_returns [OF alloc assms(2,3)] r y by blast
      then obtain w where w: "table_ok env (tab (fst s1))" "p < length (entries (tab (fst s1))) - 1"
          "val (entries (tab (fst s1))) p = Some (k, w)"
        using assms(1) by (auto simp: inserts_def)
      obtain t' where "assign_at p v (tab (fst s1)) = Inr t'" using assign_correct [OF assms(1) w] by blast
      then have "throws_ok env (contents ?t) (on_table (\<lambda>t. bindE (assign_at p v t) (\<lambda>t. Inr ((), t))) s1)"
        by (intro throws_ok_on_table table_okD [OF w(1)]) simp_all
      then show "throws_ok env (contents ?t) ((\<lambda>(p, new) s. if new then Returns (p, new) s
          else bindO (on_table (\<lambda>t. bindE (assign_at p v t) (\<lambda>t. Inr ((), t))) s) (\<lambda>_. Returns (p, new))) y s1)"
        by (auto simp: y intro: throws_ok_bind)
    qed
    then show ?thesis unfolding CallAssign hash_step_held.simps by (rule throws_ok_bind) simp
  next
    case (CallErase k)
    obtain n t' where "erase_key env k ?t = Inr (n, t')" using erase_key_correct [OF assms(3)] by blast
    then have "throws_ok env (contents ?t) (on_table (erase_key env k) s)"
      by (intro throws_ok_on_table store) simp_all
    then show ?thesis unfolding CallErase hash_step_held.simps by (rule throws_ok_bind) simp
  next
    case CallClear
    obtain s' where "clear_held s = Returns () s'" by (rule clear_held_returns [OF assms(2) store])
    then show ?thesis by (simp add: CallClear)
  next
    case (CallRehash n)
    then show ?thesis using rehash_held_throws [OF alloc assms(2) store] assms(4) by simp
  next
    case (CallReserve n)
    then show ?thesis using reserve_throws [OF alloc assms(2) store] assms(4) by simp
  next
    case CallShrink
    then show ?thesis using rehash_for_other_throws [OF alloc assms(2) store store] by simp
  next
    case (CallMaxLoad f)
    then show ?thesis by (simp add: throws_ok_on_table store)
  qed
qed

text \<open>A call on a table in order: it returns as in \<open>HashTable\<close>, or throws \<^verbatim>\<open>std::bad_alloc\<close>.\<close>

lemma hash_step_held_cases:
  assumes "map_env env" and "held_ok s" and "table_ok env (tab (fst s))" and "call_ok c"
  obtains s' where "hash_step_held env dflt c s = Returns () s'" and "same_rest s s'" and "table_ok env (tab (fst s'))"
    and "hash_step env dflt c (tab (fst s)) = Inr (tab (fst s'))"
    and "assoc (tab (fst s')) = hash_spec dflt c (assoc (tab (fst s)))"
  | s' where "hash_step_held env dflt c s = Throws BadAlloc s'" and "may_leak s s'" and "store_ok env (tab (fst s'))"
    and "contents (tab (fst s')) \<subseteq># contents (tab (fst s))"
proof -
  let ?t = "tab (fst s)"
  have t: "tracks_unit s (hash_step_held env dflt c s) (hash_step env dflt c ?t)" by (rule hash_step_tracks [OF assms(2)])
  note v = hash_step_cases [OF assms(1,3,4), of dflt]
  show thesis
  proof (cases "hash_step_held env dflt c s")
    case (Returns u s')
    then show ?thesis using t v that(1) [of s'] by (auto simp: bindE_eq_Inr)
  next
    case (Throws e s')
    then show ?thesis using t hash_step_throws [OF assms, of dflt] that(2) [of s'] by (auto simp: tracks_def)
  next
    case (Faults e)
    then show ?thesis using t v by (auto simp: is_exception_def)
  qed
qed

end
