(* ===== verification/HashBuild.thy ===== *)
theory HashBuild
  imports HashThrows
begin

text \<open>
  Constructors, the destructor, assignments, moves and swaps with their memory: what each leaves
  on the heap, also when it throws.
\<close>

section \<open>Destruction\<close>

lemma destroy_returns:
  assumes "held_ok (c, h)" and "store_ok env (tab c)"
  obtains h' where "destroy_held (c, h) = Returns () h'" and "live h' = rest c h" and "heap_ok h'"
proof -
  obtain s' where s': "clear_held (c, h) = Returns () s'" "same_rest (c, h) s'"
    using clear_held_returns [OF assms(1)] assms(2) by (metis fst_conv)
  obtain c1 h1 where p: "s' = (c1, h1)" by (cases s')
  have "held_ok (c1, h1)" using s'(2) p by (simp add: same_rest_def)
  then obtain h' where "deallocate_data (allocator c1) (block c1) (num_slots_minus_one (tab c1)) (max_lookups (tab c1)) h1 = Inr h'"
      "live h' = rest c1 h1" "heap_ok h'"
    using deallocate_owned by blast
  moreover have "rest c1 h1 = rest c h" using s'(2) p by (simp add: same_rest_def)
  ultimately show thesis using s'(1) p by (intro that [of h']) (simp_all add: destroy_held_def)
qed

section \<open>Construction\<close>

text \<open>
  A constructor that returns has added one block, that of its table, or none; one that throws may
  leave blocks behind.
\<close>

definition builds :: "nat \<Rightarrow> heap \<Rightarrow> ('t container, heap) outcome \<Rightarrow> 't table result \<Rightarrow> bool" where
  "builds a h r v = (case r of
     Returns c h' \<Rightarrow> v = Inr (tab c) \<and> allocator c = a \<and> held_ok (c, h') \<and> rest c h' = live h
   | Throws e h' \<Rightarrow> v = Inl BadAlloc \<and> e = BadAlloc \<and> heap_ok h' \<and> live h \<subseteq>\<^sub>m live h'
   | Faults e \<Rightarrow> False)"

lemma rest_sub: "rest c h \<subseteq>\<^sub>m live h"
  by (auto simp: rest_def map_le_def split: option.split)

lemma builds_bind:
  assumes "builds a h r v"
    and "\<And>c h1. r = Returns c h1 \<Longrightarrow> v = Inr (tab c) \<Longrightarrow> held_ok (c, h1) \<Longrightarrow> rest c h1 = live h \<Longrightarrow> allocator c = a \<Longrightarrow>
       builds a h (f c h1) (g (tab c))"
  shows "builds a h (bindO r f) (bindE v g)"
  using assms by (cases r) (simp_all add: builds_def)

lemma constructed_builds:
  assumes "tracks_unit (c, h0) r v" and "throws_ok env m r" and "v = Inl BadAlloc \<or> (\<exists>t. v = Inr t)"
    and "rest c h0 = live h" and "allocator c = a"
  shows "builds a h (constructed r) v"
proof (cases r)
  case (Returns u s)
  then show ?thesis
    using assms by (cases s) (auto simp: constructed_def builds_def same_rest_def bindE_eq_Inr)
next
  case (Throws e s)
  then have "may_leak (c, h0) s" "e = BadAlloc" "v = Inl BadAlloc" using assms(1,2,3) by (auto simp: tracks_def)
  then show ?thesis
    using Throws assms(4) rest_sub [of "fst s" "snd s"]
    by (cases s) (auto simp: constructed_def builds_def may_leak_def held_ok_def intro: map_le_trans)
next
  case (Faults e)
  then show ?thesis using assms(1,3) by (auto simp: is_exception_def)
qed

lemma or_destroy_builds:
  assumes "tracks_unit (c, h0) r v" and "throws_ok env m r" and "v = Inl BadAlloc \<or> (\<exists>t. v = Inr t)"
    and "rest c h0 = live h" and "allocator c = a"
  shows "builds a h (or_destroy r) v"
proof (cases r)
  case (Returns u s)
  then show ?thesis
    using assms by (cases s) (auto simp: or_destroy_def builds_def same_rest_def bindE_eq_Inr)
next
  case (Throws e s)
  obtain c1 h1 where s: "s = (c1, h1)" by (cases s)
  have t: "may_leak (c, h0) (c1, h1)" "e = BadAlloc" "v = Inl BadAlloc" "store_ok env (tab c1)"
    using assms(1-3) Throws s by (auto simp: tracks_def)
  then have ok: "held_ok (c1, h1)" by (simp add: may_leak_def)
  obtain h' where "destroy_held (c1, h1) = Returns () h'" "live h' = rest c1 h1" "heap_ok h'"
    by (rule destroy_returns [OF ok t(4)])
  then show ?thesis using Throws s t assms(4) by (simp add: or_destroy_def builds_def may_leak_def)
next
  case (Faults e)
  then show ?thesis using assms(1,3) by (auto simp: is_exception_def)
qed

lemma blank_held:
  assumes "heap_ok h" and "c = (blank_container a p)\<lparr>tab := (new_table p)\<lparr>max_load_factor := f\<rparr>\<rparr>"
  shows "held_ok (c, h)" and "rest c h = live h" and "allocator c = a"
  using assms by (simp_all add: blank_container_def held_ok_def owns_def new_table_def min_lookups_def rest_def)

lemma blank_plain: "blank_container a p = (blank_container a p)\<lparr>tab := (new_table p)\<lparr>max_load_factor := Fin (1 / 2)\<rparr>\<rparr>"
  by (simp add: blank_container_def new_table_def)

lemma blank_table: "table_ok env (new_table p :: 't table)" "contents (new_table p :: 't table) = {#}"
proof -
  have "(new_table p :: 't table) = (new_table p)\<lparr>max_load_factor := Fin (1 / 2)\<rparr>" by (simp add: new_table_def)
  then show "table_ok env (new_table p :: 't table)" "contents (new_table p :: 't table) = {#}"
    by (rule new_table_ok [rotated], simp add: load_ok_def)+
qed

lemma construct_sized_builds:
  fixes env :: "('k, 't) hash_env"
  assumes "alloc_ok env" and "heap_ok h" and "n \<le> 2 ^ 63"
  shows "builds a h (construct_sized_held env a p n h) (construct_sized env p n)"
proof -
  note blank = blank_held [OF assms(2) blank_plain, of a p]
  have tab: "tab (blank_container a p :: 't container) = new_table p" by (simp add: blank_container_def)
  have "tracks_unit (blank_container a p, h) (rehash_held env n (blank_container a p, h)) (rehash env n (new_table p))"
    using rehash_held_tracks [OF blank(1), of env n] tab by simp
  moreover have "throws_ok env {#} (rehash_held env n (blank_container a p, h))"
    using rehash_held_throws [OF assms(1) blank(1) _ assms(3)] tab
    by (simp add: blank_table(2) [simplified] table_okD(1) [OF blank_table(1)])
  moreover have "rehash env n (new_table p) = Inl BadAlloc \<or> (\<exists>t. rehash env n (new_table p) = Inr t)"
    by (rule rehash_cases [OF blank_table(1) assms(1,3)]) auto
  ultimately show ?thesis
    unfolding construct_sized_held_def construct_sized_def by (rule constructed_builds) (rule blank)+
qed

lemma sized_table:
  assumes "alloc_ok env" and "n \<le> 2 ^ 63" and "construct_sized env p n = Inr t"
  shows "table_ok env t" and "contents t = {#}"
  using rehash_cases [OF blank_table(1) assms(1,2)] assms(3) blank_table(2) unfolding construct_sized_def
  by (metis sum.distinct(1) sum.inject(2))+

text \<open>A range is inserted, with repeated keys.\<close>

lemma insert_range_cases:
  assumes "alloc_ok env" and "table_ok env t"
  shows "insert_range env vs t = Inl BadAlloc \<or> (\<exists>t'. insert_range env vs t = Inr t' \<and> table_ok env t')"
  using assms(2)
proof (induction vs arbitrary: t)
  case Nil
  then show ?case by simp
next
  case (Cons v vs)
  show ?case
    by (cases rule: emplace_cases [OF Cons.prems assms(1), of v]) (use Cons.IH in \<open>auto simp: inserts_def\<close>)
qed

lemma construct_range_builds:
  assumes "alloc_ok env" and "heap_ok h" and "n \<le> 2 ^ 63"
  shows "builds a h (construct_range_held env a p vs n h) (construct_range env p vs n)"
  unfolding construct_range_held_def construct_range_def
proof (rule builds_bind [OF construct_sized_builds [OF assms]])
  fix c h1 assume r: "construct_sized env p n = Inr (tab c)" "held_ok (c, h1)" "rest c h1 = live h" "allocator c = a"
  have t: "table_ok env (tab (fst (c, h1)))" using sized_table(1) [OF assms(1,3) r(1)] by simp
  show "builds a h (or_destroy (insert_range_held env vs (c, h1))) (insert_range env vs (tab c))"
    using insert_range_tracks [OF r(2), of env vs] insert_range_throws [OF assms(1) r(2) t, of vs]
      insert_range_cases [OF assms(1) t, of vs] r(3,4)
    by (intro or_destroy_builds) auto
qed

lemma construct_list_builds:
  assumes "alloc_ok env" and "heap_ok h" and "n \<le> 2 ^ 63" and "length il \<le> 2 ^ 63"
  shows "builds a h (construct_list_held env a p il n h) (construct_list env p il n)"
  unfolding construct_list_held_def construct_list_def
proof (rule builds_bind [OF construct_sized_builds [OF assms(1-3)]])
  fix c h1 assume r: "construct_sized env p n = Inr (tab c)" "held_ok (c, h1)" "rest c h1 = live h" "allocator c = a"
  have t: "table_ok env (tab (fst (c, h1)))" using sized_table(1) [OF assms(1,3) r(1)] by simp
  let ?n = "of_nat (length il) :: u64"
  have small: "?n \<le> 2 ^ 63" using assms(4) by (simp add: word_le_nat_alt unat_of_nat_small)
  let ?r = "if n = 0 then rehash_held env ?n (c, h1) else Returns () (c, h1)"
  let ?v = "if n = 0 then rehash env ?n (tab c) else Inr (tab c)"
  have tr: "tracks_unit (c, h1) ?r ?v"
    using rehash_held_tracks [OF r(2), of env ?n] same_rest_refl [OF r(2)] by simp
  have th: "throws_ok env (contents (tab c)) ?r"
    using rehash_held_throws [OF assms(1) r(2) table_okD(1) [OF t] small] by simp
  have v: "?v = Inl BadAlloc \<or> (\<exists>t1. ?v = Inr t1 \<and> table_ok env t1 \<and> contents t1 = contents (tab c))"
    by (rule rehash_cases [OF t assms(1) small]) (use t in auto)
  have ret: "held_ok s \<and> table_ok env (tab (fst s)) \<and> contents (tab (fst s)) = contents (tab c)" if "?r = Returns u s" for u s
    using tr v that by (auto simp: bindE_eq_Inr same_rest_ok)
  show "builds a h (or_destroy (bindO ?r (\<lambda>_. insert_range_held env il))) (bindE ?v (insert_range env il))"
  proof (rule or_destroy_builds [OF _ _ _ r(3,4)])
    show "tracks_unit (c, h1) (bindO ?r (\<lambda>_. insert_range_held env il)) (bindE ?v (insert_range env il))"
      unfolding bindE_assoc by (rule tracks_bind_unit [OF tr]) (simp add: insert_range_tracks same_rest_ok)
    show "throws_ok env (contents (tab c) + mset il) (bindO ?r (\<lambda>_. insert_range_held env il))"
    proof (rule throws_ok_bind)
      show "throws_ok env (contents (tab c) + mset il) ?r" by (rule throws_ok_mono [OF th]) simp
      fix u s assume "?r = Returns u s"
      from ret [OF this] show "throws_ok env (contents (tab c) + mset il) (insert_range_held env il s)"
        using insert_range_throws [OF assms(1), of s il] by simp
    qed
    show "bindE ?v (insert_range env il) = Inl BadAlloc \<or> (\<exists>t. bindE ?v (insert_range env il) = Inr t)"
    proof (cases "?v = Inl BadAlloc")
      case False
      then obtain t1 where t1: "?v = Inr t1" "table_ok env t1" using v by blast
      from insert_range_cases [OF assms(1) t1(2), of il] show ?thesis unfolding t1(1) bindE.simps by blast
    qed simp
  qed
qed

lemma copy_construct_builds:
  fixes env :: "('k, 't) hash_env"
  assumes "alloc_ok env" and "heap_ok h" and "table_ok env other"
  shows "builds a h (copy_construct_held env a other h) (copy_construct env other)"
proof -
  note store = table_okD(1) [OF assms(3)]
  let ?t = "(new_table (hash_policy other))\<lparr>max_load_factor := max_load_factor other\<rparr> :: 't table"
  define c0 where "c0 = (blank_container a (hash_policy other))\<lparr>tab := ?t\<rparr>"
  note blank = blank_held [OF assms(2) c0_def]
  have new: "table_ok env ?t" "contents ?t = {#}"
    by (rule new_table_ok [OF store_okD(8) [OF store] refl])+
  have tab: "tab c0 = ?t" by (simp add: c0_def)
  let ?r = "rehash_for_other_held env other (c0, h)" and ?v = "rehash_for_other_container env other ?t"
  have tr: "tracks_unit (c0, h) ?r ?v" using rehash_for_other_tracks [OF blank(1), of env other] tab by simp
  have th: "throws_ok env {#} ?r"
    using rehash_for_other_throws [OF assms(1) blank(1) _ store] table_okD(1) [OF new(1)] new(2) tab by simp
  have v: "?v = Inl BadAlloc \<or> (\<exists>t. ?v = Inr t \<and> table_ok env t)"
    by (rule rehash_for_other_cases [OF new(1) assms(1) store]) auto
  then have "?v = Inl BadAlloc \<or> (\<exists>t. ?v = Inr t)" by blast
  from constructed_builds [OF tr th this blank(2,3)]
  have first: "builds a h (constructed ?r) ?v" .
  have "builds a h (bindO (constructed ?r) (\<lambda>c h. or_destroy (bindO (liftO (elements other) (c, h)) (insert_range_held env))))
     (bindE ?v (\<lambda>t. bindE (elements other) (\<lambda>vs. insert_range env vs t)))"
  proof (rule builds_bind [OF first])
    fix c h1 assume r: "?v = Inr (tab c)" "held_ok (c, h1)" "rest c h1 = live h" "allocator c = a"
    have t: "table_ok env (tab (fst (c, h1)))" using v r(1) by auto
    show "builds a h (or_destroy (bindO (liftO (elements other) (c, h1)) (insert_range_held env)))
       (bindE (elements other) (\<lambda>vs. insert_range env vs (tab c)))"
      using insert_range_tracks [OF r(2), of env "stored other"] insert_range_throws [OF assms(1) r(2) t, of "stored other"]
        insert_range_cases [OF assms(1) t, of "stored other"] r(3,4) elements_stored [OF store]
      by (intro or_destroy_builds) auto
  qed
  then show ?thesis by (simp add: copy_construct_held_def copy_construct_def c0_def)
qed

section \<open>Assignments\<close>

lemma refill_cases:
  assumes "alloc_ok env" and "held_ok s" and "table_ok env (tab (fst s))" and "contents (tab (fst s)) = {#}"
    and "table_ok env other"
  obtains s' where "bindO (rehash_for_other_held env other s) (\<lambda>_. insert_range_held env (stored other)) = Returns () s'"
    and "same_rest s s'" and "table_ok env (tab (fst s'))" and "contents (tab (fst s')) = contents other"
  | s' where "bindO (rehash_for_other_held env other s) (\<lambda>_. insert_range_held env (stored other)) = Throws BadAlloc s'"
    and "may_leak s s'" and "store_ok env (tab (fst s'))"
proof -
  note store = table_okD(1) [OF assms(5)]
  let ?t = "tab (fst s)"
  let ?r = "bindO (rehash_for_other_held env other s) (\<lambda>_. insert_range_held env (stored other))"
  let ?v = "bindE (rehash_for_other_container env other ?t) (insert_range env (stored other))"
  have first: "tracks_unit s (rehash_for_other_held env other s) (rehash_for_other_container env other ?t)"
    by (rule rehash_for_other_tracks [OF assms(2)])
  have tr: "tracks_unit s ?r ?v"
    unfolding bindE_assoc by (rule tracks_bind_unit [OF first]) (simp add: insert_range_tracks same_rest_ok)
  have mid: "rehash_for_other_container env other ?t = Inl BadAlloc \<or>
      (\<exists>t1. rehash_for_other_container env other ?t = Inr t1 \<and> table_ok env t1 \<and> contents t1 = {#})"
    by (rule rehash_for_other_cases [OF assms(3,1) store]) (use assms(4) in auto)
  have fresh: "insert_range env (stored other) t1 = Inl BadAlloc \<or>
      (\<exists>t'. insert_range env (stored other) t1 = Inr t' \<and> table_ok env t' \<and> contents t' = contents other)"
    if "table_ok env t1" "contents t1 = {#}" for t1
  proof -
    have "distinct (map (key_of env) (stored t1 @ stored other))" using store_okD(6) [OF store] that(2) by simp
    from insert_range_fresh [OF that(1) assms(1) this] that(2) show ?thesis by auto
  qed
  have v: "?v = Inl BadAlloc \<or> (\<exists>t'. ?v = Inr t' \<and> table_ok env t' \<and> contents t' = contents other)"
    using mid
  proof (elim disjE exE conjE)
    fix t1 assume t1: "rehash_for_other_container env other ?t = Inr t1" "table_ok env t1" "contents t1 = {#}"
    from fresh [OF t1(2,3)] show ?thesis unfolding t1(1) bindE.simps .
  qed simp
  have th: "throws_ok env (contents other) ?r"
  proof (rule throws_ok_bind)
    have "throws_ok env (contents ?t) (rehash_for_other_held env other s)"
      by (rule rehash_for_other_throws [OF assms(1,2) table_okD(1) [OF assms(3)] store])
    then show "throws_ok env (contents other) (rehash_for_other_held env other s)"
      by (rule throws_ok_mono) (simp only: assms(4) subset_mset.zero_le)
    fix u s1 assume r: "rehash_for_other_held env other s = Returns u s1"
    then have s1: "rehash_for_other_container env other ?t = Inr (tab (fst s1))" "held_ok s1"
      using first by (auto simp: bindE_eq_Inr same_rest_ok)
    then have "table_ok env (tab (fst s1))" "contents (tab (fst s1)) = {#}" using mid by auto
    then show "throws_ok env (contents other) (insert_range_held env (stored other) s1)"
      using insert_range_throws [OF assms(1) s1(2), of "stored other"] by simp
  qed
  show thesis
  proof (cases ?r)
    case (Returns u s')
    then show ?thesis using tr v that(1) [of s'] by (auto simp: bindE_eq_Inr)
  next
    case (Throws e s')
    then show ?thesis using tr th that(2) [of s'] by (auto simp: tracks_def)
  next
    case (Faults e)
    then show ?thesis using tr v by (auto simp: is_exception_def)
  qed
qed

lemma with_max_load:
  assumes "held_ok (c, h)" and "table_ok env (tab c)" and "load_ok f"
  shows "held_ok (c\<lparr>tab := (tab c)\<lparr>max_load_factor := f\<rparr>\<rparr>, h)" and "rest (c\<lparr>tab := (tab c)\<lparr>max_load_factor := f\<rparr>\<rparr>) h = rest c h"
    and "table_ok env ((tab c)\<lparr>max_load_factor := f\<rparr>)"
proof -
  have "home env ((tab c)\<lparr>max_load_factor := f\<rparr>) = home env (tab c)" by (simp add: home_def bucket_def fun_eq_iff)
  then show "table_ok env ((tab c)\<lparr>max_load_factor := f\<rparr>)"
    using assms(2,3) by (simp add: table_ok_def store_ok_def index_ok_def)
qed (use assms(1) in \<open>auto simp: held_ok_def owns_def rest_def split: option.splits\<close>)

text \<open>Of an assignment: the state, up to the allocator.\<close>

definition assigned :: "('k, 't) hash_env \<Rightarrow> 't held \<Rightarrow> 't held \<Rightarrow> bool" where
  "assigned env s s' \<longleftrightarrow> held_ok s' \<and> rest (fst s') (snd s') = rest (fst s) (snd s) \<and> table_ok env (tab (fst s'))"

definition damaged :: "('k, 't) hash_env \<Rightarrow> 't held \<Rightarrow> 't held \<Rightarrow> bool" where
  "damaged env s s' \<longleftrightarrow> held_ok s' \<and> rest (fst s) (snd s) \<subseteq>\<^sub>m rest (fst s') (snd s') \<and> store_ok env (tab (fst s'))"

lemma reset_held_returns:
  assumes "held_ok s" and "table_ok env (tab (fst s))" and "contents (tab (fst s)) = {#}"
  obtains s' where "reset_held s = Returns () s'" and "assigned env s s'" and "contents (tab (fst s')) = {#}"
    and "block (fst s') = None" and "allocator (fst s') = allocator (fst s)"
proof -
  have t: "tracks_unit s (reset_held s) (Inr (reset_to_empty_state (tab (fst s))))" by (rule reset_tracks [OF assms(1)])
  then obtain s' where s': "reset_held s = Returns () s'" "same_rest s s'" "tab (fst s') = reset_to_empty_state (tab (fst s))"
    by (cases "reset_held s") (auto simp: tracks_def)
  have "stored (tab (fst s)) = []" using assms(3) by simp
  note reset = reset_ok [OF table_okD(1) [OF assms(2)] this]
  have "block (fst s') = None"
    using s'(1) by (cases s; cases "deallocate_data (allocator (fst s)) (block (fst s)) (num_slots_minus_one (tab (fst s)))
        (max_lookups (tab (fst s))) (snd s)") (auto simp: reset_held_def liftO_def split: if_splits)
  then show thesis
    using s' reset by (intro that [of s']) (simp_all add: assigned_def same_rest_def)
qed

lemma copy_assign_cases:
  assumes "alloc_ok env" and "held_ok s" and "store_ok env (tab (fst s))" and "table_ok env (tab other)"
  obtains s' where "copy_assign_held tr env other s = Returns () s'" and "assigned env s s'"
    and "contents (tab (fst s')) = contents (tab other)"
  | s' where "copy_assign_held tr env other s = Throws BadAlloc s'" and "damaged env s s'"
proof -
  note store = table_okD(1) [OF assms(4)]
  obtain s1 where s1: "clear_held s = Returns () s1" "same_rest s s1" "table_ok env (tab (fst s1))" "contents (tab (fst s1)) = {#}"
    by (rule clear_held_returns [OF assms(2,3)])
  obtain c1 h1 where p1: "s1 = (c1, h1)" by (cases s1)
  let ?change = "if propagate_copy tr
      then bindO (if allocator c1 \<noteq> allocator other then reset_held (c1, h1) else Returns () (c1, h1)) (\<lambda>_ (c, h).
              Returns () (c\<lparr>allocator := AssignIfTrue (propagate_copy tr) (allocator c) (allocator other)\<rparr>, h))
      else Returns () (c1, h1)"
  have "\<exists>c2 h2. ?change = Returns () (c2, h2) \<and> assigned env s1 (c2, h2) \<and> contents (tab c2) = {#}"
  proof (cases "propagate_copy tr \<and> allocator c1 \<noteq> allocator other")
    case True
    obtain c2 h2 where r: "reset_held (c1, h1) = Returns () (c2, h2)" "assigned env (c1, h1) (c2, h2)"
        "contents (tab c2) = {#}" "block c2 = None"
      using reset_held_returns [of "(c1, h1)" env] s1 p1 by (metis fst_conv same_rest_ok surj_pair)
    then show ?thesis
      using True p1 by (auto simp: assigned_def held_ok_def owns_def rest_def AssignIfTrue_def)
  next
    case False
    have "?change = Returns () (c1, h1)"
      using False by (cases "propagate_copy tr") (simp_all add: AssignIfTrue_def)
    then show ?thesis
      using s1 p1 by (simp add: assigned_def same_rest_ok)
  qed
  then obtain c2 h2 where s2: "?change = Returns () (c2, h2)" "assigned env s1 (c2, h2)" "contents (tab c2) = {#}" by blast
  let ?c = "c2\<lparr>tab := (tab c2)\<lparr>max_load_factor := max_load_factor (tab other)\<rparr>\<rparr>"
  have "held_ok (c2, h2)" "table_ok env (tab c2)" using s2(2) by (simp_all add: assigned_def)
  from with_max_load [OF this store_okD(8) [OF store]]
  have s3: "held_ok (?c, h2)" "rest ?c h2 = rest c2 h2" "table_ok env (tab (fst (?c, h2)))" by simp_all
  have result: "copy_assign_held tr env other s =
     bindO (rehash_for_other_held env (tab other) (?c, h2)) (\<lambda>_. insert_range_held env (stored (tab other)))"
    using s1(1) p1 s2(1) elements_stored [OF store] by (simp add: copy_assign_held_def)
  have rest: "rest ?c h2 = rest (fst s) (snd s)"
    using s3(2) s2(2) s1(2) by (simp add: assigned_def same_rest_def p1)
  have empty: "contents (tab (fst (?c, h2))) = {#}" using s2(3) by simp
  show thesis
  proof (cases rule: refill_cases [OF assms(1) s3(1,3) empty assms(4)])
    case (1 s')
    then show ?thesis using that(1) [of s'] result rest by (simp add: assigned_def same_rest_def)
  next
    case (2 s')
    then show ?thesis using that(2) [of s'] result rest by (simp add: damaged_def may_leak_def)
  qed
qed

lemma swap_pointers_held [simp]:
  "swap_pointers_held c d = (c\<lparr>tab := tab d, block := block d\<rparr>, d\<lparr>tab := tab c, block := block c\<rparr>)"
  by (simp add: swap_pointers_held_def swap_pointers)

text \<open>
  The move assignment, when the allocations that it may need succeed: \<open>other\<close> keeps its memory or
  takes over that of the target.
\<close>

lemma move_assign_cases:
  assumes "alloc_ok env" and "held_ok (c, h)" and "table_ok env (tab c)"
    and "owns other h" and "table_ok env (tab other)" and "move_assign_held tr env other (c, h) \<noteq> Faults Aborted"
  obtains c' other' h' where "move_assign_held tr env other (c, h) = Returns other' (c', h')"
    and "block c' = block other" and "tab c' = tab other" and "allocator c' = allocator other"
    and "block other' = None" and "allocator other' = allocator other"
    and "live h' = rest c h" and "heap_ok h'" and "table_ok env (tab other')"
    and "entries (tab other') = empty_default_table" and "num_slots_minus_one (tab other') = 0" and "max_lookups (tab other') = 3"
  | "move_assign_held tr env other (c, h) =
      Returns (other\<lparr>tab := tab c, block := block c\<rparr>) (c\<lparr>tab := tab other, block := block other\<rparr>, h)"
    and "allocator c = allocator other"
  | u s' where "move_assign_held tr env other (c, h) = Returns (other\<lparr>tab := u\<rparr>) s'"
    and "assigned env (c, h) s'" and "contents (tab (fst s')) = contents (tab other)"
    and "clear (tab other) = Inr u"
proof -
  note store = table_okD(1) [OF assms(5)]
  obtain s1 where s1: "clear_held (c, h) = Returns () s1" "same_rest (c, h) s1" "table_ok env (tab (fst s1))"
      "contents (tab (fst s1)) = {#}"
    using clear_held_returns [OF assms(2)] table_okD(1) [OF assms(3)] by (metis fst_conv)
  consider "propagate_move tr" | "\<not> propagate_move tr" "allocator c = allocator other"
    | "\<not> propagate_move tr" "allocator c \<noteq> allocator other" by blast
  then show thesis
  proof cases
    case 1
    let ?u = "reset_to_empty_state (tab (fst s1))"
    have ok: "held_ok (fst s1, snd s1)" and rest: "rest (fst s1) (snd s1) = rest c h" using s1(2) by (simp_all add: same_rest_def)
    obtain h2 where h2: "deallocate_data (allocator (fst s1)) (block (fst s1)) (num_slots_minus_one (tab (fst s1)))
        (max_lookups (tab (fst s1))) (snd s1) = Inr h2" "live h2 = rest (fst s1) (snd s1)" "heap_ok h2"
      by (rule deallocate_owned [OF ok])
    have moved: "move_assign_held tr env other (c, h) =
         Returns (other\<lparr>tab := ?u, block := None\<rparr>)
           ((fst s1)\<lparr>tab := tab other, block := block other, allocator := allocator other\<rparr>, h2)"
      using 1 s1(1) h2(1)
      by (cases s1) (simp add: move_assign_held_def reset_held_def AssignIfTrue_def no_except_def Let_def)
    have "stored (tab (fst s1)) = []" using s1(4) by simp
    from reset_ok [OF table_okD(1) [OF s1(3)] this] have "table_ok env ?u" by simp
    moreover have "entries ?u = empty_default_table" "num_slots_minus_one ?u = 0" "max_lookups ?u = 3"
      by (simp_all add: reset_to_empty_state_def min_lookups_def)
    ultimately show ?thesis using h2(2,3) rest by (intro that(1) [OF moved]) simp_all
  next
    case 2
    then show ?thesis using that(2) by (simp add: move_assign_held_def no_except_def)
  next
    case 3
    obtain c1 h1 where p1: "s1 = (c1, h1)" by (cases s1)
    let ?c = "c1\<lparr>tab := (tab c1)\<lparr>max_load_factor := max_load_factor (tab other)\<rparr>\<rparr>"
    have "held_ok (c1, h1)" "table_ok env (tab c1)" using s1 p1 by (simp_all add: same_rest_def)
    from with_max_load [OF this store_okD(8) [OF store]]
    have s2: "held_ok (?c, h1)" "rest ?c h1 = rest c1 h1" "table_ok env (tab (fst (?c, h1)))" by simp_all
    have empty: "contents (tab (fst (?c, h1))) = {#}" using s1(4) p1 by simp
    obtain u where u: "clear (tab other) = Inr u" using clear_correct [OF assms(5)] by blast
    have result: "move_assign_held tr env other (c, h) =
       no_except (bindO (bindO (rehash_for_other_held env (tab other) (?c, h1)) (\<lambda>_. insert_range_held env (stored (tab other))))
         (\<lambda>_ s. Returns (other\<lparr>tab := u\<rparr>) s))"
      using 3 s1(1) p1 u elements_stored [OF store] by (simp add: move_assign_held_def bindO_assoc)
    show ?thesis
    proof (cases rule: refill_cases [OF assms(1) s2(1,3) empty assms(5)])
      case (1 s')
      have "move_assign_held tr env other (c, h) = Returns (other\<lparr>tab := u\<rparr>) s'"
        unfolding result 1(1) by (simp add: no_except_def)
      moreover have "assigned env (c, h) s'"
        using 1 s1(2) s2(2) p1 by (simp add: assigned_def same_rest_def)
      ultimately show ?thesis using that(3) 1(4) u by blast
    next
      case (2 s')
      have "move_assign_held tr env other (c, h) = Faults Aborted"
        unfolding result 2(1) by (simp add: no_except_def)
      then show ?thesis using assms(6) by blast
    qed
  qed
qed

end
