(* ===== verification/HashStore.thy ===== *)
theory HashStore
  imports HashBuild
begin

text \<open>
  A client of the hash map with any number of maps on one heap: it constructs, copies, moves,
  swaps, assigns and destroys them, calls their operations, and catches the exceptions. The
  invariant is about the memory of all of them.
\<close>

section \<open>The client\<close>

text \<open>
  \<open>objects\<close> are the maps that exist. \<open>broken\<close> are those of which a call has thrown and that have
  not been cleared or assigned to since; \<open>exceptions\<close> counts the exceptions so far.
\<close>

record 't hash_store =
  objects :: "nat \<Rightarrow> 't container option"
  store_heap :: heap
  broken :: "nat \<Rightarrow> bool"
  exceptions :: nat

definition empty_store :: "('k \<times> 'v) hash_store" where
  "empty_store = \<lparr>objects = Map.empty, store_heap = empty_heap, broken = (\<lambda>_. False), exceptions = 0\<rparr>"

datatype ('k, 'v) store_call =
    StoreNew nat nat hash_policy
  | StoreNewSized nat nat hash_policy u64
  | StoreNewRange nat nat hash_policy "('k \<times> 'v) list" u64
  | StoreNewList nat nat hash_policy "('k \<times> 'v) list" u64
  | StoreCopy nat nat
  | StoreCopyWith nat nat nat
  | StoreMove nat nat
  | StoreMoveWith nat nat nat
  | StoreCopyAssign nat nat
  | StoreMoveAssign nat nat
  | StoreSwap nat nat
  | StoreDestroy nat
  | StoreCall nat "('k, 'v) hash_call"

definition object :: "('k \<times> 'v) hash_store \<Rightarrow> nat \<Rightarrow> ('k \<times> 'v) container result" where
  "object st i = (case objects st i of None \<Rightarrow> Inl DeadObject | Some c \<Rightarrow> Inr c)"

definition construct_in ::
  "nat \<Rightarrow> (('k \<times> 'v) container, heap) outcome \<Rightarrow> ('k \<times> 'v) hash_store \<Rightarrow> ('k \<times> 'v) hash_store result" where
  "construct_in i r st = (case r of
     Returns c h \<Rightarrow> Inr (st\<lparr>objects := (objects st)(i \<mapsto> c), store_heap := h, broken := (broken st)(i := False)\<rparr>)
   | Throws e h \<Rightarrow> Inr (st\<lparr>store_heap := h, exceptions := exceptions st + 1\<rparr>)
   | Faults e \<Rightarrow> Inl e)"

definition update_in ::
  "nat \<Rightarrow> (unit, ('k \<times> 'v) held) outcome \<Rightarrow> ('k \<times> 'v) hash_store \<Rightarrow> ('k \<times> 'v) hash_store result" where
  "update_in i r st = (case r of
     Returns _ (c, h) \<Rightarrow> Inr (st\<lparr>objects := (objects st)(i \<mapsto> c), store_heap := h, broken := (broken st)(i := False)\<rparr>)
   | Throws e (c, h) \<Rightarrow> Inr (st\<lparr>objects := (objects st)(i \<mapsto> c), store_heap := h, broken := (broken st)(i := True),
       exceptions := exceptions st + 1\<rparr>)
   | Faults e \<Rightarrow> Inl e)"

definition put_pair ::
  "nat \<Rightarrow> nat \<Rightarrow> ('k \<times> 'v) container \<times> ('k \<times> 'v) container \<Rightarrow> ('k \<times> 'v) hash_store \<Rightarrow> ('k \<times> 'v) hash_store" where
  "put_pair i j = (\<lambda>(c, d) st. st\<lparr>objects := (objects st)(i \<mapsto> c, j \<mapsto> d), broken := (broken st)(i := False)\<rparr>)"

fun store_step ::
  "alloc_traits \<Rightarrow> ('k, 'k \<times> 'v) hash_env \<Rightarrow> 'v \<Rightarrow> ('k, 'v) store_call \<Rightarrow> ('k \<times> 'v) hash_store \<Rightarrow> ('k \<times> 'v) hash_store result" where
  "store_step tr env dflt (StoreNew i a p) st = construct_in i (Returns (blank_container a p) (store_heap st)) st"
| "store_step tr env dflt (StoreNewSized i a p n) st = construct_in i (construct_sized_held env a p n (store_heap st)) st"
| "store_step tr env dflt (StoreNewRange i a p vs n) st = construct_in i (construct_range_held env a p vs n (store_heap st)) st"
| "store_step tr env dflt (StoreNewList i a p vs n) st = construct_in i (construct_list_held env a p vs n (store_heap st)) st"
| "store_step tr env dflt (StoreCopy i j) st = bindE (object st j) (\<lambda>d.
     construct_in i (copy_construct_held env (select_copy tr (allocator d)) (tab d) (store_heap st)) st)"
| "store_step tr env dflt (StoreCopyWith i j a) st = bindE (object st j) (\<lambda>d.
     construct_in i (copy_construct_held env a (tab d) (store_heap st)) st)"
| "store_step tr env dflt (StoreMove i j) st = bindE (object st j) (\<lambda>d. Inr (put_pair i j (move_construct_held d) st))"
| "store_step tr env dflt (StoreMoveWith i j a) st = bindE (object st j) (\<lambda>d. Inr (put_pair i j (move_construct_alloc a d) st))"
| "store_step tr env dflt (StoreCopyAssign i j) st = bindE (object st i) (\<lambda>c. bindE (object st j) (\<lambda>d.
     if i = j then Inr st else update_in i (copy_assign_held tr env d (c, store_heap st)) st))"
| "store_step tr env dflt (StoreMoveAssign i j) st = bindE (object st i) (\<lambda>c. bindE (object st j) (\<lambda>d.
     if i = j then Inr st else (case move_assign_held tr env d (c, store_heap st) of
       Returns d (c, h) \<Rightarrow> Inr (put_pair i j (c, d) (st\<lparr>store_heap := h\<rparr>))
     | Throws e _ \<Rightarrow> Inl e
     | Faults e \<Rightarrow> Inl e)))"
| "store_step tr env dflt (StoreSwap i j) st = bindE (object st i) (\<lambda>c. bindE (object st j) (\<lambda>d.
     Inr (put_pair i j (swap_held tr c d) st)))"
| "store_step tr env dflt (StoreDestroy i) st = bindE (object st i) (\<lambda>c.
     case destroy_held (c, store_heap st) of
       Returns _ h \<Rightarrow> Inr (st\<lparr>objects := (objects st)(i := None), store_heap := h\<rparr>)
     | Throws e _ \<Rightarrow> Inl e
     | Faults e \<Rightarrow> Inl e)"
| "store_step tr env dflt (StoreCall i m) st = bindE (object st i) (\<lambda>c.
     update_in i (hash_step_held env dflt m (c, store_heap st)) st)"

text \<open>
  What the client may call. A map whose call has thrown may be cleared, assigned to by copy, and
  destroyed. Memory may change hands between equal allocators only, which the standard asks of
  \<^verbatim>\<open>swap\<close>, and which the move constructor with an allocator would have to check.
\<close>

definition usable :: "('k \<times> 'v) hash_store \<Rightarrow> nat \<Rightarrow> bool" where
  "usable st i \<longleftrightarrow> objects st i \<noteq> None \<and> \<not> broken st i"

definition same_allocator :: "('k \<times> 'v) hash_store \<Rightarrow> nat \<Rightarrow> nat \<Rightarrow> bool" where
  "same_allocator st i j \<longleftrightarrow> map_option allocator (objects st i) = map_option allocator (objects st j)"

definition aborts :: "'a result \<Rightarrow> bool" where
  "aborts r = (case r of Inl Aborted \<Rightarrow> True | _ \<Rightarrow> False)"

lemma aborts_iff [simp]: "aborts r \<longleftrightarrow> r = Inl Aborted"
  by (auto simp: aborts_def split: sum.splits c_error.splits)

fun store_allowed ::
  "alloc_traits \<Rightarrow> ('k, 'k \<times> 'v) hash_env \<Rightarrow> 'v \<Rightarrow> ('k \<times> 'v) hash_store \<Rightarrow> ('k, 'v) store_call \<Rightarrow> bool" where
  "store_allowed tr env dflt st (StoreNew i a p) \<longleftrightarrow> objects st i = None"
| "store_allowed tr env dflt st (StoreNewSized i a p n) \<longleftrightarrow> objects st i = None \<and> n \<le> 2 ^ 63"
| "store_allowed tr env dflt st (StoreNewRange i a p vs n) \<longleftrightarrow> objects st i = None \<and> n \<le> 2 ^ 63"
| "store_allowed tr env dflt st (StoreNewList i a p vs n) \<longleftrightarrow> objects st i = None \<and> n \<le> 2 ^ 63 \<and> length vs \<le> 2 ^ 63"
| "store_allowed tr env dflt st (StoreCopy i j) \<longleftrightarrow> objects st i = None \<and> usable st j"
| "store_allowed tr env dflt st (StoreCopyWith i j a) \<longleftrightarrow> objects st i = None \<and> usable st j"
| "store_allowed tr env dflt st (StoreMove i j) \<longleftrightarrow> objects st i = None \<and> usable st j"
| "store_allowed tr env dflt st (StoreMoveWith i j a) \<longleftrightarrow>
     objects st i = None \<and> usable st j \<and> map_option allocator (objects st j) = Some a"
| "store_allowed tr env dflt st (StoreCopyAssign i j) \<longleftrightarrow> objects st i \<noteq> None \<and> usable st j"
| "store_allowed tr env dflt st (StoreMoveAssign i j) \<longleftrightarrow> usable st i \<and> usable st j
     \<and> \<not> aborts (store_step tr env dflt (StoreMoveAssign i j) st)"
| "store_allowed tr env dflt st (StoreSwap i j) \<longleftrightarrow> usable st i \<and> usable st j \<and> i \<noteq> j
     \<and> (propagate_swap tr \<or> same_allocator st i j)"
| "store_allowed tr env dflt st (StoreDestroy i) \<longleftrightarrow> objects st i \<noteq> None"
| "store_allowed tr env dflt st (StoreCall i m) \<longleftrightarrow> call_ok m \<and> (usable st i \<or> objects st i \<noteq> None \<and> m = CallClear)"

section \<open>The invariant\<close>

definition objects_ok :: "('k, 'k \<times> 'v) hash_env \<Rightarrow> ('k \<times> 'v) hash_store \<Rightarrow> bool" where
  "objects_ok env st \<longleftrightarrow> (\<forall>i c. objects st i = Some c \<longrightarrow>
     owns c (store_heap st) \<and> store_ok env (tab c) \<and> (\<not> broken st i \<longrightarrow> table_ok env (tab c)))"

definition apart :: "(nat \<Rightarrow> 't container option) \<Rightarrow> bool" where
  "apart m \<longleftrightarrow> (\<forall>i j c d b. m i = Some c \<longrightarrow> m j = Some d \<longrightarrow> i \<noteq> j \<longrightarrow> block c = Some b \<longrightarrow> block d \<noteq> Some b)"

text \<open>Every block belongs to a table, as long as nothing has been thrown.\<close>

definition accounted :: "('k \<times> 'v) hash_store \<Rightarrow> bool" where
  "accounted st \<longleftrightarrow> (exceptions st = 0 \<longrightarrow>
     (\<forall>b. live (store_heap st) b \<noteq> None \<longrightarrow> (\<exists>i c. objects st i = Some c \<and> block c = Some b)))"

definition store_inv :: "('k, 'k \<times> 'v) hash_env \<Rightarrow> ('k \<times> 'v) hash_store \<Rightarrow> bool" where
  "store_inv env st \<longleftrightarrow> map_env env \<and> heap_ok (store_heap st) \<and> objects_ok env st \<and> apart (objects st) \<and> accounted st"

lemma store_invD:
  assumes "store_inv env st"
  shows "map_env env" and "alloc_ok env" and "heap_ok (store_heap st)" and "apart (objects st)" and "accounted st"
    and "objects st i = Some c \<Longrightarrow> held_ok (c, store_heap st)"
    and "objects st i = Some c \<Longrightarrow> store_ok env (tab c)"
    and "objects st i = Some c \<Longrightarrow> \<not> broken st i \<Longrightarrow> table_ok env (tab c)"
  using assms by (auto simp: store_inv_def objects_ok_def held_ok_def)

lemma accountedE:
  assumes "accounted st" and "exceptions st = 0" and "live (store_heap st) b \<noteq> None"
  obtains i c where "objects st i = Some c" and "block c = Some b"
  using assms unfolding accounted_def by blast

lemma empty_store_inv: "map_env env \<Longrightarrow> store_inv env empty_store"
  by (simp add: store_inv_def empty_store_def empty_heap_def heap_ok_def objects_ok_def apart_def accounted_def)

text \<open>The other tables keep their blocks.\<close>

lemma others_kept:
  assumes "apart m" and "m i = Some c" and "m j = Some d" and "i \<noteq> j" and "owns d h" and "rest c h \<subseteq>\<^sub>m rest c' h'"
  shows "owns d h'" and "\<And>b. block d = Some b \<Longrightarrow> block c' \<noteq> Some b"
proof -
  have "live h' b = live h b \<and> block c' \<noteq> Some b" if "block d = Some b" for b
  proof -
    have "block c \<noteq> Some b" using assms(1-4) that unfolding apart_def by metis
    moreover from assms(5) that have "live h b = Some (allocator d, num_slots_minus_one (tab d) + of_int (max_lookups (tab d)) + 1)"
      by (simp add: owns_def)
    ultimately show ?thesis using rest_blocks [OF assms(6)] by metis
  qed
  then show "owns d h'" and "\<And>b. block d = Some b \<Longrightarrow> block c' \<noteq> Some b"
    using assms(5) by (auto simp: owns_def split: option.splits)
qed

lemma apart_update:
  assumes "apart m" and "\<And>j d b. m j = Some d \<Longrightarrow> j \<noteq> i \<Longrightarrow> block d = Some b \<Longrightarrow> block c \<noteq> Some b"
  shows "apart (m(i \<mapsto> c))"
  unfolding apart_def
proof (intro allI impI)
  fix j k d e b
  assume d: "(m(i \<mapsto> c)) j = Some d" and e: "(m(i \<mapsto> c)) k = Some e" and jk: "j \<noteq> k" and b: "block d = Some b"
  consider "j = i" | "k = i" "j \<noteq> i" | "j \<noteq> i" "k \<noteq> i" by blast
  then show "block e \<noteq> Some b"
  proof cases
    case 1
    then show ?thesis using assms(2) [of k e b] d e jk b by auto
  next
    case 2
    then show ?thesis using assms(2) [of j d b] d e b by auto
  next
    case 3
    then show ?thesis using assms(1) d e jk b unfolding apart_def by (metis fun_upd_other)
  qed
qed

text \<open>One table replaced, with its memory.\<close>

lemma store_update:
  assumes inv: "store_inv env st" and i: "objects st i = Some c" and held: "held_ok (c', h')"
    and sub: "rest c (store_heap st) \<subseteq>\<^sub>m rest c' h'" and store: "store_ok env (tab c')" and table: "\<not> br \<Longrightarrow> table_ok env (tab c')"
    and exact: "x = 0 \<Longrightarrow> exceptions st = 0 \<and> rest c' h' = rest c (store_heap st)"
  shows "store_inv env (st\<lparr>objects := (objects st)(i \<mapsto> c'), store_heap := h', broken := (broken st)(i := br), exceptions := x\<rparr>)"
proof -
  let ?st = "st\<lparr>objects := (objects st)(i \<mapsto> c'), store_heap := h', broken := (broken st)(i := br), exceptions := x\<rparr>"
  note s = store_invD [OF inv]
  have other: "owns d h' \<and> (\<forall>b. block d = Some b \<longrightarrow> block c' \<noteq> Some b)" if "objects st j = Some d" "j \<noteq> i" for j d
    using others_kept [OF s(4) i that(1) that(2) [symmetric] _ sub] s(6) [OF that(1)] by (simp add: held_ok_def)
  have "objects_ok env ?st"
    using held store table other s(7,8) by (auto simp: objects_ok_def held_ok_def)
  moreover have "apart (objects ?st)" using apart_update [OF s(4), of i c'] other by simp
  moreover have "accounted ?st"
    unfolding accounted_def
  proof (intro impI allI)
    fix b assume x: "exceptions ?st = 0" and b: "live (store_heap ?st) b \<noteq> None"
    show "\<exists>j d. objects ?st j = Some d \<and> block d = Some b"
    proof (cases "block c' = Some b")
      case True
      then show ?thesis by (intro exI [of _ i]) simp
    next
      case False
      then have "rest c' h' b \<noteq> None" using b by (auto simp: rest_def split: option.split)
      then have "rest c (store_heap st) b \<noteq> None" using exact x by simp
      then have free: "block c \<noteq> Some b" and "live (store_heap st) b \<noteq> None" by (auto simp: rest_def split: option.splits if_splits)
      moreover have "exceptions st = 0" using exact x by simp
      ultimately obtain j d where "objects st j = Some d" "block d = Some b"
        using accountedE [OF s(5)] by blast
      moreover from this have "j \<noteq> i" using i free by auto
      ultimately show ?thesis by (intro exI [of _ j] exI [of _ d]) simp
    qed
  qed
  ultimately show ?thesis using s(1) held by (simp add: store_inv_def held_ok_def)
qed

text \<open>A new table.\<close>

lemma store_insert:
  assumes inv: "store_inv env st" and i: "objects st i = None" and held: "held_ok (c, h')"
    and rest: "rest c h' = live (store_heap st)" and table: "table_ok env (tab c)"
  shows "store_inv env (st\<lparr>objects := (objects st)(i \<mapsto> c), store_heap := h', broken := (broken st)(i := False)\<rparr>)"
proof -
  let ?st = "st\<lparr>objects := (objects st)(i \<mapsto> c), store_heap := h', broken := (broken st)(i := False)\<rparr>"
  note s = store_invD [OF inv]
  have other: "owns d h' \<and> (\<forall>b. block d = Some b \<longrightarrow> block c \<noteq> Some b)" if "objects st j = Some d" for j d
  proof -
    have d: "owns d (store_heap st)" using s(6) [OF that] by (simp add: held_ok_def)
    have "live h' b = live (store_heap st) b \<and> block c \<noteq> Some b" if "block d = Some b" for b
    proof -
      have "rest c h' b \<noteq> None" using rest d that by (simp add: owns_def)
      then show ?thesis using fun_cong [OF rest, of b] by (auto simp: rest_def split: option.splits if_splits)
    qed
    then show ?thesis using d by (auto simp: owns_def split: option.splits)
  qed
  have "objects_ok env ?st"
    using held table table_okD(1) [OF table] other s(7,8) by (auto simp: objects_ok_def held_ok_def)
  moreover have "apart (objects ?st)" using apart_update [OF s(4), of i c] other by simp
  moreover have "accounted ?st"
    unfolding accounted_def
  proof (intro impI allI)
    fix b assume x: "exceptions ?st = 0" and b: "live (store_heap ?st) b \<noteq> None"
    show "\<exists>j d. objects ?st j = Some d \<and> block d = Some b"
    proof (cases "block c = Some b")
      case True
      then show ?thesis by (intro exI [of _ i]) simp
    next
      case False
      then have "rest c h' b \<noteq> None" using b by (auto simp: rest_def split: option.split)
      then have "live (store_heap st) b \<noteq> None" by (simp only: rest not_False_eq_True)
      moreover have "exceptions st = 0" using x by simp
      ultimately obtain j d where "objects st j = Some d" "block d = Some b"
        using accountedE [OF s(5)] by blast
      moreover from this have "j \<noteq> i" using i by auto
      ultimately show ?thesis by (intro exI [of _ j] exI [of _ d]) simp
    qed
  qed
  ultimately show ?thesis using s(1) held by (simp add: store_inv_def held_ok_def)
qed

text \<open>A constructor that has thrown, and the end of a table.\<close>

lemma store_leak:
  assumes inv: "store_inv env st" and "heap_ok h'" and "live (store_heap st) \<subseteq>\<^sub>m live h'"
  shows "store_inv env (st\<lparr>store_heap := h', exceptions := exceptions st + 1\<rparr>)"
proof -
  have "owns d h'" if "owns d (store_heap st)" for d :: "('a \<times> 'b) container"
    using that assms(3) by (auto simp: owns_def map_le_def dom_def split: option.splits)
  then have "objects_ok env (st\<lparr>store_heap := h', exceptions := exceptions st + 1\<rparr>)"
    using inv by (auto simp: store_inv_def objects_ok_def)
  then show ?thesis using inv assms(2) by (simp add: store_inv_def accounted_def)
qed

lemma store_remove:
  assumes inv: "store_inv env st" and i: "objects st i = Some c" and "heap_ok h'" and "live h' = rest c (store_heap st)"
  shows "store_inv env (st\<lparr>objects := (objects st)(i := None), store_heap := h'\<rparr>)"
proof -
  note s = store_invD [OF inv]
  let ?st = "st\<lparr>objects := (objects st)(i := None), store_heap := h'\<rparr>"
  have other: "owns d h'" if "objects st j = Some d" "j \<noteq> i" for j d
  proof -
    have d: "owns d (store_heap st)" using s(6) [OF that(1)] by (simp add: held_ok_def)
    have "block c \<noteq> Some b" if "block d = Some b" for b
      using s(4) i \<open>objects st j = Some d\<close> \<open>j \<noteq> i\<close> that unfolding apart_def by metis
    then show ?thesis using d assms(4) by (auto simp: owns_def rest_def split: option.splits)
  qed
  have "objects_ok env ?st" using other s(7,8) by (auto simp: objects_ok_def)
  moreover have "apart (objects ?st)" using s(4) unfolding apart_def by auto
  moreover have "accounted ?st"
    unfolding accounted_def
  proof (intro impI allI)
    fix b assume x: "exceptions ?st = 0" and b: "live (store_heap ?st) b \<noteq> None"
    then have free: "block c \<noteq> Some b" and "live (store_heap st) b \<noteq> None"
      using assms(4) by (auto simp: rest_def split: option.splits if_splits)
    moreover have "exceptions st = 0" using x by simp
    ultimately obtain j d where "objects st j = Some d" "block d = Some b" using accountedE [OF s(5)] by blast
    moreover from this have "j \<noteq> i" using i free by auto
    ultimately show "\<exists>j d. objects ?st j = Some d \<and> block d = Some b" by (intro exI [of _ j] exI [of _ d]) simp
  qed
  ultimately show ?thesis using s(1) assms(3) by (simp add: store_inv_def)
qed

text \<open>Two tables exchange their memory.\<close>

lemma store_exchange:
  assumes inv: "store_inv env st" and i: "objects st i = Some c" "\<not> broken st i" and j: "objects st j = Some d" "\<not> broken st j"
    and ij: "i \<noteq> j" and c': "tab c' = tab d" "block c' = block d" "block d \<noteq> None \<Longrightarrow> allocator c' = allocator d"
    and d': "tab d' = tab c" "block d' = block c" "block c \<noteq> None \<Longrightarrow> allocator d' = allocator c"
  shows "store_inv env (put_pair i j (c', d') st)"
proof -
  note s = store_invD [OF inv]
  let ?st = "put_pair i j (c', d') st"
  have owns: "owns c' (store_heap st)" "owns d' (store_heap st)"
    using s(6) [OF i(1)] s(6) [OF j(1)] c' d' by (auto simp: held_ok_def owns_def split: option.splits)
  have tables: "table_ok env (tab c')" "table_ok env (tab d')" using s(8) [OF i] s(8) [OF j] c' d' by simp_all
  have kept: "objects st k = Some e \<Longrightarrow> owns e (store_heap st) \<and> store_ok env (tab e)
      \<and> (\<not> broken st k \<longrightarrow> table_ok env (tab e))" for k e
    using s(6-8) by (auto simp: held_ok_def)
  have "objects_ok env ?st"
    using owns tables tables [THEN table_okD(1)] kept by (auto simp: put_pair_def objects_ok_def)
  moreover have "apart (objects ?st)"
  proof -
    have "apart ((objects st)(i := None, j := None))" using s(4) unfolding apart_def by auto
    moreover have "block c' \<noteq> Some b" if "((objects st)(i := None, j := None)) k = Some e" "k \<noteq> i" "block e = Some b" for k e b
    proof -
      have "objects st k = Some e" "k \<noteq> j" using that by (auto split: if_splits)
      then show ?thesis using s(4) j(1) that(3) c'(2) unfolding apart_def by metis
    qed
    ultimately have "apart ((objects st)(i := None, j := None, i \<mapsto> c'))" by (rule apart_update)
    moreover have "block d' \<noteq> Some b" if "((objects st)(i := None, j := None, i \<mapsto> c')) k = Some e" "k \<noteq> j" "block e = Some b" for k e b
    proof (cases "k = i")
      case True
      then have "block d = Some b" using that c'(2) by simp
      then show ?thesis using s(4) i(1) j(1) ij d'(2) unfolding apart_def by metis
    next
      case False
      then have "objects st k = Some e" using that by simp
      then show ?thesis using s(4) i(1) False that(3) d'(2) unfolding apart_def by metis
    qed
    ultimately have "apart ((objects st)(i := None, j := None, i \<mapsto> c', j \<mapsto> d'))" by (rule apart_update)
    moreover have "(objects st)(i := None, j := None, i \<mapsto> c', j \<mapsto> d') = (objects st)(i \<mapsto> c', j \<mapsto> d')"
      using ij by (simp add: fun_eq_iff)
    ultimately show ?thesis by (simp add: put_pair_def)
  qed
  moreover have "accounted ?st"
    unfolding accounted_def
  proof (intro impI allI)
    fix b assume "exceptions ?st = 0" and "live (store_heap ?st) b \<noteq> None"
    then have "exceptions st = 0" "live (store_heap st) b \<noteq> None" by (simp_all add: put_pair_def)
    then obtain k e where k: "objects st k = Some e" "block e = Some b" by (rule accountedE [OF s(5)])
    consider "k = i" | "k = j" | "k \<noteq> i" "k \<noteq> j" by blast
    then show "\<exists>k e. objects ?st k = Some e \<and> block e = Some b"
    proof cases
      case 1
      then show ?thesis using k i(1) d'(2) by (intro exI [of _ j] exI [of _ d']) (simp add: put_pair_def)
    next
      case 2
      then show ?thesis using k j(1) c'(2) ij by (intro exI [of _ i] exI [of _ c']) (simp add: put_pair_def)
    next
      case 3
      then show ?thesis using k by (intro exI [of _ k] exI [of _ e]) (simp add: put_pair_def)
    qed
  qed
  ultimately show ?thesis using s(1,3) by (simp add: store_inv_def put_pair_def)
qed

end
