(* ===== verification/HashStoreProps.thy ===== *)
theory HashStoreProps
  imports HashStore
begin

text \<open>
  Every call of the client keeps the invariant of the memory, exceptions included; a call that
  does not throw does to the maps what it does to finite maps that are values.
\<close>

section \<open>The maps as values\<close>

text \<open>
  \<open>Some m\<close> is a map with the pairs of \<open>m\<close>. Nothing is said (\<open>None\<close>) of a map that does not exist,
  and of one that has been assigned from by a move.
\<close>

type_synonym ('k, 'v) map_values = "nat \<Rightarrow> ('k \<Rightarrow> 'v option) option"

fun store_spec :: "'v \<Rightarrow> ('k, 'v) store_call \<Rightarrow> ('k, 'v) map_values \<Rightarrow> ('k, 'v) map_values" where
  "store_spec dflt (StoreNew i a p) m = m(i \<mapsto> Map.empty)"
| "store_spec dflt (StoreNewSized i a p n) m = m(i \<mapsto> Map.empty)"
| "store_spec dflt (StoreNewRange i a p vs n) m = m(i \<mapsto> map_of vs)"
| "store_spec dflt (StoreNewList i a p vs n) m = m(i \<mapsto> map_of vs)"
| "store_spec dflt (StoreCopy i j) m = m(i := m j)"
| "store_spec dflt (StoreCopyWith i j a) m = m(i := m j)"
| "store_spec dflt (StoreMove i j) m = m(i := m j, j \<mapsto> Map.empty)"
| "store_spec dflt (StoreMoveWith i j a) m = m(i := m j, j \<mapsto> Map.empty)"
| "store_spec dflt (StoreCopyAssign i j) m = m(i := m j)"
| "store_spec dflt (StoreMoveAssign i j) m = (if i = j then m else m(i := m j, j := None))"
| "store_spec dflt (StoreSwap i j) m = m(i := m j, j := m i)"
| "store_spec dflt (StoreDestroy i) m = m(i := None)"
| "store_spec dflt (StoreCall i c) m =
     (if c = CallClear then m(i \<mapsto> Map.empty) else m(i := map_option (hash_spec dflt c) (m i)))"

lemma store_spec_funs:
  "store_spec dflt (StoreNew i a p) = (\<lambda>m. m(i \<mapsto> Map.empty))"
  "store_spec dflt (StoreNewSized i a p n) = (\<lambda>m. m(i \<mapsto> Map.empty))"
  "store_spec dflt (StoreNewRange i a p vs n) = (\<lambda>m. m(i \<mapsto> map_of vs))"
  "store_spec dflt (StoreNewList i a p vs n) = (\<lambda>m. m(i \<mapsto> map_of vs))"
  "store_spec dflt (StoreCopy i j) = (\<lambda>m. m(i := m j))"
  "store_spec dflt (StoreCopyWith i j a) = (\<lambda>m. m(i := m j))"
  "store_spec dflt (StoreMove i j) = (\<lambda>m. m(i := m j, j \<mapsto> Map.empty))"
  "store_spec dflt (StoreMoveWith i j a) = (\<lambda>m. m(i := m j, j \<mapsto> Map.empty))"
  "store_spec dflt (StoreCopyAssign i j) = (\<lambda>m. m(i := m j))"
  "store_spec dflt (StoreSwap i j) = (\<lambda>m. m(i := m j, j := m i))"
  "store_spec dflt (StoreDestroy i) = (\<lambda>m. m(i := None))"
  by (rule ext, simp)+

definition holds_map :: "('k \<times> 'v) hash_store \<Rightarrow> nat \<Rightarrow> ('k \<Rightarrow> 'v option) \<Rightarrow> bool" where
  "holds_map st i f \<longleftrightarrow> (\<exists>c. objects st i = Some c \<and> assoc (tab c) = f)"

definition knows :: "('k \<times> 'v) hash_store \<Rightarrow> ('k, 'v) map_values \<Rightarrow> bool" where
  "knows st m \<longleftrightarrow> (\<forall>i f. m i = Some f \<longrightarrow> holds_map st i f)"

text \<open>What is proved of each call.\<close>

definition step_fine ::
  "('k, 'k \<times> 'v) hash_env \<Rightarrow> ('k \<times> 'v) hash_store \<Rightarrow> ('k \<times> 'v) hash_store result
   \<Rightarrow> (('k, 'v) map_values \<Rightarrow> ('k, 'v) map_values) \<Rightarrow> bool" where
  "step_fine env st r spec \<longleftrightarrow> (\<exists>st'. r = Inr st' \<and> store_inv env st' \<and> exceptions st \<le> exceptions st'
     \<and> (exceptions st' = exceptions st \<longrightarrow> (\<forall>m. knows st m \<longrightarrow> knows st' (spec m))))"

lemma step_fineI:
  assumes "r = Inr st'" and "store_inv env st'" and "exceptions st \<le> exceptions st'"
    and "\<And>m i f. exceptions st' = exceptions st \<Longrightarrow> knows st m \<Longrightarrow> spec m i = Some f \<Longrightarrow> holds_map st' i f"
  shows "step_fine env st r spec"
  using assms unfolding step_fine_def knows_def by blast

lemma knowsD: "knows st m \<Longrightarrow> m i = Some f \<Longrightarrow> objects st i = Some c \<Longrightarrow> assoc (tab c) = f"
  by (fastforce simp: knows_def holds_map_def)

lemma knows_other: "knows st m \<Longrightarrow> m j = Some f \<Longrightarrow> objects st' j = objects st j \<Longrightarrow> holds_map st' j f"
  by (simp add: knows_def holds_map_def)

section \<open>Constructors\<close>

lemma construct_fine:
  assumes inv: "store_inv env st" and i: "objects st i = None" and b: "builds a (store_heap st) r v"
    and v: "\<And>t. v = Inr t \<Longrightarrow> table_ok env t \<and> P (assoc t)"
    and spec: "\<And>m j f. knows st m \<Longrightarrow> spec m j = Some f \<Longrightarrow> if j = i then \<forall>g. P g \<longrightarrow> g = f else m j = Some f"
  shows "step_fine env st (construct_in i r st) spec"
proof (cases r)
  case (Returns c h)
  then have c: "v = Inr (tab c)" "held_ok (c, h)" "rest c h = live (store_heap st)" using b by (simp_all add: builds_def)
  note t = v [OF c(1)]
  show ?thesis
  proof (rule step_fineI)
    show "construct_in i r st = Inr (st\<lparr>objects := (objects st)(i \<mapsto> c), store_heap := h, broken := (broken st)(i := False)\<rparr>)"
      by (simp add: construct_in_def Returns)
    show "store_inv env (st\<lparr>objects := (objects st)(i \<mapsto> c), store_heap := h, broken := (broken st)(i := False)\<rparr>)"
      using store_insert [OF inv i c(2,3)] t by blast
    fix m j f assume m: "knows st m" and j: "spec m j = Some f"
    show "holds_map (st\<lparr>objects := (objects st)(i \<mapsto> c), store_heap := h, broken := (broken st)(i := False)\<rparr>) j f"
    proof (cases "j = i")
      case True
      then show ?thesis using spec [OF m j] t by (simp add: holds_map_def)
    next
      case False
      then have "m j = Some f" using spec [OF m j] by simp
      then show ?thesis using False by (intro knows_other [OF m]) simp_all
    qed
  qed simp
next
  case (Throws e h)
  then have h: "heap_ok h" "live (store_heap st) \<subseteq>\<^sub>m live h" using b by (simp_all add: builds_def)
  show ?thesis
    by (rule step_fineI [OF _ store_leak [OF inv h]]) (simp_all add: construct_in_def Throws)
next
  case (Faults e)
  then show ?thesis using b by (simp add: builds_def)
qed

lemma assoc_empty: "contents t = {#} \<Longrightarrow> assoc t = Map.empty"
  by (simp add: assoc_def)

lemma new_fine:
  fixes st :: "('k \<times> 'v) hash_store"
  assumes inv: "store_inv env st" and i: "objects st i = None"
  shows "step_fine env st (construct_in i (Returns (blank_container a p) (store_heap st)) st) (\<lambda>m. m(i \<mapsto> Map.empty))"
proof (rule construct_fine [OF inv i, where a = a and v = "Inr (new_table p)" and P = "\<lambda>g. g = Map.empty"])
  have "tab (blank_container a p :: ('k \<times> 'v) container) = new_table p" by (simp add: blank_container_def)
  then show "builds a (store_heap st) (Returns (blank_container a p) (store_heap st)) (Inr (new_table p :: ('k \<times> 'v) table))"
    by (simp add: builds_def blank_held [OF store_invD(3) [OF inv] blank_plain])
  show "table_ok env t \<and> assoc t = Map.empty" if "Inr (new_table p) = Inr t" for t
    using blank_table(1) [of env p] assoc_empty [OF blank_table(2), of p] that by auto
qed (auto split: if_splits)

lemma sized_fine:
  assumes inv: "store_inv env st" and i: "objects st i = None" and n: "n \<le> 2 ^ 63"
  shows "step_fine env st (construct_in i (construct_sized_held env a p n (store_heap st)) st) (\<lambda>m. m(i \<mapsto> Map.empty))"
proof (rule construct_fine [OF inv i construct_sized_builds [OF store_invD(2,3) [OF inv] n], where P = "\<lambda>g. g = Map.empty"])
  show "table_ok env t \<and> assoc t = Map.empty" if "construct_sized env p n = Inr t" for t
    using sized_table [OF store_invD(2) [OF inv] n that] assoc_empty by blast
qed (auto split: if_splits)

lemma range_fine:
  assumes inv: "store_inv env st" and i: "objects st i = None" and n: "n \<le> 2 ^ 63"
  shows "step_fine env st (construct_in i (construct_range_held env a p vs n (store_heap st)) st) (\<lambda>m. m(i \<mapsto> map_of vs))"
proof (rule construct_fine [OF inv i construct_range_builds [OF store_invD(2,3) [OF inv] n], where P = "\<lambda>g. g = map_of vs"])
  fix t assume t: "construct_range env p vs n = Inr t"
  then obtain t0 where t0: "construct_sized env p n = Inr t0" "insert_range env vs t0 = Inr t"
    by (auto simp: construct_range_def bindE_eq_Inr)
  have ok: "table_ok env t0" "assoc t0 = Map.empty"
    using sized_table [OF store_invD(2) [OF inv] n t0(1)] assoc_empty by blast+
  show "table_ok env t \<and> assoc t = map_of vs"
    using insert_range_assoc [OF store_invD(1) [OF inv] ok(1), of vs] t0(2) ok(2) by auto
qed (auto split: if_splits)

lemma list_fine:
  assumes inv: "store_inv env st" and i: "objects st i = None" and n: "n \<le> 2 ^ 63" "length vs \<le> 2 ^ 63"
  shows "step_fine env st (construct_in i (construct_list_held env a p vs n (store_heap st)) st) (\<lambda>m. m(i \<mapsto> map_of vs))"
proof (rule construct_fine [OF inv i construct_list_builds [OF store_invD(2,3) [OF inv] n], where P = "\<lambda>g. g = map_of vs"])
  show "table_ok env t \<and> assoc t = map_of vs" if "construct_list env p vs n = Inr t" for t
    using construct_list_assoc [OF store_invD(1) [OF inv] n, of p] that by auto
qed (auto split: if_splits)

lemma copy_fine:
  assumes inv: "store_inv env st" and i: "objects st i = None" and j: "objects st j = Some d" "\<not> broken st j"
  shows "step_fine env st (construct_in i (copy_construct_held env a (tab d) (store_heap st)) st) (\<lambda>m. m(i := m j))"
proof -
  note d = store_invD(8) [OF inv j]
  show ?thesis
  proof (rule construct_fine [OF inv i copy_construct_builds [OF store_invD(2,3) [OF inv] d], where P = "\<lambda>g. g = assoc (tab d)"])
    fix t assume t: "copy_construct env (tab d) = Inr t"
    then have "table_ok env t" "contents t = contents (tab d)" using copy_correct [OF d store_invD(2) [OF inv]] by auto
    then show "table_ok env t \<and> assoc t = assoc (tab d)" using assoc_same [OF store_invD(1) [OF inv] d] by blast
  next
    fix m k f assume "knows st m" "(m(i := m j)) k = Some f"
    then show "if k = i then \<forall>g. g = assoc (tab d) \<longrightarrow> g = f else m k = Some f"
      using knowsD [of st m j f d] j(1) by auto
  qed
qed

section \<open>Moves and swaps\<close>

lemma usableE:
  assumes "usable st i"
  obtains c where "objects st i = Some c" and "\<not> broken st i"
  using assms by (auto simp: usable_def)

lemma exchange_fine:
  assumes inv: "store_inv env st" and i: "objects st i = Some c" "\<not> broken st i" and j: "objects st j = Some d" "\<not> broken st j"
    and ij: "i \<noteq> j" and c': "tab c' = tab d" "block c' = block d" "block d \<noteq> None \<Longrightarrow> allocator c' = allocator d"
    and d': "tab d' = tab c" "block d' = block c" "block c \<noteq> None \<Longrightarrow> allocator d' = allocator c"
  shows "step_fine env st (Inr (put_pair i j (c', d') st)) (\<lambda>m. m(i := m j, j := m i))"
proof (rule step_fineI [OF refl store_exchange [OF assms]])
  fix m k f assume m: "knows st m" and k: "(m(i := m j, j := m i)) k = Some f"
  consider "k = j" | "k = i" "k \<noteq> j" | "k \<noteq> i" "k \<noteq> j" by blast
  then show "holds_map (put_pair i j (c', d') st) k f"
  proof cases
    case 1
    then show ?thesis using k knowsD [OF m _ i(1), of f] d'(1) by (simp add: holds_map_def put_pair_def)
  next
    case 2
    then show ?thesis using k ij knowsD [OF m _ j(1), of f] c'(1) by (simp add: holds_map_def put_pair_def)
  next
    case 3
    then show ?thesis using k by (intro knows_other [OF m]) (simp_all add: put_pair_def)
  qed
qed (simp_all add: put_pair_def)

lemma swap_fine:
  assumes inv: "store_inv env st" and "usable st i" and "usable st j" and "i \<noteq> j"
    and "propagate_swap tr \<or> same_allocator st i j"
  shows "step_fine env st (store_step tr env dflt (StoreSwap i j) st) (\<lambda>m. m(i := m j, j := m i))"
proof -
  obtain c where c: "objects st i = Some c" "\<not> broken st i" using assms(2) by (rule usableE)
  obtain d where d: "objects st j = Some d" "\<not> broken st j" using assms(3) by (rule usableE)
  obtain c' d' where s: "swap_held tr c d = (c', d')" by fastforce
  have "tab c' = tab d" "block c' = block d" "allocator c' = allocator d" "tab d' = tab c" "block d' = block c"
      "allocator d' = allocator c"
    using s assms(5) c(1) d(1) by (auto simp: swap_held_def same_allocator_def split: if_splits)
  from exchange_fine [OF inv c d assms(4) this(1,2) this(3) this(4,5) this(6)] s c(1) d(1)
  show ?thesis by (simp add: object_def)
qed

text \<open>A move construction is that of an empty map and an exchange.\<close>

lemma move_fine:
  assumes inv: "store_inv env st" and i: "objects st i = None" and j: "objects st j = Some d" "\<not> broken st j" and a: "allocator d = a"
  shows "step_fine env st (Inr (put_pair i j (swap_pointers_held (blank_container a (hash_policy (tab d))) d) st))
     (\<lambda>m. m(i := m j, j \<mapsto> Map.empty))"
proof -
  let ?c = "blank_container a (hash_policy (tab d))"
  have ij: "i \<noteq> j" using i j by auto
  define st1 where "st1 = st\<lparr>objects := (objects st)(i \<mapsto> ?c), store_heap := store_heap st, broken := (broken st)(i := False)\<rparr>"
  have tab: "tab ?c = new_table (hash_policy (tab d))" by (simp add: blank_container_def)
  note blank = blank_held [OF store_invD(3) [OF inv] blank_plain, of a "hash_policy (tab d)"]
  have inv1: "store_inv env st1"
    unfolding st1_def
  proof (rule store_insert [OF inv i blank(1,2)])
    show "table_ok env (tab ?c)" unfolding tab by (rule blank_table(1))
  qed
  have c: "objects st1 i = Some ?c" "\<not> broken st1 i" and d: "objects st1 j = Some d" "\<not> broken st1 j"
    using ij j by (simp_all add: st1_def)
  have none: "block ?c = None" by (simp add: blank_container_def)
  have pair: "put_pair i j (swap_pointers_held ?c d) st1 = put_pair i j (swap_pointers_held ?c d) st"
    by (simp add: put_pair_def st1_def split_def)
  have fine: "step_fine env st1 (Inr (put_pair i j (swap_pointers_held ?c d) st1)) (\<lambda>m. m(i := m j, j := m i))"
    unfolding swap_pointers_held
    by (rule exchange_fine [OF inv1 c d ij]) (use a none in \<open>simp_all add: blank_container_def\<close>)
  show ?thesis
  proof (rule step_fineI [OF refl])
    show "store_inv env (put_pair i j (swap_pointers_held ?c d) st)"
      using fine unfolding step_fine_def pair by auto
    fix m k f assume m: "knows st m" and k: "(m(i := m j, j \<mapsto> Map.empty)) k = Some f"
    have empty: "assoc (tab ?c) = Map.empty" unfolding tab by (rule assoc_empty [OF blank_table(2)])
    have "knows st1 (m(i \<mapsto> Map.empty))"
      using m empty unfolding knows_def holds_map_def st1_def by auto
    moreover have "exceptions (put_pair i j (swap_pointers_held ?c d) st1) = exceptions st1" by (simp add: put_pair_def)
    ultimately have "knows (put_pair i j (swap_pointers_held ?c d) st1) ((m(i \<mapsto> Map.empty))(i := (m(i \<mapsto> Map.empty)) j, j := (m(i \<mapsto> Map.empty)) i))"
      using fine unfolding step_fine_def by auto
    moreover have same: "(m(i \<mapsto> Map.empty))(i := (m(i \<mapsto> Map.empty)) j, j := (m(i \<mapsto> Map.empty)) i) = m(i := m j, j \<mapsto> Map.empty)"
      using ij by auto
    ultimately have "knows (put_pair i j (swap_pointers_held ?c d) st) (m(i := m j, j \<mapsto> Map.empty))" by (simp only: pair)
    then show "holds_map (put_pair i j (swap_pointers_held ?c d) st) k f" using k unfolding knows_def by blast
  qed (simp add: put_pair_def split_def)
qed

section \<open>Calls, assignments, destruction\<close>

lemma update_fine:
  assumes inv: "store_inv env st" and i: "objects st i = Some c"
    and r: "(\<exists>c' h'. r = Returns () (c', h') \<and> assigned env (c, store_heap st) (c', h') \<and> P (assoc (tab c')))
      \<or> (\<exists>e s'. r = Throws e s' \<and> damaged env (c, store_heap st) s')"
    and spec: "\<And>m j f. knows st m \<Longrightarrow> spec m j = Some f \<Longrightarrow> if j = i then \<forall>g. P g \<longrightarrow> g = f else m j = Some f"
  shows "step_fine env st (update_in i r st) spec"
  using r
proof (elim disjE exE conjE)
  fix c' h' assume r: "r = Returns () (c', h')" and a: "assigned env (c, store_heap st) (c', h')" and p: "P (assoc (tab c'))"
  let ?st = "st\<lparr>objects := (objects st)(i \<mapsto> c'), store_heap := h', broken := (broken st)(i := False)\<rparr>"
  have fields: "held_ok (c', h')" "rest c' h' = rest c (store_heap st)" "table_ok env (tab c')" using a by (simp_all add: assigned_def)
  have "store_inv env (st\<lparr>objects := (objects st)(i \<mapsto> c'), store_heap := h', broken := (broken st)(i := False), exceptions := exceptions st\<rparr>)"
    by (rule store_update [OF inv i fields(1)]) (use fields in \<open>auto intro: table_okD\<close>)
  then have st: "store_inv env ?st" by simp
  show ?thesis
  proof (rule step_fineI [OF _ st])
    show "update_in i r st = Inr ?st" by (simp add: update_in_def r)
    fix m j f assume m: "knows st m" and j: "spec m j = Some f"
    show "holds_map ?st j f"
    proof (cases "j = i")
      case True
      then show ?thesis using spec [OF m j] p by (simp add: holds_map_def)
    next
      case False
      then have "m j = Some f" using spec [OF m j] by simp
      then show ?thesis using False by (intro knows_other [OF m]) simp_all
    qed
  qed simp
next
  fix e s' assume r: "r = Throws e s'" and d: "damaged env (c, store_heap st) s'"
  obtain c' h' where s': "s' = (c', h')" by (cases s')
  have fields: "held_ok (c', h')" "rest c (store_heap st) \<subseteq>\<^sub>m rest c' h'" "store_ok env (tab c')"
    using d s' by (simp_all add: damaged_def)
  have "store_inv env (st\<lparr>objects := (objects st)(i \<mapsto> c'), store_heap := h', broken := (broken st)(i := True),
      exceptions := exceptions st + 1\<rparr>)"
    by (rule store_update [OF inv i fields]) simp_all
  then show ?thesis
    by (rule step_fineI [rotated]) (simp_all add: update_in_def r s')
qed

lemma call_fine:
  assumes inv: "store_inv env st" and ok: "call_ok m" and i: "usable st i \<or> objects st i \<noteq> None \<and> m = CallClear"
  shows "step_fine env st (store_step tr env dflt (StoreCall i m) st) (store_spec dflt (StoreCall i m))"
proof -
  obtain c where c: "objects st i = Some c" using i by (auto simp: usable_def)
  note held = store_invD(6) [OF inv c]
  have step: "store_step tr env dflt (StoreCall i m) st = update_in i (hash_step_held env dflt m (c, store_heap st)) st"
    using c by (simp add: object_def)
  show ?thesis
  proof (cases "m = CallClear")
    case True
    obtain s' where s': "clear_held (c, store_heap st) = Returns () s'" "same_rest (c, store_heap st) s'"
        "table_ok env (tab (fst s'))" "contents (tab (fst s')) = {#}"
      using clear_held_returns [OF held] store_invD(7) [OF inv c] by (metis fst_conv)
    show ?thesis
      unfolding step
    proof (rule update_fine [OF inv c, where P = "\<lambda>g. g = Map.empty"])
      show "(\<exists>c' h'. hash_step_held env dflt m (c, store_heap st) = Returns () (c', h')
          \<and> assigned env (c, store_heap st) (c', h') \<and> assoc (tab c') = Map.empty)
        \<or> (\<exists>e s'. hash_step_held env dflt m (c, store_heap st) = Throws e s' \<and> damaged env (c, store_heap st) s')"
        using s' True assoc_empty [OF s'(4)] by (cases s') (auto simp: assigned_def same_rest_def)
    qed (use True in \<open>auto split: if_splits\<close>)
  next
    case False
    then have "\<not> broken st i" using i by (auto simp: usable_def)
    then have t: "table_ok env (tab (fst (c, store_heap st)))" using store_invD(8) [OF inv c] by simp
    show ?thesis
      unfolding step
    proof (rule update_fine [OF inv c, where P = "\<lambda>g. g = hash_spec dflt m (assoc (tab c))"])
      show "(\<exists>c' h'. hash_step_held env dflt m (c, store_heap st) = Returns () (c', h')
          \<and> assigned env (c, store_heap st) (c', h') \<and> assoc (tab c') = hash_spec dflt m (assoc (tab c)))
        \<or> (\<exists>e s'. hash_step_held env dflt m (c, store_heap st) = Throws e s' \<and> damaged env (c, store_heap st) s')"
      proof (cases rule: hash_step_held_cases [OF store_invD(1) [OF inv] held t ok, of dflt])
        case (1 s')
        then show ?thesis by (cases s') (auto simp: assigned_def same_rest_def)
      next
        case (2 s')
        then show ?thesis by (auto simp: damaged_def may_leak_def)
      qed
      fix n j f assume n: "knows st n" and j: "store_spec dflt (StoreCall i m) n j = Some f"
      show "if j = i then \<forall>g. g = hash_spec dflt m (assoc (tab c)) \<longrightarrow> g = f else n j = Some f"
        using False j knowsD [OF n _ c] by (auto split: if_splits)
    qed
  qed
qed

lemma copy_assign_fine:
  assumes inv: "store_inv env st" and "objects st i \<noteq> None" and "usable st j"
  shows "step_fine env st (store_step tr env dflt (StoreCopyAssign i j) st) (\<lambda>m. m(i := m j))"
proof -
  obtain c where c: "objects st i = Some c" using assms(2) by blast
  obtain d where d: "objects st j = Some d" "\<not> broken st j" using assms(3) by (rule usableE)
  show ?thesis
  proof (cases "i = j")
    case True
    have "store_step tr env dflt (StoreCopyAssign i j) st = Inr st" using True c d(1) by (simp add: object_def)
    then show ?thesis by (rule step_fineI [OF _ inv]) (use True in \<open>auto simp: knows_def\<close>)
  next
    case False
    note held = store_invD(6) [OF inv c] and td = store_invD(8) [OF inv d]
    have tc: "store_ok env (tab (fst (c, store_heap st)))" using store_invD(7) [OF inv c] by simp
    have step: "store_step tr env dflt (StoreCopyAssign i j) st = update_in i (copy_assign_held tr env d (c, store_heap st)) st"
      using c d False by (simp add: object_def)
    show ?thesis
      unfolding step
    proof (rule update_fine [OF inv c, where P = "\<lambda>g. g = assoc (tab d)"])
      show "(\<exists>c' h'. copy_assign_held tr env d (c, store_heap st) = Returns () (c', h')
          \<and> assigned env (c, store_heap st) (c', h') \<and> assoc (tab c') = assoc (tab d))
        \<or> (\<exists>e s'. copy_assign_held tr env d (c, store_heap st) = Throws e s' \<and> damaged env (c, store_heap st) s')"
      proof (cases rule: copy_assign_cases [OF store_invD(2) [OF inv] held tc td, of tr])
        case (1 s')
        then show ?thesis
          using assoc_same [OF store_invD(1) [OF inv] td, of "tab (fst s')"] by (cases s') auto
      next
        case (2 s')
        then show ?thesis by blast
      qed
      fix m k f assume "knows st m" "(m(i := m j)) k = Some f"
      then show "if k = i then \<forall>g. g = assoc (tab d) \<longrightarrow> g = f else m k = Some f"
        using knowsD [of st m j f d] d(1) by auto
    qed
  qed
qed

lemma destroy_fine:
  assumes inv: "store_inv env st" and "objects st i \<noteq> None"
  shows "step_fine env st (store_step tr env dflt (StoreDestroy i) st) (\<lambda>m. m(i := None))"
proof -
  obtain c where c: "objects st i = Some c" using assms(2) by blast
  obtain h' where h': "destroy_held (c, store_heap st) = Returns () h'" "live h' = rest c (store_heap st)" "heap_ok h'"
    by (rule destroy_returns [OF store_invD(6,7) [OF inv c]])
  show ?thesis
  proof (rule step_fineI [OF _ store_remove [OF inv c h'(3,2)]])
    show "store_step tr env dflt (StoreDestroy i) st = Inr (st\<lparr>objects := (objects st)(i := None), store_heap := h'\<rparr>)"
      using c h'(1) by (simp add: object_def)
    fix m j f assume m: "knows st m" and j: "(m(i := None)) j = Some f"
    then have "m j = Some f" "j \<noteq> i" by (auto split: if_splits)
    then show "holds_map (st\<lparr>objects := (objects st)(i := None), store_heap := h'\<rparr>) j f"
      by (intro knows_other [OF m]) simp_all
  qed simp
qed

lemma step_fine_forget:
  assumes "step_fine env st r spec"
  shows "step_fine env st r (\<lambda>m. (spec m)(j := None))"
proof -
  have "knows st' ((spec m)(j := None))" if "knows st' (spec m)" for st' and m
    using that by (simp add: knows_def)
  then show ?thesis using assms unfolding step_fine_def by blast
qed

lemma move_assign_fine:
  assumes inv: "store_inv env st" and "usable st i" and "usable st j"
    and terminates: "store_step tr env dflt (StoreMoveAssign i j) st \<noteq> Inl Aborted"
  shows "step_fine env st (store_step tr env dflt (StoreMoveAssign i j) st) (store_spec dflt (StoreMoveAssign i j))"
proof -
  obtain c where c: "objects st i = Some c" "\<not> broken st i" using assms(2) by (rule usableE)
  obtain d where d: "objects st j = Some d" "\<not> broken st j" using assms(3) by (rule usableE)
  show ?thesis
  proof (cases "i = j")
    case True
    have "store_step tr env dflt (StoreMoveAssign i j) st = Inr st" using True c d(1) by (simp add: object_def)
    then show ?thesis by (rule step_fineI [OF _ inv]) (use True in \<open>auto simp: knows_def\<close>)
  next
    case ij: False
    let ?h = "store_heap st"
    note held = store_invD(6) [OF inv c(1)] and tc = store_invD(8) [OF inv c] and td = store_invD(8) [OF inv d]
    have od: "owns d ?h" using store_invD(6) [OF inv d(1)] by (simp add: held_ok_def)
    have step: "store_step tr env dflt (StoreMoveAssign i j) st = (case move_assign_held tr env d (c, ?h) of
       Returns d (c, h) \<Rightarrow> Inr (put_pair i j (c, d) (st\<lparr>store_heap := h\<rparr>)) | Throws e _ \<Rightarrow> Inl e | Faults e \<Rightarrow> Inl e)"
      using c d ij by (simp add: object_def)
    have spec: "store_spec dflt (StoreMoveAssign i j) = (\<lambda>m. m(i := m j, j := None))" using ij by (simp add: fun_eq_iff)
    have no_abort: "move_assign_held tr env d (c, ?h) \<noteq> Faults Aborted" using terminates step by auto
    show ?thesis
    proof (cases rule: move_assign_cases [OF store_invD(2) [OF inv] held tc od td no_abort])
      case (1 c' d' h')
      define c1 where "c1 = c\<lparr>tab := tab d', block := None, allocator := allocator d\<rparr>"
      define st1 where "st1 = st\<lparr>objects := (objects st)(i \<mapsto> c1), store_heap := h', broken := (broken st)(i := False),
         exceptions := exceptions st\<rparr>"
      have c1: "held_ok (c1, h')" "rest c1 h' = rest c ?h" using 1 by (simp_all add: c1_def held_ok_def owns_def rest_def)
      have "store_inv env st1"
        unfolding st1_def by (rule store_update [OF inv c(1) c1(1)]) (use c1(2) 1(9) in \<open>simp_all add: c1_def table_okD(1)\<close>)
      moreover have "objects st1 i = Some c1" "\<not> broken st1 i" "objects st1 j = Some d" "\<not> broken st1 j"
        using d ij by (simp_all add: st1_def)
      ultimately have fine: "step_fine env st1 (Inr (put_pair i j (c', d') st1)) (\<lambda>m. m(i := m j, j := m i))"
        using 1 by (intro exchange_fine [where c = c1 and d = d] ij) (simp_all add: c1_def)
      have pair: "put_pair i j (c', d') st1 = put_pair i j (c', d') (st\<lparr>store_heap := h'\<rparr>)"
        by (simp add: put_pair_def st1_def)
      have inv2: "store_inv env (put_pair i j (c', d') (st\<lparr>store_heap := h'\<rparr>))"
        using fine unfolding step_fine_def pair by auto
      show ?thesis
        unfolding spec
      proof (rule step_fineI [OF _ inv2])
        show "store_step tr env dflt (StoreMoveAssign i j) st = Inr (put_pair i j (c', d') (st\<lparr>store_heap := h'\<rparr>))"
          using step 1(1) by simp
        fix m k f assume m: "knows st m" and k: "(m(i := m j, j := None)) k = Some f"
        show "holds_map (put_pair i j (c', d') (st\<lparr>store_heap := h'\<rparr>)) k f"
        proof (cases "k = i")
          case True
          then have "assoc (tab d) = f" using k ij knowsD [OF m _ d(1)] by simp
          then show ?thesis using True ij 1(3) by (simp add: holds_map_def put_pair_def)
        next
          case False
          then show ?thesis using k by (intro knows_other [OF m]) (auto simp: put_pair_def split: if_splits)
        qed
      qed (simp add: put_pair_def)
    next
      case 2
      let ?p = "(c\<lparr>tab := tab d, block := block d\<rparr>, d\<lparr>tab := tab c, block := block c\<rparr>)"
      have "step_fine env st (Inr (put_pair i j ?p st)) (\<lambda>m. m(i := m j, j := m i))"
        by (rule exchange_fine [OF inv c d ij]) (use 2(2) in simp_all)
      moreover have "store_step tr env dflt (StoreMoveAssign i j) st = Inr (put_pair i j ?p st)" using step 2(1) by simp
      ultimately show ?thesis unfolding spec using step_fine_forget [of env st _ "\<lambda>m. m(i := m j, j := m i)" j] by simp
    next
      case (3 u s')
      obtain c' h' where s': "s' = (c', h')" by (cases s')
      define st1 where "st1 = st\<lparr>objects := (objects st)(i \<mapsto> c'), store_heap := h', broken := (broken st)(i := False),
         exceptions := exceptions st\<rparr>"
      have a: "held_ok (c', h')" "rest c' h' = rest c ?h" "table_ok env (tab c')" using 3(2) s' by (simp_all add: assigned_def)
      have inv1: "store_inv env st1"
        unfolding st1_def by (rule store_update [OF inv c(1) a(1)]) (use a in \<open>simp_all add: table_okD(1)\<close>)
      have j1: "objects st1 j = Some d" using d ij by (simp add: st1_def)
      note held1 = store_invD(6) [OF inv1 j1]
      have cleared: "tracks_unit (d, h') (clear_held (d, h')) (Inr u)" using clear_tracks [of "(d, h')"] held1 3(4) by (simp add: st1_def)
      have "clear_held (d, h') = Returns () (d\<lparr>tab := u\<rparr>, h')" using 3(4) by (simp add: clear_held_def on_table_def)
      then have d1: "held_ok (d\<lparr>tab := u\<rparr>, h')" "rest (d\<lparr>tab := u\<rparr>) h' = rest d h'"
        using cleared by (simp_all add: same_rest_def)
      have u: "table_ok env u" using clear_correct [OF td] 3(4) by auto
      have "store_inv env (st1\<lparr>objects := (objects st1)(j \<mapsto> d\<lparr>tab := u\<rparr>), store_heap := h', broken := (broken st1)(j := False),
         exceptions := exceptions st\<rparr>)"
        by (rule store_update [OF inv1 j1 d1(1)]) (use d1(2) u in \<open>simp_all add: st1_def table_okD(1)\<close>)
      moreover have "st1\<lparr>objects := (objects st1)(j \<mapsto> d\<lparr>tab := u\<rparr>), store_heap := h', broken := (broken st1)(j := False),
         exceptions := exceptions st\<rparr> = put_pair i j (c', d\<lparr>tab := u\<rparr>) (st\<lparr>store_heap := h'\<rparr>)"
        using d(2) by (auto simp: st1_def put_pair_def fun_eq_iff)
      ultimately have inv2: "store_inv env (put_pair i j (c', d\<lparr>tab := u\<rparr>) (st\<lparr>store_heap := h'\<rparr>))" by simp
      show ?thesis
        unfolding spec
      proof (rule step_fineI [OF _ inv2])
        show "store_step tr env dflt (StoreMoveAssign i j) st = Inr (put_pair i j (c', d\<lparr>tab := u\<rparr>) (st\<lparr>store_heap := h'\<rparr>))"
          using step 3(1) s' by simp
        fix m k f assume m: "knows st m" and k: "(m(i := m j, j := None)) k = Some f"
        show "holds_map (put_pair i j (c', d\<lparr>tab := u\<rparr>) (st\<lparr>store_heap := h'\<rparr>)) k f"
        proof (cases "k = i")
          case True
          then have "assoc (tab d) = f" using k ij knowsD [OF m _ d(1)] by simp
          moreover have "assoc (tab c') = assoc (tab d)"
            using assoc_same [OF store_invD(1) [OF inv] td, of "tab c'"] 3(3) s' by simp
          ultimately show ?thesis using True ij by (simp add: holds_map_def put_pair_def)
        next
          case False
          then show ?thesis using k by (intro knows_other [OF m]) (auto simp: put_pair_def split: if_splits)
        qed
      qed (simp add: put_pair_def)
    qed
  qed
qed

section \<open>Every call\<close>

lemma store_step_fine:
  assumes inv: "store_inv env st" and ok: "store_allowed tr env dflt st c"
  shows "step_fine env st (store_step tr env dflt c st) (store_spec dflt c)"
proof (cases c)
  case (StoreNew i a p)
  then show ?thesis using new_fine [OF inv, of i a p] ok by (simp add: store_spec_funs)
next
  case (StoreNewSized i a p n)
  then show ?thesis using sized_fine [OF inv, of i n a p] ok by (simp add: store_spec_funs)
next
  case (StoreNewRange i a p vs n)
  then show ?thesis using range_fine [OF inv, of i n a p vs] ok by (simp add: store_spec_funs)
next
  case (StoreNewList i a p vs n)
  then show ?thesis using list_fine [OF inv, of i n vs a p] ok by (simp add: store_spec_funs)
next
  case (StoreCopy i j)
  then have "usable st j" "objects st i = None" using ok by simp_all
  then show ?thesis using copy_fine [OF inv, of i j] StoreCopy by (auto elim!: usableE simp: object_def store_spec_funs)
next
  case (StoreCopyWith i j a)
  then have "usable st j" "objects st i = None" using ok by simp_all
  then show ?thesis using copy_fine [OF inv, of i j] StoreCopyWith by (auto elim!: usableE simp: object_def store_spec_funs)
next
  case (StoreMove i j)
  then have "usable st j" "objects st i = None" using ok by simp_all
  then show ?thesis using move_fine [OF inv, of i j] StoreMove
    by (auto elim!: usableE simp: object_def store_spec_funs move_construct_held_def simp del: swap_pointers_held)
next
  case (StoreMoveWith i j a)
  then have "usable st j" "objects st i = None" "map_option allocator (objects st j) = Some a" using ok by simp_all
  then show ?thesis using move_fine [OF inv, of i j] StoreMoveWith
    by (auto elim!: usableE simp: object_def store_spec_funs move_construct_alloc_def simp del: swap_pointers_held)
next
  case (StoreCopyAssign i j)
  then have "objects st i \<noteq> None" "usable st j" using ok by simp_all
  from copy_assign_fine [OF inv this] show ?thesis unfolding StoreCopyAssign store_spec_funs .
next
  case (StoreMoveAssign i j)
  then have "usable st i" "usable st j" "store_step tr env dflt (StoreMoveAssign i j) st \<noteq> Inl Aborted"
    using ok by (auto simp del: store_step.simps)
  from move_assign_fine [OF inv this] show ?thesis unfolding StoreMoveAssign .
next
  case (StoreSwap i j)
  then have "usable st i" "usable st j" "i \<noteq> j" "propagate_swap tr \<or> same_allocator st i j" using ok by simp_all
  from swap_fine [OF inv this] show ?thesis unfolding StoreSwap store_spec_funs .
next
  case (StoreDestroy i)
  then have "objects st i \<noteq> None" using ok by simp
  from destroy_fine [OF inv this] show ?thesis unfolding StoreDestroy store_spec_funs .
next
  case (StoreCall i m)
  then have "call_ok m" "usable st i \<or> objects st i \<noteq> None \<and> m = CallClear" using ok by simp_all
  from call_fine [OF inv this] show ?thesis unfolding StoreCall .
qed

interpretation store: safe_machine "store_step tr env dflt" "store_allowed tr env dflt" "store_inv env"
proof
  fix st c assume "store_inv env st" and "store_allowed tr env dflt st c"
  from store_step_fine [OF this] show "\<exists>st'. store_step tr env dflt c st = Inr st' \<and> store_inv env st'"
    unfolding step_fine_def by blast
qed

text \<open>The calls that do not throw, against maps as values.\<close>

definition store_quiet ::
  "alloc_traits \<Rightarrow> ('k, 'k \<times> 'v) hash_env \<Rightarrow> 'v \<Rightarrow> ('k \<times> 'v) hash_store \<Rightarrow> ('k, 'v) store_call \<Rightarrow> bool" where
  "store_quiet tr env dflt st c \<longleftrightarrow> store_allowed tr env dflt st c
     \<and> (case store_step tr env dflt c st of Inr st' \<Rightarrow> exceptions st' = exceptions st | Inl _ \<Rightarrow> True)"

lemma put_pair_broken: "exceptions (put_pair i j p st) = exceptions st" "broken (put_pair i j p st) k \<longleftrightarrow> k \<noteq> i \<and> broken st k"
  by (simp_all add: put_pair_def split: prod.split)

lemma construct_in_broken:
  "construct_in i r st = Inr st' \<Longrightarrow> exceptions st' = exceptions st \<Longrightarrow> broken st' k \<Longrightarrow> broken st k"
  by (auto simp: construct_in_def split: outcome.splits if_splits)

lemma update_in_broken:
  "update_in i r st = Inr st' \<Longrightarrow> exceptions st' = exceptions st \<Longrightarrow> broken st' k \<Longrightarrow> broken st k"
  by (auto simp: update_in_def split: outcome.splits if_splits)

lemma quiet_unbroken:
  assumes "store_step tr env dflt c st = Inr st'" and "exceptions st' = exceptions st" and "broken st' i"
  shows "broken st i"
proof (cases c)
  case (StoreDestroy j)
  then obtain d where "object st j = Inr d" using assms(1) by (auto simp: bindE_eq_Inr)
  then show ?thesis using StoreDestroy assms by (cases "destroy_held (d, store_heap st)") auto
qed (use assms in \<open>auto simp: bindE_eq_Inr put_pair_broken intro: construct_in_broken update_in_broken
      split: if_splits outcome.splits\<close>)

definition store_rel :: "('k, 'k \<times> 'v) hash_env \<Rightarrow> ('k \<times> 'v) hash_store \<Rightarrow> ('k, 'v) map_values \<Rightarrow> bool" where
  "store_rel env st m \<longleftrightarrow> store_inv env st \<and> knows st m \<and> (\<forall>i. \<not> broken st i)"

interpretation store_values: simulation "store_step tr env dflt" "store_quiet tr env dflt" "store_spec dflt" "store_rel env"
proof
  fix st m c assume r: "store_rel env st m" and "store_quiet tr env dflt st c"
  then have "store_allowed tr env dflt st c" and quiet: "case store_step tr env dflt c st of Inr st' \<Rightarrow> exceptions st' = exceptions st | Inl _ \<Rightarrow> True"
    by (simp_all add: store_quiet_def)
  with store_step_fine r obtain st' where st': "store_step tr env dflt c st = Inr st'" "store_inv env st'"
      "exceptions st' = exceptions st" "knows st' (store_spec dflt c m)"
    by (fastforce simp: step_fine_def store_rel_def)
  moreover have "\<not> broken st' i" for i using quiet_unbroken [OF st'(1,3)] r by (auto simp: store_rel_def)
  ultimately show "\<exists>st'. store_step tr env dflt c st = Inr st' \<and> store_rel env st' (store_spec dflt c m)"
    by (auto simp: store_rel_def)
qed

lemma empty_store_rel: "map_env env \<Longrightarrow> store_rel env empty_store (\<lambda>_. None)"
  by (simp add: store_rel_def empty_store_inv knows_def) (simp add: empty_store_def)

end
