(* ===== verification/FlatHashMap.thy ===== *)
theory FlatHashMap
  imports HashMapProps
begin

text \<open>
  The properties of the hash map \<^verbatim>\<open>src/usockets-tcp/flat_hash_map.h\<close> as its client sees it, with
  concrete runs, and the request that is too large for it.
\<close>

section \<open>Sample runs\<close>

definition sample_hash_env :: "(nat, nat \<times> nat) hash_env" where
  "sample_hash_env = \<lparr>key_of = fst, hasher = of_nat, can_allocate = (\<lambda>n. n \<le> 1048576)\<rparr>"

definition sample_calls :: "(nat, nat) hash_call list" where
  "sample_calls = [CallEmplace 1 10, CallAssign 1 20, CallEmplace 2 5, CallErase 2]"

lemma sample_env_ok: "map_env sample_hash_env"
proof -
  have "unat n \<le> 2 ^ 47" if "n \<le> 1048576" for n :: u64
    using that by (simp add: word_le_nat_alt)
  then show ?thesis by (simp add: map_env_def alloc_ok_def sample_hash_env_def)
qed

lemma sample_calls_ok: "c \<in> set sample_calls \<Longrightarrow> call_ok c"
  by (auto simp: sample_calls_def)

lemma sample_allocates:
  "admissible (hash_step sample_hash_env 0) (\<lambda>t c. hash_step sample_hash_env 0 c t \<noteq> Inl BadAlloc)
     (new_table (Fibonacci 63)) sample_calls"
  by code_simp

lemma sample_admissible:
  "admissible (hash_step sample_hash_env 0) (hash_ok sample_hash_env 0) (new_table (Fibonacci 63)) sample_calls"
  using admissible_conj [OF sample_calls_ok sample_allocates] by (simp add: hash_ok_def [abs_def])

lemma sample_reached:
  obtains t where "run (hash_step sample_hash_env 0) sample_calls (new_table (Fibonacci 63)) = Inr t" "assoc t = [1 \<mapsto> 20]"
    "table_ok sample_hash_env t"
proof -
  have "fold (hash_spec 0) sample_calls Map.empty = [1 \<mapsto> 20]" by (auto simp: sample_calls_def fun_eq_iff)
  with hash.run_simulates [OF new_table_rel [OF sample_env_ok] sample_admissible] that show thesis
    by (auto simp: hash_rel_def)
qed

section \<open>Runs of a client\<close>

text \<open>
  C3. A hash map is a map. After any sequence of insertions, assignments, subscriptions,
  erasures, clears, rehashes, reservations, shrinks and changes of the load factor, under each of
  the hash policies, as long as no allocation fails, the table holds exactly what a finite map
  would: its size is the number of keys, iteration visits every pair once, and \<^verbatim>\<open>at\<close> returns the
  value of a key or throws \<^verbatim>\<open>std::out_of_range\<close>.
\<close>

theorem hash_map_refines:
  assumes "map_env env" and "admissible (hash_step env dflt) (hash_ok env dflt) (new_table p) cs"
  shows "\<exists>t vs. run (hash_step env dflt) cs (new_table p) = Inr t
     \<and> assoc t = fold (hash_spec dflt) cs Map.empty
     \<and> unat (num_elements t) = card (dom (assoc t))
     \<and> elements t = Inr vs \<and> distinct (map fst vs) \<and> map_of vs = assoc t
     \<and> (\<forall>k. at_key env k t = (case assoc t k of None \<Rightarrow> Inl OutOfRange | Some v \<Rightarrow> Inr v))"
proof -
  obtain t where t: "run (hash_step env dflt) cs (new_table p) = Inr t"
      "hash_rel env t (fold (hash_spec dflt) cs Map.empty)"
    using hash.run_simulates [OF new_table_rel [OF assms(1)] assms(2)] by blast
  then have ok: "table_ok env t" by (simp add: hash_rel_def)
  then show ?thesis
    using t num_elements_card [OF assms(1) ok] elements_stored [OF table_okD(1) [OF ok]]
      map_table_distinct [OF assms(1) ok] at_assoc [OF assms(1) ok]
    by (intro exI [of _ t] exI [of _ "stored t"]) (simp add: hash_rel_def assoc_def)
qed

theorem hash_map_refines_witness:
  "\<exists>t. run (hash_step sample_hash_env 0) sample_calls (new_table (Fibonacci 63)) = Inr t
     \<and> assoc t = [1 \<mapsto> 20] \<and> at_key sample_hash_env 2 t = Inl OutOfRange"
proof -
  have "fold (hash_spec 0) sample_calls Map.empty = [1 \<mapsto> 20]"
    by (auto simp: sample_calls_def fun_eq_iff)
  with hash_map_refines [OF sample_env_ok sample_admissible] show ?thesis by fastforce
qed

lemma hash_run_cases:
  assumes "map_env env" and "table_ok env t" and "\<And>c. c \<in> set cs \<Longrightarrow> call_ok c"
  shows "run (hash_step env dflt) cs t = Inl BadAlloc \<or>
    (\<exists>t'. run (hash_step env dflt) cs t = Inr t' \<and> table_ok env t')"
  using assms(2,3)
proof (induction cs arbitrary: t)
  case Nil
  then show ?case by simp
next
  case (Cons c cs)
  then have "call_ok c" by simp
  from hash_step_cases [OF assms(1) Cons.prems(1) this, of dflt]
  show ?case
  proof (elim disjE exE conjE)
    fix t' assume "hash_step env dflt c t = Inr t'" "table_ok env t'"
    then show ?thesis using Cons.IH [of t'] Cons.prems(2) by simp
  qed simp
qed

lemma new_table_valid: "map_env env \<Longrightarrow> table_ok env (new_table p)"
  using new_table_rel [of env p] by (simp add: hash_rel_def)

text \<open>
  C14. Every call returns or throws \<^verbatim>\<open>std::bad_alloc\<close>: no sequence of calls, with any hash
  function, however bad, runs into an endless growth of the table, reads or writes outside of its
  entries, or touches an entry whose value has not been constructed. The recursion of \<^verbatim>\<open>emplace\<close>
  through \<^verbatim>\<open>rehash\<close> is at most 64 deep, since each level at least doubles the table.
\<close>

theorem hash_map_returns:
  assumes "map_env env" and "\<And>c. c \<in> set cs \<Longrightarrow> call_ok c"
  shows "run (hash_step env dflt) cs (new_table p) = Inl BadAlloc \<or>
    (\<exists>t. run (hash_step env dflt) cs (new_table p) = Inr t)"
  using hash_run_cases [OF assms(1) new_table_valid [OF assms(1)] assms(2)] by blast

theorem hash_map_returns_witness:
  "\<exists>t. run (hash_step sample_hash_env 0) sample_calls (new_table (Fibonacci 63)) = Inr t"
proof -
  have "run (hash_step sample_hash_env 0) sample_calls (new_table (Fibonacci 63)) \<noteq> Inl BadAlloc"
    by (rule sample_reached) simp
  then show ?thesis using hash_map_returns [OF sample_env_ok sample_calls_ok] by blast
qed

text \<open>
  C30. The entries of a table are well typed in every state a client can reach: there are
  \<^verbatim>\<open>num_slots_minus_one + max_lookups\<close> of them and the sentinel; \<^verbatim>\<open>max_lookups\<close> and every distance
  fit their \<^verbatim>\<open>int8_t\<close>; a value is live exactly when its entry says so; and it is stored as far
  behind the slot of its key as the entry says, which is less than \<^verbatim>\<open>max_lookups\<close>.
\<close>

theorem hash_entries_typed:
  assumes "map_env env" and "\<And>c. c \<in> set cs \<Longrightarrow> call_ok c"
    and "run (hash_step env dflt) cs (new_table p) = Inr t"
  shows "length (entries t) = unat (num_slots_minus_one t) + nat (max_lookups t) + 1
     \<and> entries t ! end_index t = end_entry \<and> 0 < max_lookups t \<and> max_lookups t \<le> 63
     \<and> (\<forall>q < end_index t. -1 \<le> dst (entries t) q \<and> dst (entries t) q < max_lookups t
          \<and> (has_value (entries t ! q) \<longleftrightarrow> val (entries t) q \<noteq> None)
          \<and> (\<forall>k v. val (entries t) q = Some (k, v) \<longrightarrow> int q = int (unat (bucket env k t)) + dst (entries t) q))"
proof -
  have ok: "table_ok env t"
    using hash_run_cases [OF assms(1) new_table_valid [OF assms(1)] assms(2), of cs dflt p] assms(3) by auto
  note store = table_okD(1) [OF ok] and robin = table_okD(2) [OF ok]
  note s = store_okD [OF store]
  have "int q = int (unat (bucket env k t)) + dst (entries t) q"
    if "q < end_index t" "val (entries t) q = Some (k, v)" for q k v
  proof -
    have "int q = int (home env t (k, v)) + dst (entries t) q"
      using robin that s(4) end_index [OF store] by (simp add: robin_def placed_def)
    then show ?thesis using assms(1) by (simp add: home_def)
  qed
  moreover have "has_value (entries t ! q) \<longleftrightarrow> val (entries t) q \<noteq> None" if "q < end_index t" for q
    using shapeD [OF s(1), of q] that end_index [OF store] by (auto simp: has_value_def)
  ultimately show ?thesis
    using s(2-4) shape_end [OF s(1)] shapeD(1,2) [OF s(1)] end_index [OF store] by simp
qed

theorem hash_entries_typed_witness:
  "\<exists>t. run (hash_step sample_hash_env 0) sample_calls (new_table (Fibonacci 63)) = Inr t \<and> max_lookups t \<le> 63"
proof -
  have "\<exists>t. run (hash_step sample_hash_env 0) sample_calls (new_table (Fibonacci 63)) = Inr t"
    by (rule sample_reached) blast
  then show ?thesis using hash_entries_typed [OF sample_env_ok sample_calls_ok] by blast
qed

section \<open>Comparison, copies, ranges\<close>

lemma all_equal_in_assoc:
  assumes "map_env env" and "table_ok env t"
  shows "all_equal_in env vs t = Inr (\<forall>(k, v) \<in> set vs. assoc t k = Some v)"
proof (induction vs)
  case Nil
  then show ?case by simp
next
  case (Cons x vs)
  obtain k v where x: "x = (k, v)" by (cases x)
  show ?case
  proof (cases rule: find_assoc [OF assms, of k])
    case 1
    then show ?thesis by (simp add: x)
  next
    case (2 p w)
    then have "deref t p = Inr (k, w)"
      using end_index [OF table_okD(1) [OF assms(2)]] by (intro deref_value) simp_all
    then show ?thesis using 2 Cons by (simp add: x)
  qed
qed

lemma equal_maps:
  assumes "map_env env" and "table_ok env t" and "table_ok env u"
  shows "map_equal env t u = Inr (assoc t = assoc u)"
proof -
  have inj: "num_elements t = num_elements u \<longleftrightarrow> card (dom (assoc t)) = card (dom (assoc u))"
    unfolding word_unat_eq_iff num_elements_card [OF assms(1,2)] num_elements_card [OF assms(1,3)] by (rule refl)
  show ?thesis
  proof (cases "num_elements t = num_elements u")
    case False
    then have "assoc t \<noteq> assoc u" using inj by auto
    with False show ?thesis by (simp add: map_equal_def)
  next
    case True
    have "(\<forall>(k, v) \<in> set (stored t). assoc u k = Some v) \<longleftrightarrow> assoc t \<subseteq>\<^sub>m assoc u"
    proof -
      have "(\<forall>(k, v) \<in> set (stored t). assoc u k = Some v) \<longleftrightarrow> (\<forall>k v. assoc t k = Some v \<longrightarrow> assoc u k = Some v)"
        using assoc_iff [OF assms(1,2)] by auto
      also have "\<dots> \<longleftrightarrow> assoc t \<subseteq>\<^sub>m assoc u" by (auto simp: map_le_def dom_def)
      finally show ?thesis .
    qed
    moreover have "assoc t = assoc u" if "assoc t \<subseteq>\<^sub>m assoc u"
    proof -
      have "dom (assoc t) = dom (assoc u)"
        using map_le_implies_dom_le [OF that] inj True by (intro card_subset_eq) (simp_all add: assoc_dom)
      then show ?thesis using that by (intro map_le_antisym) (auto simp: map_le_def)
    qed
    ultimately show ?thesis
      using True elements_stored [OF table_okD(1) [OF assms(2)]] all_equal_in_assoc [OF assms(1,3)]
      by (auto simp: map_equal_def)
  qed
qed

text \<open>
  C15. \<^verbatim>\<open>operator==\<close> decides the equality of the maps, whatever the layouts of the two tables: it
  compares the sizes and looks up every pair of the one in the other.
\<close>

theorem map_equal_correct:
  assumes "map_env env" and "\<And>c. c \<in> set (cs @ ds) \<Longrightarrow> call_ok c"
    and "run (hash_step env dflt) cs (new_table p) = Inr t" and "run (hash_step env dflt) ds (new_table q) = Inr u"
  shows "map_equal env t u = Inr (assoc t = assoc u)"
proof -
  have "table_ok env t"
    using hash_run_cases [OF assms(1) new_table_valid [OF assms(1)], of cs dflt p] assms(2,3) by auto
  moreover have "table_ok env u"
    using hash_run_cases [OF assms(1) new_table_valid [OF assms(1)], of ds dflt q] assms(2,4) by auto
  ultimately show ?thesis by (rule equal_maps [OF assms(1)])
qed

lemma sample_single:
  obtains u where "run (hash_step sample_hash_env 0) [CallAssign 1 20] (new_table PowerOfTwo) = Inr u" "assoc u = [1 \<mapsto> 20]"
proof -
  have "admissible (hash_step sample_hash_env 0) (hash_ok sample_hash_env 0) (new_table PowerOfTwo) [CallAssign 1 20]"
    by code_simp
  from hash.run_simulates [OF new_table_rel [OF sample_env_ok] this] that show thesis
    by (auto simp: hash_rel_def simp del: run.simps)
qed

theorem map_equal_correct_witness:
  "\<exists>t u. run (hash_step sample_hash_env 0) sample_calls (new_table (Fibonacci 63)) = Inr t
     \<and> run (hash_step sample_hash_env 0) [CallAssign 1 20] (new_table PowerOfTwo) = Inr u
     \<and> map_equal sample_hash_env t u = Inr True"
proof -
  obtain t where t: "run (hash_step sample_hash_env 0) sample_calls (new_table (Fibonacci 63)) = Inr t" "assoc t = [1 \<mapsto> 20]"
    by (rule sample_reached)
  obtain u where u: "run (hash_step sample_hash_env 0) [CallAssign 1 20] (new_table PowerOfTwo) = Inr u" "assoc u = [1 \<mapsto> 20]"
    by (rule sample_single)
  have "call_ok c" if "c \<in> set (sample_calls @ [CallAssign 1 20])" for c using that sample_calls_ok by auto
  then have "map_equal sample_hash_env t u = Inr (assoc t = assoc u)"
    by (rule map_equal_correct [OF sample_env_ok _ t(1) u(1)])
  with t u show ?thesis by auto
qed

text \<open>
  A copy of a map is a valid table with the same pairs, which compares equal to the
  original, if the allocations succeed.
\<close>

theorem hash_copy_correct:
  assumes "map_env env" and "\<And>c. c \<in> set cs \<Longrightarrow> call_ok c"
    and "run (hash_step env dflt) cs (new_table p) = Inr t"
  shows "copy_construct env t = Inl BadAlloc \<or>
    (\<exists>u. copy_construct env t = Inr u \<and> assoc u = assoc t \<and> map_equal env u t = Inr True
       \<and> max_load_factor u = max_load_factor t)"
proof -
  have ok: "table_ok env t"
    using hash_run_cases [OF assms(1) new_table_valid [OF assms(1)] assms(2), of cs dflt p] assms(3) by auto
  from copy_correct [OF ok map_envD(1) [OF assms(1)]] show ?thesis
  proof (elim disjE exE conjE)
    fix u assume u: "copy_construct env t = Inr u" "table_ok env u" "contents u = contents t"
      "max_load_factor u = max_load_factor t"
    then have "assoc u = assoc t" by (intro assoc_same [OF assms(1) ok])
    then show ?thesis using u equal_maps [OF assms(1) u(2) ok] by simp
  qed simp
qed

theorem hash_copy_correct_witness:
  "\<exists>t u. run (hash_step sample_hash_env 0) sample_calls (new_table (Fibonacci 63)) = Inr t
     \<and> copy_construct sample_hash_env t = Inr u \<and> assoc u = [1 \<mapsto> 20]"
proof -
  obtain t where t: "run (hash_step sample_hash_env 0) sample_calls (new_table (Fibonacci 63)) = Inr t" "assoc t = [1 \<mapsto> 20]"
    by (rule sample_reached)
  have "case run (hash_step sample_hash_env 0) sample_calls (new_table (Fibonacci 63)) of Inl _ \<Rightarrow> False
     | Inr t \<Rightarrow> copy_construct sample_hash_env t \<noteq> Inl BadAlloc"
    by code_simp
  then have "copy_construct sample_hash_env t \<noteq> Inl BadAlloc" by (simp add: t(1))
  with hash_copy_correct [OF sample_env_ok sample_calls_ok t(1)] t show ?thesis by auto
qed

text \<open>
  C19. \<^verbatim>\<open>erase\<close> of a range of iterators removes the keys of the range and no others.
\<close>

theorem hash_erase_range_correct:
  assumes "map_env env" and "\<And>c. c \<in> set cs \<Longrightarrow> call_ok c"
    and "run (hash_step env dflt) cs (new_table p) = Inr t" and "b \<le> e" and "e \<le> end_index t"
  shows "\<exists>r t'. erase_range b e t = Inr (r, t') \<and> table_ok env t'
     \<and> assoc t' = assoc t |` {k. \<forall>q v. b \<le> q \<longrightarrow> q < e \<longrightarrow> val (entries t) q \<noteq> Some (k, v)}"
proof -
  have ok: "table_ok env t"
    using hash_run_cases [OF assms(1) new_table_valid [OF assms(1)] assms(2), of cs dflt p] assms(3) by auto
  let ?vs = "values_of (take (e - b) (drop b (entries t)))"
  obtain r t' where r: "erase_range b e t = Inr (r, t')" "table_ok env t'" "contents t = contents t' + mset ?vs"
    using erase_range_correct [OF ok assms(4,5)] by blast
  have len: "e \<le> length (entries t)" using assms(5) end_index [OF table_okD(1) [OF ok]] by simp
  have range: "(k, v) \<in> set ?vs \<longleftrightarrow> (\<exists>q. b \<le> q \<and> q < e \<and> val (entries t) q = Some (k, v))" for k v
  proof -
    have "(k, v) \<in> set ?vs \<longleftrightarrow> (\<exists>i < e - b. val (entries t) (b + i) = Some (k, v))"
      unfolding set_values_of using len by auto
    also have "\<dots> \<longleftrightarrow> (\<exists>q. b \<le> q \<and> q < e \<and> val (entries t) q = Some (k, v))"
      by (metis add.commute le_add1 le_add_diff_inverse less_diff_conv)
    finally show ?thesis .
  qed
  have "mset (stored t) = mset (stored t' @ ?vs)" using r(3) by simp
  then have split: "assoc t = map_of (stored t' @ ?vs)"
    using map_of_mset map_table_distinct [OF assms(1) ok] by (metis assoc_def)
  have "mset (map fst (stored t)) = mset (map fst (stored t' @ ?vs))" using r(3) by simp
  then have "distinct (map fst (stored t' @ ?vs))" using map_table_distinct [OF assms(1) ok] mset_eq_imp_distinct_iff by blast
  then have "dom (map_of ?vs) \<inter> dom (assoc t') = {}" by (auto simp: assoc_dom dom_map_of_conv_image_fst)
  then have "assoc t' = assoc t |` (- dom (map_of ?vs))"
    unfolding split by (auto simp: fun_eq_iff restrict_map_def map_add_def assoc_def split: option.split)
  moreover have "- dom (map_of ?vs) = {k. \<forall>q v. b \<le> q \<longrightarrow> q < e \<longrightarrow> val (entries t) q \<noteq> Some (k, v)}"
  proof -
    have "k \<in> dom (map_of ?vs) \<longleftrightarrow> (\<exists>v. (k, v) \<in> set ?vs)" for k by (force simp: dom_map_of_conv_image_fst)
    then show ?thesis unfolding range by blast
  qed
  ultimately show ?thesis using r(1,2) by auto
qed

theorem hash_erase_range_correct_witness:
  "\<exists>t r t'. run (hash_step sample_hash_env 0) sample_calls (new_table (Fibonacci 63)) = Inr t
     \<and> erase_range 0 (end_index t) t = Inr (r, t') \<and> assoc t' 1 = None \<and> assoc t 1 = Some 20"
proof -
  obtain t where t: "run (hash_step sample_hash_env 0) sample_calls (new_table (Fibonacci 63)) = Inr t" "assoc t = [1 \<mapsto> 20]"
      "table_ok sample_hash_env t"
    by (rule sample_reached)
  then have "(1, 20) \<in> set (stored t)" using assoc_iff [OF sample_env_ok, of t 1 20] by simp
  then obtain q where q: "q < length (entries t)" "val (entries t) q = Some (1, 20)" by (auto simp: set_values_of)
  then have "q < end_index t"
    using shape_value_bound [OF store_okD(1) [OF table_okD(1) [OF t(3)]]] end_index [OF table_okD(1) [OF t(3)]] by simp
  moreover obtain r t' where "erase_range 0 (end_index t) t = Inr (r, t')"
     "assoc t' = assoc t |` {k. \<forall>q v. 0 \<le> q \<longrightarrow> q < end_index t \<longrightarrow> val (entries t) q \<noteq> Some (k, v)}"
    using hash_erase_range_correct [OF sample_env_ok sample_calls_ok t(1), of 0 "end_index t"] by blast
  moreover have "\<not> (\<forall>q v. 0 \<le> q \<longrightarrow> q < end_index t \<longrightarrow> val (entries t) q \<noteq> Some (1 :: nat, v))"
    using q \<open>q < end_index t\<close> by blast
  ultimately show ?thesis using t by (intro exI [of _ t] exI [of _ r] exI [of _ t']) (simp add: restrict_map_def)
qed

section \<open>A request that is too large\<close>

lemma reinsert_fails:
  assumes "\<And>c. c \<in> set cs \<Longrightarrow> has_value c \<longleftrightarrow> entry_value c \<noteq> None" and "values_of cs \<noteq> []"
    and "\<And>v. v \<in> set (values_of cs) \<Longrightarrow> emp v t = Inl e"
  shows "reinsert emp cs t = Inl e"
  using assms
proof (induction cs)
  case Nil
  then show ?case by simp
next
  case (Cons c cs)
  then show ?case by (cases "entry_value c") (simp_all add: the_value_def)
qed

lemma next_power_of_two_wraps:
  assumes "2 ^ 63 < n"
  shows "next_power_of_two n = 0"
proof -
  have "n \<noteq> 0" using assms by auto
  then obtain j where j: "j \<le> 64" "unat n \<le> 2 ^ j" "next_power_of_two n = 2 ^ j"
    by (rule next_power_of_two_spec)
  have "(2 :: nat) ^ 63 < 2 ^ j" using assms j(2) by (simp add: word_less_nat_alt)
  then have "63 < j" by (rule power_less_imp_less_exp [rotated]) simp
  then have "j = 64" using j(1) by simp
  moreover have "(2 :: u64) ^ 64 = 0" by (rule exp_eq_zero_iff [THEN iffD2]) simp
  ultimately show ?thesis using j(3) by simp
qed

text \<open>
  C33. A request for more than \<open>2\<^sup>6\<^sup>3\<close> slots is not refused: the next power of two wraps to 0,
  and under the power-of-two policy the table gets 63 entries and a mask of all ones, so that to
  put back a value whose hash is at least 63 \<^verbatim>\<open>rehash\<close> reads outside of them.
\<close>

theorem hash_rehash_wraps:
  assumes "table_ok env t" and "hash_policy t = PowerOfTwo" and "num_slots_minus_one t \<noteq> 0"
    and "stored t \<noteq> []" and "\<And>v. v \<in> set (stored t) \<Longrightarrow> 63 \<le> unat (hasher env (key_of env v))"
    and "2 ^ 63 < n" and "can_allocate env 63"
  shows "rehash env n t = Inl OutOfBoundsRead"
proof -
  note store = table_okD(1) [OF assms(1)]
  obtain k where k: "size_of_ceil (ddiv (double_of_u64 (num_elements t)) (max_load_factor t)) = Inr k" "k \<le> 2 ^ 62"
    by (rule needed_bounded [OF store])
  have "k \<le> n" using below_63 [OF k(2)] assms(6) by (meson less_imp_le order_trans)
  then have max: "max n k = n" by (simp add: max_def)
  have nz: "n \<noteq> 0" using assms(6) by auto
  have "unat (bucket_count t) \<noteq> 0" using bucket_count_capacity [OF store] capacity_bound(1) [OF store] assms(3) by simp
  then have count: "bucket_count t \<noteq> 0" by auto
  have lookups: "compute_max_lookups 0 = 63" by code_simp
  define t0 where "t0 = t\<lparr>entries := replicate 62 empty_entry @ [end_entry], num_slots_minus_one := -1,
    hash_policy := commit PowerOfTwo (hash_policy t), max_lookups := 63, num_elements := 0\<rparr>"
  have rehash: "rehash env n t = reinsert (emplace env) (take (length (entries t) - 1) (entries t)) t0"
    using k(1) max nz count lookups assms(2,7) next_power_of_two_wraps [OF assms(6)] old_entries(1) [OF store]
    by (simp add: rehash_def rehash_with_def Let_def pow2_next_size_over_def new_buckets_def t0_def)
  have "emplace env v t0 = Inl OutOfBoundsRead" if "v \<in> set (stored t)" for v
  proof -
    have "unat (bucket env (key_of env v) t0) = unat (hasher env (key_of env v))"
      using assms(2) by (simp add: bucket_def t0_def pow2_index_for_hash_def)
    then have "probe (key_of env) (key_of env v) (entries t0) (unat (bucket env (key_of env v) t0)) 0 = Inl OutOfBoundsRead"
      using assms(5) [OF that] by (subst probe.simps) (simp add: entry_at_def t0_def)
    moreover have "emplace env = emplace_step (emplace_fuel env 63) env"
      by (simp add: emplace_def recursion_bound_def flip: emplace_fuel.simps(2))
    ultimately show ?thesis by (simp add: emplace_step_def)
  qed
  then show ?thesis
    unfolding rehash using old_entries(2,3) [OF store] assms(4) by (intro reinsert_fails) simp_all
qed

theorem hash_rehash_wraps_witness:
  "\<exists>t. run (hash_step sample_hash_env 0) [CallEmplace 100 7] (new_table PowerOfTwo) = Inr t
     \<and> rehash sample_hash_env (2 ^ 63 + 1) t = Inl OutOfBoundsRead"
proof -
  have "admissible (hash_step sample_hash_env 0) (hash_ok sample_hash_env 0) (new_table PowerOfTwo) [CallEmplace 100 7]"
    by code_simp
  from hash.run_simulates [OF new_table_rel [OF sample_env_ok] this]
  obtain t where t: "run (hash_step sample_hash_env 0) [CallEmplace 100 7] (new_table PowerOfTwo) = Inr t"
      "table_ok sample_hash_env t" "assoc t = [100 \<mapsto> 7]"
    by (auto simp: hash_rel_def simp del: run.simps)
  have "case run (hash_step sample_hash_env 0) [CallEmplace 100 7] (new_table PowerOfTwo) of Inl _ \<Rightarrow> False
     | Inr t \<Rightarrow> hash_policy t = PowerOfTwo \<and> num_slots_minus_one t \<noteq> 0"
    by code_simp
  then have p: "hash_policy t = PowerOfTwo" "num_slots_minus_one t \<noteq> 0" unfolding t(1) by simp_all
  have member: "(k, v) \<in> set (stored t) \<longleftrightarrow> k = 100 \<and> v = 7" for k v
    unfolding assoc_iff [OF sample_env_ok t(2), symmetric] t(3) by auto
  then have "stored t \<noteq> []" by (metis empty_iff list.set(1))
  moreover have "63 \<le> unat (hasher sample_hash_env (key_of sample_hash_env x))" if "x \<in> set (stored t)" for x
  proof -
    have "x = (100, 7)" using that member [of "fst x" "snd x"] by (simp add: prod_eq_iff)
    then show ?thesis by (simp add: sample_hash_env_def)
  qed
  moreover have "(2 ^ 63 :: u64) < 2 ^ 63 + 1" by (simp add: word_less_nat_alt)
  moreover have "can_allocate sample_hash_env 63" by (simp add: sample_hash_env_def)
  ultimately show ?thesis using hash_rehash_wraps [OF t(2) p] t(1) by blast
qed

end
