(* ===== verification/HashExceptions.thy ===== *)
theory HashExceptions
  imports HashStoreProps FlatHashMap
begin

text \<open>
  The properties of the hash map with its memory and its exceptions, with concrete runs of a
  client, and what an exception can destroy.
\<close>

section \<open>Sample clients\<close>

text \<open>Two maps that are filled, copied, moved, swapped and destroyed.\<close>

definition sample_store_calls :: "(nat, nat) store_call list" where
  "sample_store_calls =
     [StoreNew 1 0 (Fibonacci 63), StoreCall 1 (CallEmplace 1 10), StoreCopy 2 1, StoreCall 1 (CallAssign 1 20),
      StoreSwap 1 2, StoreMove 3 2, StoreMoveAssign 2 1, StoreDestroy 1]"

lemma sample_store_quiet:
  "admissible (store_step std_traits sample_hash_env 0) (store_quiet std_traits sample_hash_env 0) empty_store
     sample_store_calls"
  by code_simp

lemma sample_store_allowed:
  "admissible (store_step std_traits sample_hash_env 0) (store_allowed std_traits sample_hash_env 0) empty_store
     sample_store_calls"
  by (rule admissible_mono [OF _ sample_store_quiet]) (simp add: store_quiet_def)

text \<open>
  A table of eight slots, in which the values of homes 0, 1 and 2 fill each other's places, on a
  machine that has no array of more than 16 entries.
\<close>

definition tight_env :: "(nat, nat \<times> nat) hash_env" where
  "tight_env = \<lparr>key_of = fst, hasher = of_nat, can_allocate = (\<lambda>n. n \<le> 16)\<rparr>"

definition crowded_calls :: "(nat, nat) store_call list" where
  "crowded_calls = [StoreNew 1 0 PowerOfTwo, StoreCall 1 (CallMaxLoad (Fin 1)), StoreCall 1 (CallRehash 8)] @
     map (\<lambda>k. StoreCall 1 (CallEmplace k 7)) [0, 1, 2, 10, 18, 26]"


lemma tight_env_ok: "map_env tight_env"
proof -
  have "unat n \<le> 2 ^ 47" if "n \<le> 16" for n :: u64
    using that by (simp add: word_le_nat_alt)
  then show ?thesis by (simp add: map_env_def alloc_ok_def tight_env_def)
qed

lemma crowded_allowed:
  "admissible (store_step std_traits tight_env 0) (store_allowed std_traits tight_env 0) empty_store crowded_calls"
  by code_simp

text \<open>The traits of an allocator with a memory resource, as \<^verbatim>\<open>std::pmr::polymorphic_allocator\<close>.\<close>

definition resource_traits :: alloc_traits where
  "resource_traits = \<lparr>propagate_copy = False, propagate_move = False, propagate_swap = False, select_copy = (\<lambda>_. 0)\<rparr>"

text \<open>Map \<open>i\<close> after a run, when the run returns and the map exists.\<close>

definition afterwards ::
  "nat \<Rightarrow> (('k \<times> 'v) hash_store \<Rightarrow> ('k \<times> 'v) container \<Rightarrow> bool) \<Rightarrow> ('k \<times> 'v) hash_store result \<Rightarrow> bool" where
  "afterwards i P r = (case r of
     Inl _ \<Rightarrow> False | Inr st \<Rightarrow> (case objects st i of None \<Rightarrow> False | Some c \<Rightarrow> P st c))"

lemma afterwardsE:
  assumes "afterwards i P r"
  obtains st c where "r = Inr st" and "objects st i = Some c" and "P st c"
  using assms by (auto simp: afterwards_def split: sum.splits option.splits)

section \<open>Memory\<close>

text \<open>
  C16. No call of a client that uses any number of maps, catches every exception and uses no map
  after an exception but to clear it, to assign to it or to destroy it, is undefined. At any time
  the block of each map is live, has the size and the allocator it will be returned with, and is
  no other map's; a map without a block uses the shared static array, which is as it was. As long
  as nothing has been thrown every live block is that of a map, so that destroying the maps
  returns all memory.
\<close>

theorem hash_store_memory_safe:
  assumes "map_env env" and "admissible (store_step tr env dflt) (store_allowed tr env dflt) empty_store cs"
  shows "\<exists>st. run (store_step tr env dflt) cs empty_store = Inr st
     \<and> (\<forall>i c. objects st i = Some c \<longrightarrow> (case block c of
           None \<Rightarrow> entries (tab c) = empty_default_table
         | Some b \<Rightarrow> live (store_heap st) b = Some (allocator c, of_nat (length (entries (tab c))))))
     \<and> (\<forall>i j c d b. objects st i = Some c \<longrightarrow> objects st j = Some d \<longrightarrow> block c = Some b \<longrightarrow> block d = Some b \<longrightarrow> i = j)
     \<and> (exceptions st = 0 \<longrightarrow> (\<forall>b. live (store_heap st) b \<noteq> None \<longrightarrow> (\<exists>i c. objects st i = Some c \<and> block c = Some b)))"
proof -
  obtain st where st: "run (store_step tr env dflt) cs empty_store = Inr st" "store_inv env st"
    using store.run_safe [OF empty_store_inv [OF assms(1)] assms(2)] by blast
  note inv = store_invD [OF st(2)]
  have "case block c of None \<Rightarrow> entries (tab c) = empty_default_table
     | Some b \<Rightarrow> live (store_heap st) b = Some (allocator c, of_nat (length (entries (tab c))))"
    if c: "objects st i = Some c" for i c
  proof -
    note s = store_okD [OF inv(7) [OF c]]
    have "of_nat (length (entries (tab c))) = num_slots_minus_one (tab c) + of_int (max_lookups (tab c)) + 1"
      using s(2,4) by simp
    then show ?thesis using inv(6) [OF c] by (auto simp: held_ok_def owns_def split: option.splits)
  qed
  then show ?thesis
    using st(1) inv(4,5) unfolding apart_def accounted_def by (intro exI [of _ st]) blast
qed

theorem hash_store_memory_safe_witness:
  "\<exists>st. run (store_step std_traits sample_hash_env 0) sample_store_calls empty_store = Inr st
     \<and> (\<forall>b. live (store_heap st) b \<noteq> None \<longrightarrow> (\<exists>i c. objects st i = Some c \<and> block c = Some b))"
proof -
  have "case run (store_step std_traits sample_hash_env 0) sample_store_calls empty_store of
      Inl _ \<Rightarrow> False | Inr st \<Rightarrow> exceptions st = 0"
    by code_simp
  with hash_store_memory_safe [OF sample_env_ok sample_store_allowed] show ?thesis by fastforce
qed

section \<open>Maps as values\<close>

text \<open>
  C17. As long as nothing is thrown, the maps of a client are values: a copy is equal to its
  source and independent of it from then on, a move takes the contents, a swap exchanges them, an
  assignment replaces what was there, and no call on one map changes another. What is left in a
  map that has been moved from by an assignment is not specified (it depends on the allocators).
\<close>

theorem hash_store_refines:
  assumes "map_env env" and "admissible (store_step tr env dflt) (store_quiet tr env dflt) empty_store cs"
  shows "\<exists>st. run (store_step tr env dflt) cs empty_store = Inr st
     \<and> (\<forall>i f. fold (store_spec dflt) cs (\<lambda>_. None) i = Some f \<longrightarrow>
          (\<exists>c. objects st i = Some c \<and> assoc (tab c) = f \<and> unat (num_elements (tab c)) = card (dom f)
             \<and> (\<forall>k. at_key env k (tab c) = (case f k of None \<Rightarrow> Inl OutOfRange | Some v \<Rightarrow> Inr v))))"
proof -
  obtain st where st: "run (store_step tr env dflt) cs empty_store = Inr st"
      "store_rel env st (fold (store_spec dflt) cs (\<lambda>_. None))"
    using store_values.run_simulates [OF empty_store_rel [OF assms(1)] assms(2)] by blast
  then have inv: "store_inv env st" and unbroken: "\<And>i. \<not> broken st i"
      and knows: "knows st (fold (store_spec dflt) cs (\<lambda>_. None))"
    by (simp_all add: store_rel_def)
  have "\<exists>c. objects st i = Some c \<and> assoc (tab c) = f \<and> unat (num_elements (tab c)) = card (dom f)
      \<and> (\<forall>k. at_key env k (tab c) = (case f k of None \<Rightarrow> Inl OutOfRange | Some v \<Rightarrow> Inr v))"
    if f: "fold (store_spec dflt) cs (\<lambda>_. None) i = Some f" for i f
  proof -
    obtain c where c: "objects st i = Some c" "assoc (tab c) = f"
      using knows f unfolding knows_def holds_map_def by blast
    note ok = store_invD(8) [OF inv c(1) unbroken]
    show ?thesis using c at_assoc [OF assms(1) ok] num_elements_card [OF assms(1) ok] by auto
  qed
  with st(1) show ?thesis by blast
qed

theorem hash_store_refines_witness:
  "\<exists>st c. run (store_step std_traits sample_hash_env 0) sample_store_calls empty_store = Inr st
     \<and> objects st 2 = Some c \<and> assoc (tab c) = [1 \<mapsto> 10] \<and> at_key sample_hash_env 2 (tab c) = Inl OutOfRange"
proof -
  have "fold (store_spec 0) sample_store_calls (\<lambda>_. None) 2 = Some [1 \<mapsto> 10]"
    by (simp add: sample_store_calls_def fun_eq_iff)
  with hash_store_refines [OF sample_env_ok sample_store_quiet] obtain st c where
      "run (store_step std_traits sample_hash_env 0) sample_store_calls empty_store = Inr st"
      "objects st 2 = Some c" "assoc (tab c) = [1 \<mapsto> 10]"
      "at_key sample_hash_env 2 (tab c) = (case [1 \<mapsto> 10] (2::nat) of None \<Rightarrow> Inl OutOfRange | Some v \<Rightarrow> Inr v)"
    by metis
  then show ?thesis by simp
qed

section \<open>After an exception\<close>

text \<open>
  C18. What a client finds after a call on a map has thrown. The exception is
  \<^verbatim>\<open>std::bad_alloc\<close>; the map holds some of the values that it held before and no others; its size
  is their number; it can be destroyed; and \<^verbatim>\<open>clear\<close> makes it a table in order again, empty.
\<close>

theorem hash_throw_state:
  assumes "map_env env" and "admissible (store_step tr env dflt) (store_allowed tr env dflt) empty_store cs"
    and "run (store_step tr env dflt) cs empty_store = Inr st" and "objects st i = Some c" and "\<not> broken st i"
    and "call_ok m" and "hash_step_held env dflt m (c, store_heap st) = Throws e (c', h')"
  shows "e = BadAlloc \<and> contents (tab c') \<subseteq># contents (tab c)
     \<and> unat (num_elements (tab c')) = size (contents (tab c'))
     \<and> (\<exists>h''. destroy_held (c', h') = Returns () h'')
     \<and> (\<exists>c'' h''. clear_held (c', h') = Returns () (c'', h'') \<and> table_ok env (tab c'') \<and> contents (tab c'') = {#})"
proof -
  have inv: "store_inv env st"
    using store.run_safe [OF empty_store_inv [OF assms(1)] assms(2)] assms(3) by auto
  have held: "held_ok (c, store_heap st)" and tab: "table_ok env (tab (fst (c, store_heap st)))"
    using store_invD(6) [OF inv assms(4)] store_invD(8) [OF inv assms(4,5)] by simp_all
  have s: "e = BadAlloc" "may_leak (c, store_heap st) (c', h')" "store_ok env (tab c')" "contents (tab c') \<subseteq># contents (tab c)"
    using assms(7) by (cases rule: hash_step_held_cases [OF assms(1) held tab assms(6), of dflt]; simp)+
  then have held': "held_ok (c', h')" by (simp add: may_leak_def)
  obtain h'' where "destroy_held (c', h') = Returns () h''" by (rule destroy_returns [OF held' s(3)])
  moreover obtain s' where "clear_held (c', h') = Returns () s'" "table_ok env (tab (fst s'))" "contents (tab (fst s')) = {#}"
    using clear_held_returns [OF held'] s(3) by (metis fst_conv)
  ultimately show ?thesis using s store_okD(7) [OF s(3)] by (cases s') simp
qed

theorem hash_throw_state_witness:
  "\<exists>st c c' h'. run (store_step std_traits tight_env 0) crowded_calls empty_store = Inr st \<and> objects st 1 = Some c
     \<and> hash_step_held tight_env 0 (CallEmplace 8 7) (c, store_heap st) = Throws BadAlloc (c', h')
     \<and> contents (tab c') \<subseteq># contents (tab c) \<and> (\<exists>h''. destroy_held (c', h') = Returns () h'')"
proof -
  have "afterwards 1 (\<lambda>st c. \<not> broken st 1 \<and> (case hash_step_held tight_env 0 (CallEmplace 8 7) (c, store_heap st) of
      Throws e s \<Rightarrow> True | _ \<Rightarrow> False)) (run (store_step std_traits tight_env 0) crowded_calls empty_store)"
    by code_simp
  then obtain st c where st: "run (store_step std_traits tight_env 0) crowded_calls empty_store = Inr st" "objects st 1 = Some c"
      "\<not> broken st 1" and "case hash_step_held tight_env 0 (CallEmplace 8 7) (c, store_heap st) of Throws e s \<Rightarrow> True | _ \<Rightarrow> False"
    by (rule afterwardsE) blast
  then obtain e c' h' where "hash_step_held tight_env 0 (CallEmplace 8 7) (c, store_heap st) = Throws e (c', h')"
    by (auto split: outcome.splits)
  with hash_throw_state [OF tight_env_ok crowded_allowed st _ this] st show ?thesis by fastforce
qed



section \<open>Allocators\<close>

text \<open>
  C36. The move constructor with an allocator argument takes the memory of its source, whatever
  the two allocators are. When they differ, a map that has allocated is moved to a map that
  returns the block to the wrong allocator: destroying it is undefined.
\<close>

theorem hash_move_alloc_mismatch:
  assumes "map_env env" and "admissible (store_step tr env dflt) (store_allowed tr env dflt) empty_store cs"
    and "run (store_step tr env dflt) cs empty_store = Inr st" and "objects st j = Some d" and "block d \<noteq> None"
    and "allocator d \<noteq> a" and "objects st i = None"
  shows "run (store_step tr env dflt) [StoreMoveWith i j a, StoreDestroy i] st = Inl BadFree"
proof -
  have inv: "store_inv env st"
    using store.run_safe [OF empty_store_inv [OF assms(1)] assms(2)] assms(3) by auto
  obtain b where b: "block d = Some b" using assms(5) by blast
  have live: "live (store_heap st) b = Some (allocator d, num_slots_minus_one (tab d) + of_int (max_lookups (tab d)) + 1)"
    using store_invD(6) [OF inv assms(4)] b by (simp add: held_ok_def owns_def)
  obtain t where t: "clear (tab d) = Inr t" using clear_store [OF store_invD(7) [OF inv assms(4)]] by blast
  let ?c = "\<lparr>tab = tab d, block = Some b, allocator = a\<rparr>"
  have "(num_slots_minus_one t, max_lookups t) = (num_slots_minus_one (tab d), max_lookups (tab d))"
    using t clear_frame [of "tab d"] by simp
  then have "destroy_held (?c, store_heap st) = Faults BadFree"
    using t live assms(6)
    by (simp add: destroy_held_def clear_held_def on_table_def deallocate_data_def heap_deallocate_def is_exception_def)
  moreover obtain d' where "move_construct_alloc a d = (?c, d')"
    using b by (simp add: move_construct_alloc_def blank_container_def)
  moreover have "i \<noteq> j" using assms(4,7) by auto
  ultimately show ?thesis using assms(4) by (simp add: object_def put_pair_def)
qed

theorem hash_move_alloc_mismatch_witness:
  "\<exists>st. run (store_step resource_traits tight_env 0) [StoreNew 1 0 PowerOfTwo, StoreCall 1 (CallEmplace (3::nat) (7::nat))] empty_store = Inr st
     \<and> run (store_step resource_traits tight_env 0) [StoreMoveWith 2 1 5, StoreDestroy 2] st = Inl BadFree"
proof -
  let ?cs = "[StoreNew 1 0 PowerOfTwo, StoreCall 1 (CallEmplace (3::nat) (7::nat))]"
  have ok: "admissible (store_step resource_traits tight_env 0) (store_allowed resource_traits tight_env 0) empty_store ?cs"
    by code_simp
  have "afterwards 1 (\<lambda>st c. block c \<noteq> None \<and> allocator c \<noteq> 5 \<and> objects st 2 = None)
      (run (store_step resource_traits tight_env 0) ?cs empty_store)"
    by code_simp
  then obtain st c where "run (store_step resource_traits tight_env 0) ?cs empty_store = Inr st" "objects st 1 = Some c"
      "block c \<noteq> None" "allocator c \<noteq> 5" "objects st 2 = None"
    by (rule afterwardsE) blast
  with hash_move_alloc_mismatch [OF tight_env_ok ok this] show ?thesis by blast
qed

text \<open>
  The move assignment is \<^verbatim>\<open>noexcept\<close>, also where it must allocate: with allocators that
  differ and do not propagate it copies the values, and when that throws \<^verbatim>\<open>std::bad_alloc\<close> the
  program ends.
\<close>

theorem hash_move_assign_aborts:
  "aborts (run (store_step resource_traits (tight_env\<lparr>can_allocate := \<lambda>n. n \<le> 20\<rparr>) 0)
     ([StoreNew 1 0 (PrimeNumber 0), StoreNew 2 1 (PrimeNumber 0), StoreCall 2 (CallMaxLoad (Fin 1)), StoreCall 2 (CallRehash 13)]
      @ map (\<lambda>k. StoreCall 2 (CallEmplace k (7::nat))) [0, 11, 22, 33, 44] @ [StoreMoveAssign 1 2]) empty_store)
   \<and> afterwards 2 (\<lambda>st c. exceptions st = 0 \<and> length (stored (tab c)) = 5)
      (run (store_step resource_traits (tight_env\<lparr>can_allocate := \<lambda>n. n \<le> 20\<rparr>) 0)
     ([StoreNew 1 0 (PrimeNumber 0), StoreNew 2 1 (PrimeNumber 0), StoreCall 2 (CallMaxLoad (Fin 1)), StoreCall 2 (CallRehash 13)]
      @ map (\<lambda>k. StoreCall 2 (CallEmplace k (7::nat))) [0, 11, 22, 33, 44]) empty_store)"
  by code_simp

end
