(* ===== verification/EchoPeer.thy ===== *)
theory EchoPeer
  imports FwsServer MsgEcho
begin

text \<open>
  What the benchmark client relies on in a server, as an interface, and the three echo servers that
  speak WebSocket and the repository's script starts against it: flashws, uWebSockets and
  websocketpp. The first reads messages in parts; the libraries of the others put them together.
\<close>

section \<open>The interface\<close>

text \<open>
  A callback of a server is about one connection. It is new, or a part of a message has come in
  (with its opcode, and whether it is the last), or the connection has ended; other callbacks do
  nothing to the echo.
\<close>

datatype server_call =
    CallAccept nat
  | CallGet nat u8 "u8 list" bool
  | CallLeave nat
  | CallOther nat

fun conn_of :: "server_call \<Rightarrow> nat" where
  "conn_of (CallAccept i) = i"
| "conn_of (CallGet i opcode part is_end) = i"
| "conn_of (CallLeave i) = i"
| "conn_of (CallOther i) = i"

text \<open>
  A server with its callbacks \<open>'e\<close>: what each does, what it is, what the library promises of it, the connections
  that are open, the frames written on each, and its totals (reports and counters together).
\<close>

record ('s, 'e) server =
  sv_step :: "'e \<Rightarrow> 's \<Rightarrow> 's result"
  sv_call :: "'e \<Rightarrow> server_call"
  sv_lib :: "'e \<Rightarrow> bool"
  sv_open :: "'s \<Rightarrow> nat \<Rightarrow> bool"
  sv_out :: "'s \<Rightarrow> nat \<Rightarrow> (u8 \<times> u8 list) list"
  sv_recv_msgs :: "'s \<Rightarrow> u64"
  sv_recv_bytes :: "'s \<Rightarrow> u64"
  sv_send_msgs :: "'s \<Rightarrow> u64"
  sv_send_bytes :: "'s \<Rightarrow> u64"

text \<open>The abstract server of \<open>FwsServer\<close>, by the kind of the callback.\<close>

fun call_step :: "server_call \<Rightarrow> fws_spec \<Rightarrow> fws_spec" where
  "call_step (CallAccept i) a = a\<lparr>fp_partial := (fp_partial a)(i \<mapsto> []), fp_out := (fp_out a)(i := [])\<rparr>"
| "call_step (CallGet i opcode part is_end) a =
     (let msg = the (fp_partial a i) @ part;
          a = a\<lparr>fp_recv_bytes := fp_recv_bytes a + length part\<rparr>
      in if is_end
         then a\<lparr>fp_partial := (fp_partial a)(i \<mapsto> []), fp_out := (fp_out a)(i := fp_out a i @ [(opcode, msg)]),
                fp_msgs := fp_msgs a + 1, fp_send_bytes := fp_send_bytes a + length msg\<rparr>
         else fp_part i msg a)"
| "call_step (CallLeave i) a = a\<lparr>fp_partial := (fp_partial a)(i := None)\<rparr>"
| "call_step (CallOther i) a = a"

text \<open>Callbacks come for open connections, and messages are no longer than \<open>limit\<close>.\<close>

fun call_ok :: "nat \<Rightarrow> fws_spec \<Rightarrow> server_call \<Rightarrow> bool" where
  "call_ok limit a (CallAccept i) \<longleftrightarrow> fp_partial a i = None"
| "call_ok limit a (CallGet i opcode part is_end) \<longleftrightarrow>
     (case fp_partial a i of None \<Rightarrow> False | Some m \<Rightarrow> length m + length part \<le> limit)"
| "call_ok limit a (CallLeave i) \<longleftrightarrow> fp_partial a i \<noteq> None"
| "call_ok limit a (CallOther i) \<longleftrightarrow> fp_partial a i \<noteq> None"

lemma call_ok_open: "call_ok limit a c \<Longrightarrow> fp_partial a (conn_of c) = None \<longleftrightarrow> (\<exists>i. c = CallAccept i)"
  by (cases c) (auto split: option.splits)

locale echo_peer =
  fixes sv :: "('s, 'e) server"
    and limit :: nat
    and R :: "'s \<Rightarrow> fws_spec \<Rightarrow> bool"
    and s0 :: 's
  assumes init: "R s0 fp_init"
    and answers: "R s a \<Longrightarrow> sv_lib sv e \<Longrightarrow> call_ok limit a (sv_call sv e) \<Longrightarrow>
      \<exists>s'. sv_step sv e s = Inr s' \<and> R s' (call_step (sv_call sv e) a)"
    and out: "R s a \<Longrightarrow> sv_out sv s = fp_out a"
    and conns_open: "R s a \<Longrightarrow> sv_open sv s i \<longleftrightarrow> fp_partial a i \<noteq> None"
    and totals: "R s a \<Longrightarrow> sv_recv_msgs sv s = of_nat (fp_msgs a) \<and> sv_recv_bytes sv s = of_nat (fp_recv_bytes a)
      \<and> sv_send_msgs sv s = of_nat (fp_msgs a) \<and> sv_send_bytes sv s = of_nat (fp_send_bytes a)"
    and can_accept: "\<exists>e. sv_call sv e = CallAccept i \<and> sv_lib sv e"
    and can_get: "\<exists>e. sv_call sv e = CallGet i opcode f True \<and> sv_lib sv e"

section \<open>The flashws server\<close>

fun fws_call :: "fws_event \<Rightarrow> server_call" where
  "fws_call (FwsNewConnection i new_buf) = CallAccept i"
| "fws_call (FwsRead i e) =
     (if re_is_control_msg e then CallOther i
      else CallGet i (ucast (re_opcode e)) (re_part e) (re_is_msg_end e))"
| "fws_call (FwsClose i status_code) = CallLeave i"

text \<open>Allocations return what was asked for, writes succeed, control messages come in one piece.\<close>

fun fws_lib :: "fws_config \<Rightarrow> fws_event \<Rightarrow> bool" where
  "fws_lib cfg (FwsNewConnection i new_buf) \<longleftrightarrow> fresh_for (cfg_max_data_len cfg + cfg_reserve cfg) new_buf"
| "fws_lib cfg (FwsRead i e) \<longleftrightarrow>
     (if re_is_control_msg e then re_is_frame_end e \<and> re_is_msg_end e
      else 0 \<le> re_write_ret e \<and> fresh_for (cfg_max_data_len cfg + cfg_reserve cfg) (re_fresh e))"
| "fws_lib cfg (FwsClose i status_code) \<longleftrightarrow> True"

definition fws_open :: "fws_server \<Rightarrow> nat \<Rightarrow> bool" where
  "fws_open s i \<longleftrightarrow> fs_conns s i \<noteq> None"

definition fws_total :: "(fws_stats \<Rightarrow> fws_report list \<Rightarrow> u64) \<Rightarrow> fws_server \<Rightarrow> u64" where
  "fws_total f s = f (fs_stats s) (fs_reports s)"

definition fws_sv :: "fws_config \<Rightarrow> (fws_server, fws_event) server" where
  "fws_sv cfg =
     \<lparr>sv_step = fws_step cfg, sv_call = fws_call, sv_lib = fws_lib cfg,
      sv_open = fws_open, sv_out = fs_out,
      sv_recv_msgs = fws_total total_recv_msgs, sv_recv_bytes = fws_total total_recv_bytes,
      sv_send_msgs = fws_total total_send_msgs, sv_send_bytes = fws_total total_send_bytes\<rparr>"

lemma fws_call_step: "fws_spec_step e a = call_step (fws_call e) a"
  by (cases e) simp_all

lemma fws_R_open: "fws_R cfg s a \<Longrightarrow> fs_conns s i \<noteq> None \<longleftrightarrow> fp_partial a i \<noteq> None"
  by (metis domIff fws_R_def)

lemma fws_call_ok:
  assumes R: "fws_R cfg s a" and "fws_lib cfg e" and "call_ok (cfg_max_data_len cfg) a (fws_call e)"
  shows "fws_ok cfg s e"
proof (cases e)
  case (FwsRead i r)
  have "fp_partial a i \<noteq> None" using assms(3) FwsRead by (auto split: if_splits option.splits)
  then obtain ctx where ctx: "fs_conns s i = Some ctx" using fws_R_open [OF R, of i] by auto
  obtain m where "fp_partial a i = Some m" "ctx_holds cfg ctx m" by (rule fws_R_conn [OF R ctx])
  then show ?thesis using assms(2,3) ctx FwsRead by (auto simp: ctx_holds_def)
next
  case (FwsNewConnection i buf)
  then show ?thesis using assms(2,3) fws_R_open [OF R, of i] by simp
next
  case (FwsClose i status_code)
  then show ?thesis using assms(3) fws_R_open [OF R, of i] by simp
qed

lemma opcode_back: "ucast (ucast (opcode :: u8) :: u32) = opcode"
  by (rule bit_word_eqI) (simp add: bit_simps)

interpretation fws_peer: echo_peer "fws_sv cfg" "cfg_max_data_len cfg" "fws_R cfg" fs_init
  for cfg
proof
  show "fws_R cfg fs_init fp_init" by (rule fws_R_init)
  show "\<exists>s'. sv_step (fws_sv cfg) e s = Inr s' \<and> fws_R cfg s' (call_step (sv_call (fws_sv cfg) e) a)"
    if "fws_R cfg s a" "sv_lib (fws_sv cfg) e" "call_ok (cfg_max_data_len cfg) a (sv_call (fws_sv cfg) e)" for s a e
    using fws_sim.step_simulates [OF that(1), of e] fws_call_ok [OF that(1), of e] that(2,3)
    by (simp add: fws_sv_def fws_call_step)
  show "\<exists>e. sv_call (fws_sv cfg) e = CallAccept i \<and> sv_lib (fws_sv cfg) e" for i
    by (rule exI [of _ "FwsNewConnection i \<lparr>io_data = replicate (cfg_max_data_len cfg + cfg_reserve cfg) 0, io_start_pos = 0, io_size = 0\<rparr>"])
      (simp add: fws_sv_def fresh_for_def)
  show "\<exists>e. sv_call (fws_sv cfg) e = CallGet i opcode f True \<and> sv_lib (fws_sv cfg) e" for i opcode f
    by (rule exI [of _ "FwsRead i \<lparr>re_opcode = ucast opcode, re_part = f, re_is_frame_end = True, re_is_msg_end = True,
        re_is_control_msg = False, re_now = (\<lambda>_. 0), re_write_ret = 0,
        re_fresh = \<lparr>io_data = replicate (cfg_max_data_len cfg + cfg_reserve cfg) 0, io_start_pos = 0, io_size = 0\<rparr>,
        re_socket_count = 1\<rparr>"])
      (simp add: fws_sv_def fresh_for_def opcode_back)
qed (simp_all add: fws_sv_def fws_open_def fws_total_def fws_R_open, auto simp: fws_R_def)

section \<open>The uWebSockets and the websocketpp servers\<close>

text \<open>
  They have no part of a message. A frame that the library drops, or whose send throws, is no echo;
  neither happens to the one message that a benchmark client has under way.
\<close>

fun uws_call :: "uws_event \<Rightarrow> server_call" where
  "uws_call (UwsOpen i) = CallAccept i"
| "uws_call (UwsMessage i now msg status) = CallGet i (fst msg) (snd msg) True"
| "uws_call (UwsDrain i) = CallOther i"
| "uws_call (UwsPing i) = CallOther i"
| "uws_call (UwsPong i) = CallOther i"
| "uws_call (UwsClose i) = CallLeave i"

fun uws_lib :: "uws_event \<Rightarrow> bool" where
  "uws_lib (UwsMessage i now msg status) \<longleftrightarrow> status \<noteq> Dropped"
| "uws_lib _ \<longleftrightarrow> True"

fun tpp_call :: "tpp_event \<Rightarrow> server_call" where
  "tpp_call (TppOpen i) = CallAccept i"
| "tpp_call (TppMessage i now msg throws) = CallGet i (fst msg) (snd msg) True"
| "tpp_call (TppClose i) = CallLeave i"

fun tpp_lib :: "tpp_event \<Rightarrow> bool" where
  "tpp_lib (TppMessage i now msg throws) \<longleftrightarrow> \<not> throws"
| "tpp_lib _ \<longleftrightarrow> True"

definition msg_open :: "echo_server \<Rightarrow> nat \<Rightarrow> bool" where
  "msg_open s i \<longleftrightarrow> i \<in> srv_conns s"

definition msg_total :: "(echo_stats \<Rightarrow> echo_report list \<Rightarrow> u64) \<Rightarrow> echo_server \<Rightarrow> u64" where
  "msg_total f s = f (srv_stats s) (srv_reports s)"

definition msg_sv :: "('e \<Rightarrow> echo_server \<Rightarrow> echo_server result) \<Rightarrow> ('e \<Rightarrow> server_call) \<Rightarrow> ('e \<Rightarrow> bool) \<Rightarrow> (echo_server, 'e) server"
where
  "msg_sv step call lib =
     \<lparr>sv_step = step, sv_call = call, sv_lib = lib,
      sv_open = msg_open, sv_out = srv_out,
      sv_recv_msgs = msg_total total_recv_msgs, sv_recv_bytes = msg_total total_recv_bytes,
      sv_send_msgs = msg_total total_send_msgs, sv_send_bytes = msg_total total_send_bytes\<rparr>"

definition uws_sv :: "(echo_server, uws_event) server" where
  "uws_sv = msg_sv uws_step uws_call uws_lib"

definition tpp_sv :: "u64 \<Rightarrow> (echo_server, tpp_event) server" where
  "tpp_sv max_data_len = msg_sv (tpp_step max_data_len) tpp_call tpp_lib"

text \<open>Their abstract server is that of parts in which every message has one part.\<close>

definition as_parts :: "echo_spec \<Rightarrow> fws_spec \<Rightarrow> bool" where
  "as_parts b a \<longleftrightarrow> fp_partial a = (\<lambda>i. if i \<in> sp_conns b then Some [] else None) \<and> fp_out a = sp_out b
     \<and> fp_msgs a = sp_recv_msgs b \<and> sp_send_msgs b = sp_recv_msgs b
     \<and> fp_recv_bytes a = sp_recv_bytes b \<and> fp_send_bytes a = sp_send_bytes b"

lemma as_parts_open [simp]: "as_parts b a \<Longrightarrow> fp_partial a i = None \<longleftrightarrow> i \<notin> sp_conns b"
  by (simp add: as_parts_def)

lemma as_parts_moves:
  assumes "as_parts b a"
  shows "as_parts (sp_open i b) (call_step (CallAccept i) a)" and "as_parts (sp_close i b) (call_step (CallLeave i) a)"
    and "i \<in> sp_conns b \<Longrightarrow> as_parts (sp_send i msg [msg] (sp_receive msg b)) (call_step (CallGet i (fst msg) (snd msg) True) a)"
  using assms by (auto simp: as_parts_def sp_defs Let_def fun_eq_iff)

definition msg_R :: "(echo_server \<Rightarrow> echo_spec \<Rightarrow> bool) \<Rightarrow> echo_server \<Rightarrow> fws_spec \<Rightarrow> bool" where
  "msg_R R s a \<longleftrightarrow> (\<exists>b. R s b \<and> as_parts b a)"

lemma uws_refines: "uws_R s b \<Longrightarrow> echo_refines s b"
  by (simp add: uws_R_def)

lemma msg_R_facts:
  assumes "\<And>s b. R s b \<Longrightarrow> echo_refines s b" and "msg_R R s a"
  shows "srv_out s = fp_out a" and "i \<in> srv_conns s \<longleftrightarrow> fp_partial a i \<noteq> None"
    and "total_recv_msgs (srv_stats s) (srv_reports s) = of_nat (fp_msgs a)"
    and "total_recv_bytes (srv_stats s) (srv_reports s) = of_nat (fp_recv_bytes a)"
    and "total_send_msgs (srv_stats s) (srv_reports s) = of_nat (fp_msgs a)"
    and "total_send_bytes (srv_stats s) (srv_reports s) = of_nat (fp_send_bytes a)"
proof -
  obtain b where b: "R s b" "as_parts b a" using assms(2) by (auto simp: msg_R_def)
  note ref = assms(1) [OF b(1)]
  show "i \<in> srv_conns s \<longleftrightarrow> fp_partial a i \<noteq> None" using ref b(2) by (simp add: echo_refines_def)
  show "srv_out s = fp_out a" "total_recv_msgs (srv_stats s) (srv_reports s) = of_nat (fp_msgs a)"
    "total_recv_bytes (srv_stats s) (srv_reports s) = of_nat (fp_recv_bytes a)"
    "total_send_msgs (srv_stats s) (srv_reports s) = of_nat (fp_msgs a)"
    "total_send_bytes (srv_stats s) (srv_reports s) = of_nat (fp_send_bytes a)"
    using ref b(2) by (simp_all add: echo_refines_def as_parts_def)
qed

lemma as_parts_init: "as_parts init_spec fp_init"
  by (simp add: as_parts_def init_spec_def fp_init_def)

lemma uws_answers:
  assumes "msg_R uws_R s a" and "uws_lib e" and "call_ok limit a (uws_call e)"
  shows "\<exists>s'. uws_step e s = Inr s' \<and> msg_R uws_R s' (call_step (uws_call e) a)"
proof -
  obtain b where b: "uws_R s b" "as_parts b a" using assms(1) by (auto simp: msg_R_def)
  have conns: "srv_conns s = sp_conns b" using b(1) by (simp add: uws_R_def echo_refines_def)
  then have "uws_ok s e" using call_ok_open [OF assms(3)] as_parts_open [OF b(2)] by (cases e) simp_all
  then obtain s' where s': "uws_step e s = Inr s'" "uws_R s' (uws_spec_step e b)"
    using uws_sim.step_simulates [OF b(1)] by blast
  have "as_parts (uws_spec_step e b) (call_step (uws_call e) a)"
    using as_parts_moves [OF b(2)] b(2) assms(2) \<open>uws_ok s e\<close> conns by (cases e) simp_all
  then show ?thesis using s' by (auto simp: msg_R_def)
qed

lemma tpp_answers:
  assumes "msg_R echo_refines s a" and "tpp_lib e" and "call_ok limit a (tpp_call e)"
  shows "\<exists>s'. tpp_step mx e s = Inr s' \<and> msg_R echo_refines s' (call_step (tpp_call e) a)"
proof -
  obtain b where b: "echo_refines s b" "as_parts b a" using assms(1) by (auto simp: msg_R_def)
  then have conns: "srv_conns s = sp_conns b" by (simp add: echo_refines_def)
  then have "tpp_ok s e" using call_ok_open [OF assms(3)] as_parts_open [OF b(2)] by (cases e) simp_all
  then obtain s' where s': "tpp_step mx e s = Inr s'" "echo_refines s' (tpp_spec_step e b)"
    using tpp_sim.step_simulates [OF b(1)] by blast
  have "as_parts (tpp_spec_step e b) (call_step (tpp_call e) a)"
    using as_parts_moves [OF b(2)] b(2) assms(2) \<open>tpp_ok s e\<close> conns by (cases e) simp_all
  then show ?thesis using s' by (auto simp: msg_R_def)
qed

interpretation uws_peer: echo_peer uws_sv limit "msg_R uws_R" init_server
  for limit
proof
  show "msg_R uws_R init_server fp_init"
    using uws_R_init as_parts_init by (auto simp: msg_R_def)
  show "\<exists>e. sv_call uws_sv e = CallAccept i \<and> sv_lib uws_sv e" for i
    by (rule exI [of _ "UwsOpen i"]) (simp add: uws_sv_def msg_sv_def)
  show "\<exists>e. sv_call uws_sv e = CallGet i opcode f True \<and> sv_lib uws_sv e" for i opcode f
    by (rule exI [of _ "UwsMessage i (\<lambda>_. 0) (opcode, f) Success"]) (simp add: uws_sv_def msg_sv_def)
qed (simp_all add: uws_sv_def msg_sv_def msg_open_def msg_total_def uws_answers msg_R_facts [OF uws_refines])

interpretation tpp_peer: echo_peer "tpp_sv mx" limit "msg_R echo_refines" init_server
  for mx limit
proof
  show "msg_R echo_refines init_server fp_init"
    using echo_refines_init as_parts_init by (auto simp: msg_R_def)
  show "\<exists>e. sv_call (tpp_sv mx) e = CallAccept i \<and> sv_lib (tpp_sv mx) e" for i
    by (rule exI [of _ "TppOpen i"]) (simp add: tpp_sv_def msg_sv_def)
  show "\<exists>e. sv_call (tpp_sv mx) e = CallGet i opcode f True \<and> sv_lib (tpp_sv mx) e" for i opcode f
    by (rule exI [of _ "TppMessage i (\<lambda>_. 0) (opcode, f) False"]) (simp add: tpp_sv_def msg_sv_def)
qed (simp_all add: tpp_sv_def msg_sv_def msg_open_def msg_total_def tpp_answers msg_R_facts)

end
