(* ===== verification/BenchPair.thy ===== *)
theory BenchPair
  imports EchoPeer FwsClientProps
begin

text \<open>
  The benchmark as it runs: the flashws client, an echo server, and the WebSocket connections
  between them. The client was verified against a peer that echoes and the servers against one
  whose messages fit; here each is the other's peer, and what is left to assume is the libraries:
  bytes arrive in order, in parts of any size, and the last part of a message is marked.
\<close>

section \<open>The two programs and what is under way\<close>

text \<open>
  A connection has one name on both sides. \<open>upstream\<close> and \<open>downstream\<close> are the frames a side has
  written and the other has not read, each with its opcode and the bytes still to come.
\<close>

record 's peers =
  pair_client :: client
  pair_server :: 's
  upstream :: "nat \<Rightarrow> (u8 \<times> u8 list) list"
  downstream :: "nat \<Rightarrow> (u8 \<times> u8 list) list"

definition pair_start :: "'s \<Rightarrow> client \<Rightarrow> 's peers" where
  "pair_start s c = \<lparr>pair_client = c, pair_server = s, upstream = (\<lambda>_. []), downstream = (\<lambda>_. [])\<rparr>"

datatype 'e pair_event =
    PairServer 'e
  | PairOpen nat open_event
  | PairClientRead nat recv_event
  | PairClientClose nat u32 int

text \<open>The frames of a log that are for one connection, and a queue after a part has been read.\<close>

definition frames_to :: "nat \<Rightarrow> (nat \<times> u8 \<times> u8 list) list \<Rightarrow> (u8 \<times> u8 list) list" where
  "frames_to i fs = map snd (filter (\<lambda>x. fst x = i) fs)"

fun rest_of :: "u8 list \<Rightarrow> (u8 \<times> u8 list) list \<Rightarrow> (u8 \<times> u8 list) list" where
  "rest_of part [] = []"
| "rest_of part ((opcode, f) # q) =
     (let r = drop (length part) f in if r = [] then q else (opcode, r) # q)"

fun part_of :: "u8 \<Rightarrow> u8 list \<Rightarrow> bool \<Rightarrow> (u8 \<times> u8 list) list \<Rightarrow> bool" where
  "part_of opcode part is_end [] \<longleftrightarrow> False"
| "part_of opcode part is_end ((opc, f) # q) \<longleftrightarrow>
     opcode = opc \<and> prefix part f \<and> (is_end \<longleftrightarrow> part = f)"

text \<open>
  What is sent on a connection that the other side has closed is lost, and so is what is under way
  to a side that closes.
\<close>

fun carry :: "(nat \<Rightarrow> bool) \<Rightarrow> (nat \<times> u8 \<times> u8 list) list \<Rightarrow> (nat \<Rightarrow> (u8 \<times> u8 list) list) \<Rightarrow> nat \<Rightarrow> (u8 \<times> u8 list) list" where
  "carry there [] q = q"
| "carry there ((i, x) # fs) q = carry there fs (if there i then q(i := q i @ [x]) else q)"

lemma carry_at: "carry there fs q k = (if there k then q k @ frames_to k fs else q k)"
  by (induction there fs q rule: carry.induct) (auto simp: frames_to_def)

fun client_conn :: "client_event \<Rightarrow> nat" where
  "client_conn (ConnOpen i e) = i"
| "client_conn (ConnRead i e) = i"
| "client_conn (ConnClose i status_code now_ns) = i"

text \<open>A callback of the client, what it has sent, and whether it has closed its connection.\<close>

definition client_acts :: "('s, 'e) server \<Rightarrow> client_cfg \<Rightarrow> client_event \<Rightarrow> 's peers \<Rightarrow> 's peers result" where
  "client_acts sv cfg ev p = bindE (client_step cfg ev (pair_client p)) (\<lambda>c.
     let i = client_conn ev;
         sent = drop (length (frames (pair_client p))) (frames c)
     in Inr (p\<lparr>pair_client := c,
          upstream := carry (sv_open sv (pair_server p)) sent (upstream p),
          downstream := (downstream p)(i := if conns c i = None then [] else downstream p i)\<rparr>))"

text \<open>A callback of the server: what it takes off the connection, and what it has sent.\<close>

fun taken_by :: "server_call \<Rightarrow> 's peers \<Rightarrow> 's peers" where
  "taken_by (CallAccept i) p = p\<lparr>upstream := (upstream p)(i := []), downstream := (downstream p)(i := [])\<rparr>"
| "taken_by (CallGet i opcode part is_end) p = p\<lparr>upstream := (upstream p)(i := rest_of part (upstream p i))\<rparr>"
| "taken_by (CallLeave i) p = p\<lparr>upstream := (upstream p)(i := [])\<rparr>"
| "taken_by (CallOther i) p = p"

definition server_acts :: "('s, 'e) server \<Rightarrow> 'e \<Rightarrow> 's peers \<Rightarrow> 's peers result" where
  "server_acts sv e p = bindE (sv_step sv e (pair_server p)) (\<lambda>s.
     let i = conn_of (sv_call sv e);
         sent = drop (length (sv_out sv (pair_server p) i)) (sv_out sv s i);
         p = taken_by (sv_call sv e) p
     in Inr (p\<lparr>pair_server := s,
          downstream := (downstream p)(i :=
            if conns (pair_client p) i = None then [] else downstream p i @ sent)\<rparr>))"

fun pair_step :: "('s, 'e) server \<Rightarrow> client_cfg \<Rightarrow> 'e pair_event \<Rightarrow> 's peers \<Rightarrow> 's peers result" where
  "pair_step sv cfg (PairServer e) p = server_acts sv e p"
| "pair_step sv cfg (PairOpen i e) p = client_acts sv cfg (ConnOpen i e) p"
| "pair_step sv cfg (PairClientRead i e) p =
     client_acts sv cfg (ConnRead i e)
       (if rv_is_control_msg e then p else p\<lparr>downstream := (downstream p)(i := rest_of (rv_part e) (downstream p i))\<rparr>)"
| "pair_step sv cfg (PairClientClose i status_code now_ns) p =
     client_acts sv cfg (ConnClose i status_code now_ns) p"

section \<open>What the libraries promise\<close>

text \<open>
  What each callback may find. The server's end of a connection exists while the client connects,
  not before. Only what was sent is read. Allocations and calls succeed; control messages come in
  one piece; the client's loop is silent once it was told to stop; a new connection has a new name.
  Nothing is said of what the peers send.
\<close>

fun server_library_ok :: "('s, 'e) server \<Rightarrow> 's peers \<Rightarrow> server_call \<Rightarrow> bool" where
  "server_library_ok sv p (CallAccept i) \<longleftrightarrow> \<not> sv_open sv (pair_server p) i
   \<and> (case conns (pair_client p) i of None \<Rightarrow> False | Some c \<Rightarrow> conn_wire c = Connecting)"
| "server_library_ok sv p (CallGet i opcode part is_end) \<longleftrightarrow> sv_open sv (pair_server p) i
   \<and> part_of opcode part is_end (upstream p i)"
| "server_library_ok sv p (CallLeave i) \<longleftrightarrow> sv_open sv (pair_server p) i"
| "server_library_ok sv p (CallOther i) \<longleftrightarrow> sv_open sv (pair_server p) i"

fun pair_library_ok :: "('s, 'e) server \<Rightarrow> client_cfg \<Rightarrow> 's peers \<Rightarrow> 'e pair_event \<Rightarrow> bool" where
  "pair_library_ok sv cfg p (PairServer e) \<longleftrightarrow> sv_lib sv e \<and> server_library_ok sv p (sv_call sv e)"
| "pair_library_ok sv cfg p (PairOpen i e) \<longleftrightarrow> library_ok cfg (pair_client p) (ConnOpen i e)"
| "pair_library_ok sv cfg p (PairClientRead i e) \<longleftrightarrow>
     \<not> stopped (pair_client p) \<and> conns (pair_client p) i \<noteq> None
   \<and> (if rv_is_control_msg e then rv_is_frame_end e \<and> rv_is_msg_end e
      else part_of (ucast (rv_opcode e)) (rv_part e) (rv_is_msg_end e) (downstream p i)
         \<and> 0 \<le> rv_write_ret e \<and> room_for cfg (rv_fresh e)
         \<and> NewWSClient (rv_rets e) \<and> \<not> add_ret (rv_rets e) < 0
         \<and> conns (pair_client p) (rv_new_id e) = None \<and> \<not> sv_open sv (pair_server p) (rv_new_id e)
         \<and> (rv_close_sync e \<longrightarrow> rv_socket_count e \<noteq> 0))"
| "pair_library_ok sv cfg p (PairClientClose i status_code now_ns) \<longleftrightarrow>
     library_ok cfg (pair_client p) (ConnClose i status_code now_ns)"

text \<open>A loop that counts no connection has none but the one whose callback runs.\<close>

fun pair_count_ok :: "'s peers \<Rightarrow> 'e pair_event \<Rightarrow> bool" where
  "pair_count_ok p (PairClientRead i e) \<longleftrightarrow> count_ok (pair_client p) (ConnRead i e)"
| "pair_count_ok p _ \<longleftrightarrow> True"

definition pair_ok :: "('s, 'e) server \<Rightarrow> client_cfg \<Rightarrow> 's peers \<Rightarrow> 'e pair_event \<Rightarrow> bool" where
  "pair_ok sv cfg p ev \<longleftrightarrow> pair_library_ok sv cfg p ev \<and> pair_count_ok p ev"

lemma pair_ok_simps [simp]:
  "pair_ok sv cfg p (PairServer e) \<longleftrightarrow> sv_lib sv e \<and> server_library_ok sv p (sv_call sv e)"
  "pair_ok sv cfg p (PairOpen i oe) \<longleftrightarrow> client_ok cfg (pair_client p) (ConnOpen i oe)"
  "pair_ok sv cfg p (PairClientRead i rv) \<longleftrightarrow>
     pair_library_ok sv cfg p (PairClientRead i rv) \<and> count_ok (pair_client p) (ConnRead i rv)"
  "pair_ok sv cfg p (PairClientClose i status_code now_ns) \<longleftrightarrow>
     client_ok cfg (pair_client p) (ConnClose i status_code now_ns)"
  by (simp_all add: pair_ok_def client_ok_def)

end
