(* ===== verification/BenchLinks.thy ===== *)
theory BenchLinks
  imports FwsClientProps
begin

text \<open>
  The protocol of the benchmark, without the programs: what is on each connection between the
  client and the echo server, and how a step of either side moves it. The two programs together
  implement it (\<open>BenchPairProps\<close>); its invariant and its measure are those of the benchmark.
\<close>

section \<open>Connections\<close>

text \<open>
  For each connection its phase at the client, the parts of a message that the server has, and the
  frames under way in both directions with the bytes still to be read.
\<close>

record links =
  phase_at :: "nat \<Rightarrow> phase option"
  parts_at :: "nat \<Rightarrow> u8 list option"
  up_at :: "nat \<Rightarrow> (u8 \<times> u8 list) list"
  down_at :: "nat \<Rightarrow> (u8 \<times> u8 list) list"

datatype link_move =
    Accepts nat
  | Opens nat
  | ServerGets nat "u8 list"
  | ClientGets nat "u8 list"
  | ServerLeaves nat
  | ClientLeaves nat
  | Idle

definition sends_up :: "u8 list \<Rightarrow> nat \<Rightarrow> links \<Rightarrow> links" where
  "sends_up f i l = l\<lparr>up_at := (up_at l)(i := if parts_at l i = None then [] else up_at l i @ [(2, f)])\<rparr>"

inductive link_step :: "u8 list \<Rightarrow> links \<Rightarrow> link_move \<Rightarrow> links \<Rightarrow> bool" for f where
  accepts: "phase_at l i = Some Unsent \<Longrightarrow> parts_at l i = None \<Longrightarrow>
    link_step f l (Accepts i)
      (l\<lparr>parts_at := (parts_at l)(i \<mapsto> []), up_at := (up_at l)(i := []), down_at := (down_at l)(i := [])\<rparr>)"
| opens: "phase_at l i = Some Unsent \<Longrightarrow>
    link_step f l (Opens i) (sends_up f i (l\<lparr>phase_at := (phase_at l)(i \<mapsto> Waiting [])\<rparr>))"
| server_part: "parts_at l i = Some m \<Longrightarrow> up_at l i = [(2, part @ r)] \<Longrightarrow> r \<noteq> [] \<Longrightarrow>
    link_step f l (ServerGets i part)
      (l\<lparr>parts_at := (parts_at l)(i \<mapsto> m @ part), up_at := (up_at l)(i := [(2, r)])\<rparr>)"
| server_last: "parts_at l i = Some m \<Longrightarrow> up_at l i = [(2, part)] \<Longrightarrow>
    link_step f l (ServerGets i part)
      (l\<lparr>parts_at := (parts_at l)(i \<mapsto> []), up_at := (up_at l)(i := []),
         down_at := (down_at l)(i := if phase_at l i = None then [] else down_at l i @ [(2, m @ part)])\<rparr>)"
| client_part: "phase_at l i = Some (Waiting q) \<Longrightarrow> down_at l i = [(2, part @ r)] \<Longrightarrow> r \<noteq> [] \<Longrightarrow>
    link_step f l (ClientGets i part)
      (l\<lparr>phase_at := (phase_at l)(i \<mapsto> Waiting (q @ part)), down_at := (down_at l)(i := [(2, r)])\<rparr>)"
| client_next: "phase_at l i = Some (Waiting q) \<Longrightarrow> down_at l i = [(2, part)] \<Longrightarrow>
    link_step f l (ClientGets i part)
      (sends_up f i (l\<lparr>phase_at := (phase_at l)(i \<mapsto> Waiting []), down_at := (down_at l)(i := [])\<rparr>))"
| client_last: "phase_at l i = Some (Waiting q) \<Longrightarrow> down_at l i = [(2, part)] \<Longrightarrow> w \<in> {None, Some Finished} \<Longrightarrow>
    link_step f l (ClientGets i part)
      (l\<lparr>phase_at := (phase_at l)(i := w), down_at := (down_at l)(i := [])\<rparr>)"
| client_heir: "phase_at l i = Some (Waiting q) \<Longrightarrow> down_at l i = [(2, part)] \<Longrightarrow> w \<in> {None, Some Finished} \<Longrightarrow>
    phase_at l j = None \<Longrightarrow> parts_at l j = None \<Longrightarrow>
    link_step f l (ClientGets i part)
      (l\<lparr>phase_at := (phase_at l)(i := w, j \<mapsto> Unsent), down_at := (down_at l)(i := [])\<rparr>)"
| server_leaves: "parts_at l i \<noteq> None \<Longrightarrow>
    link_step f l (ServerLeaves i) (l\<lparr>parts_at := (parts_at l)(i := None), up_at := (up_at l)(i := [])\<rparr>)"
| client_leaves: "phase_at l i \<noteq> None \<Longrightarrow>
    link_step f l (ClientLeaves i) (l\<lparr>phase_at := (phase_at l)(i := None), down_at := (down_at l)(i := [])\<rparr>)"
| idle: "link_step f l Idle l"

section \<open>The invariant\<close>

text \<open>
  There is one copy of the message on a connection at most, split between one side and the queue
  to it. A client that waits has its message under way, unless the server has left.
\<close>

definition at_server :: "u8 list \<Rightarrow> u8 list option \<Rightarrow> (u8 \<times> u8 list) list \<Rightarrow> bool" where
  "at_server f srv up \<longleftrightarrow> (case srv of
     None \<Rightarrow> up = []
   | Some m \<Rightarrow> up = [] \<and> m = [] \<or> (\<exists>r. r \<noteq> [] \<and> up = [(2, r)] \<and> m @ r = f))"

definition at_client ::
  "u8 list \<Rightarrow> phase option \<Rightarrow> u8 list option \<Rightarrow> (u8 \<times> u8 list) list \<Rightarrow> (u8 \<times> u8 list) list \<Rightarrow> bool" where
  "at_client f ph srv up down \<longleftrightarrow> (case ph of
     None \<Rightarrow> down = []
   | Some Unsent \<Rightarrow> up = [] \<and> down = []
   | Some (Waiting q) \<Rightarrow> (\<exists>r. r \<noteq> [] \<and> up = [] \<and> down = [(2, r)] \<and> q @ r = f)
       \<or> down = [] \<and> q = [] \<and> (srv \<noteq> None \<longrightarrow> up \<noteq> [])
   | Some Finished \<Rightarrow> up = [] \<and> down = [])"

definition link_ok :: "u8 list \<Rightarrow> links \<Rightarrow> nat \<Rightarrow> bool" where
  "link_ok f l i \<longleftrightarrow> at_server f (parts_at l i) (up_at l i)
     \<and> at_client f (phase_at l i) (parts_at l i) (up_at l i) (down_at l i)"

definition links_ok :: "u8 list \<Rightarrow> links \<Rightarrow> bool" where
  "links_ok f l \<longleftrightarrow> (\<forall>i. link_ok f l i)"

lemma links_okD: "links_ok f l \<Longrightarrow> link_ok f l i"
  by (simp add: links_ok_def)

lemmas link_defs = link_ok_def at_server_def at_client_def sends_up_def

text \<open>What the invariant says of a connection, by its phase.\<close>

lemma link_waiting:
  assumes "link_ok f l i" and "phase_at l i = Some (Waiting q)"
  obtains r where "r \<noteq> []" "up_at l i = []" "down_at l i = [(2, r)]" "q @ r = f"
  | "down_at l i = []" "q = []" "parts_at l i \<noteq> None \<Longrightarrow> up_at l i \<noteq> []"
  using assms by (auto simp: link_defs)

lemma link_server:
  assumes "link_ok f l i" and "parts_at l i = Some m"
  obtains "up_at l i = []" "m = []" | r where "r \<noteq> []" "up_at l i = [(2, r)]" "m @ r = f"
  using assms by (auto simp: link_defs)

lemma one_message:
  assumes "link_ok f l i"
  shows "up_at l i = [] \<and> down_at l i = []
     \<or> (\<exists>r. r \<noteq> [] \<and> suffix r f \<and> (up_at l i = [(2, r)] \<and> down_at l i = [] \<or> up_at l i = [] \<and> down_at l i = [(2, r)]))"
  using assms by (auto simp: link_defs suffix_def split: option.splits phase.splits)

lemma link_still:
  "link_ok f l i \<Longrightarrow> phase_at l i = Some Unsent \<or> phase_at l i = Some Finished \<Longrightarrow> up_at l i = [] \<and> down_at l i = []"
  "link_ok f l i \<Longrightarrow> phase_at l i = None \<Longrightarrow> down_at l i = []"
  "link_ok f l i \<Longrightarrow> parts_at l i = None \<Longrightarrow> up_at l i = []"
  by (auto simp: link_defs)

lemma link_under_way:
  "link_ok f l i \<Longrightarrow> up_at l i \<noteq> [] \<Longrightarrow> phase_at l i = None \<or> phase_at l i = Some (Waiting []) \<and> down_at l i = []"
  by (auto simp: link_defs split: option.splits phase.splits)

text \<open>A step touches one connection, and the one that takes its place.\<close>

lemma link_ok_cong:
  assumes "phase_at l' i = phase_at l i" and "parts_at l' i = parts_at l i" and "up_at l' i = up_at l i"
    and "down_at l' i = down_at l i"
  shows "link_ok f l' i \<longleftrightarrow> link_ok f l i"
  using assms by (simp add: link_ok_def)

lemma links_ok_step:
  assumes "f \<noteq> []" and "links_ok f l" and "link_step f l mv l'"
  shows "links_ok f l'"
  unfolding links_ok_def
proof
  fix k
  note k = links_okD [OF assms(2), of k]
  show "link_ok f l' k"
    using assms(3)
  proof cases
    case (accepts i)
    then show ?thesis using k by (cases "k = i") (simp_all add: link_defs)
  next
    case (opens i)
    then show ?thesis using k assms(1) by (cases "k = i") (auto simp: link_defs split: option.splits)
  next
    case (server_part i m part r)
    then show ?thesis using k by (cases "k = i") (auto simp: link_defs split: option.splits phase.splits)
  next
    case (server_last i m part)
    then show ?thesis using k assms(1) by (cases "k = i") (auto simp: link_defs split: option.splits phase.splits)
  next
    case (client_part i q part r)
    then show ?thesis using k by (cases "k = i") (auto simp: link_defs split: option.splits)
  next
    case (client_next i q part)
    then show ?thesis using k assms(1) by (cases "k = i") (auto simp: link_defs split: option.splits)
  next
    case (client_last i q part w)
    then show ?thesis using k by (cases "k = i") (auto simp: link_defs split: option.splits)
  next
    case (client_heir i q part w j)
    then have "i \<noteq> j" by auto
    then show ?thesis using client_heir k by (cases "k = i"; cases "k = j") (auto simp: link_defs split: option.splits)
  next
    case (server_leaves i)
    then show ?thesis using k by (cases "k = i") (auto simp: link_defs split: option.splits phase.splits)
  next
    case (client_leaves i)
    then show ?thesis using k by (cases "k = i") (simp_all add: link_defs)
  next
    case idle
    then show ?thesis using k by simp
  qed
qed

section \<open>Calm runs\<close>

text \<open>
  A step is calm when no connection breaks, and bytes are read: the server is there before the
  client sends, and a side leaves only after the last echo.
\<close>

fun calm :: "links \<Rightarrow> link_move \<Rightarrow> bool" where
  "calm l (Accepts i) \<longleftrightarrow> True"
| "calm l (Opens i) \<longleftrightarrow> parts_at l i \<noteq> None"
| "calm l (ServerGets i part) \<longleftrightarrow> part \<noteq> []"
| "calm l (ClientGets i part) \<longleftrightarrow> part \<noteq> []"
| "calm l (ServerLeaves i) \<longleftrightarrow> phase_at l i = None \<or> phase_at l i = Some Finished"
| "calm l (ClientLeaves i) \<longleftrightarrow> phase_at l i = Some Finished"
| "calm l Idle \<longleftrightarrow> False"

definition served :: "links \<Rightarrow> nat \<Rightarrow> bool" where
  "served l i \<longleftrightarrow> (\<forall>q. phase_at l i = Some (Waiting q) \<longrightarrow> parts_at l i \<noteq> None)
     \<and> (phase_at l i = None \<longrightarrow> up_at l i = [])"

lemma served_step:
  assumes "\<And>i. served l i" and "links_ok f l" and "link_step f l mv l'" and "calm l mv"
  shows "served l' k"
  using assms(3)
proof cases
  case (accepts i)
  then show ?thesis using assms(1) [of k] by (auto simp: served_def)
next
  case (opens i)
  then show ?thesis using assms(1) [of k] assms(4) by (auto simp: served_def sends_up_def)
next
  case (server_part i m part r)
  then have "phase_at l i \<noteq> None" using assms(1) [of i] by (auto simp: served_def)
  then show ?thesis using server_part assms(1) [of k] by (auto simp: served_def)
next
  case (server_last i m part)
  then show ?thesis using assms(1) [of k] by (auto simp: served_def)
next
  case (client_part i q part r)
  then show ?thesis using assms(1) [of k] by (auto simp: served_def)
next
  case (client_next i q part)
  then show ?thesis using assms(1) [of k] by (auto simp: served_def sends_up_def)
next
  case (client_last i q part w)
  then have "up_at l i = []"
    by (cases rule: link_waiting [OF links_okD [OF assms(2)] client_last(3)]) auto
  then show ?thesis using client_last assms(1) [of k] by (auto simp: served_def)
next
  case (client_heir i q part w j)
  then have "up_at l i = []"
    by (cases rule: link_waiting [OF links_okD [OF assms(2)] client_heir(3)]) auto
  then show ?thesis using client_heir assms(1) [of k] by (auto simp: served_def)
next
  case (server_leaves i)
  then show ?thesis using assms(1) [of k] assms(4) by (auto simp: served_def)
next
  case (client_leaves i)
  then have "up_at l i = []" using link_still(1) [OF links_okD [OF assms(2), of i]] assms(4) by simp
  then show ?thesis using client_leaves assms(1) [of k] by (auto simp: served_def)
next
  case idle
  then show ?thesis using assms(1) by simp
qed

section \<open>The work that is left\<close>

text \<open>Sums over the connections that count.\<close>

definition tot :: "(nat \<Rightarrow> nat) \<Rightarrow> nat" where
  "tot e = (\<Sum>k | e k \<noteq> 0. e k)"

definition few :: "(nat \<Rightarrow> nat) \<Rightarrow> bool" where
  "few e \<longleftrightarrow> finite {k. e k \<noteq> 0}"

lemma few_upd: "few e \<Longrightarrow> few (e(i := x))"
proof -
  assume "few e"
  moreover have "{k. (e(i := x)) k \<noteq> 0} \<subseteq> insert i {k. e k \<noteq> 0}" by auto
  ultimately show "few (e(i := x))" unfolding few_def using finite_subset by blast
qed

lemma tot_upd:
  assumes "few e"
  shows "tot (e(i := x)) + e i = tot e + x"
proof -
  let ?B = "{k. e k \<noteq> 0} - {i}"
  have B: "finite ?B" "finite (insert i ?B)" using assms by (simp_all add: few_def)
  have "tot e = (\<Sum>k\<in>insert i ?B. e k)" unfolding tot_def using B(2) by (intro sum.mono_neutral_left) auto
  then have "tot e = e i + (\<Sum>k\<in>?B. e k)" using sum.insert [OF B(1), of i e] by simp
  moreover have "tot (e(i := x)) = (\<Sum>k\<in>insert i ?B. (e(i := x)) k)"
    unfolding tot_def using B(2) by (intro sum.mono_neutral_left) auto
  then have "tot (e(i := x)) = x + (\<Sum>k\<in>?B. (e(i := x)) k)" using sum.insert [OF B(1), of i "e(i := x)"] by simp
  moreover have "(\<Sum>k\<in>?B. (e(i := x)) k) = (\<Sum>k\<in>?B. e k)" by (intro sum.cong) auto
  ultimately show ?thesis by simp
qed

lemma tot_zero: "tot (\<lambda>_. 0) = 0" "few (\<lambda>_. 0)"
  by (simp_all add: tot_def few_def)

text \<open>
  The steps that a connection can still take until its present message is echoed: the bytes to be
  read on both ways, and its beginning and end on both sides. \<open>n\<close> is the length of a message.
\<close>

definition bytes_of :: "(u8 \<times> u8 list) list \<Rightarrow> nat" where
  "bytes_of q = length (concat (map snd q))"

lemma bytes_of_simps [simp]: "bytes_of [] = 0" "bytes_of (x # q) = length (snd x) + bytes_of q"
  by (simp_all add: bytes_of_def)

definition work_on ::
  "nat \<Rightarrow> phase option \<Rightarrow> u8 list option \<Rightarrow> (u8 \<times> u8 list) list \<Rightarrow> (u8 \<times> u8 list) list \<Rightarrow> nat" where
  "work_on n ph srv up down =
     (case ph of
        None \<Rightarrow> 0
      | Some Unsent \<Rightarrow> 2 * n + 2 + (if srv = None then 2 else 0)
      | Some (Waiting q) \<Rightarrow> 1 + (if up = [] then bytes_of down else n + bytes_of up)
      | Some Finished \<Rightarrow> 1)
     + (if srv = None then 0 else 1)"

definition link_work :: "nat \<Rightarrow> links \<Rightarrow> nat \<Rightarrow> nat" where
  "link_work n l i = work_on n (phase_at l i) (parts_at l i) (up_at l i) (down_at l i)"

definition echo_done :: "links \<Rightarrow> link_move \<Rightarrow> bool" where
  "echo_done l mv \<longleftrightarrow> (\<exists>i part. mv = ClientGets i part \<and> down_at l i = [(2, part)])"

lemma tot_one:
  assumes "few e" and "\<And>k. k \<noteq> i \<Longrightarrow> e' k = e k" and "e' i + a \<le> e i + b"
  shows "tot e' + a \<le> tot e + b" and "few e'"
proof -
  have "e' = e(i := e' i)" using assms(2) by (simp add: fun_eq_iff)
  then have "tot e' + e i = tot e + e' i" and "few e'" using tot_upd [OF assms(1)] few_upd [OF assms(1)] by metis+
  then show "tot e' + a \<le> tot e + b" and "few e'" using assms(3) by linarith+
qed

text \<open>The last echo of a life, when another connection takes over.\<close>

lemma heir_work:
  assumes few: "few (link_work n l)" and i: "phase_at l i = Some (Waiting q)" "up_at l i = []" "down_at l i = [(2, part)]" "part \<noteq> []"
    and w: "w \<in> {None, Some Finished}" and j: "phase_at l j = None" "parts_at l j = None"
  shows "tot (link_work n (l\<lparr>phase_at := (phase_at l)(i := w, j \<mapsto> Unsent), down_at := (down_at l)(i := [])\<rparr>)) + 1
      \<le> tot (link_work n l) + (2 * n + 4)"
    and "few (link_work n (l\<lparr>phase_at := (phase_at l)(i := w, j \<mapsto> Unsent), down_at := (down_at l)(i := [])\<rparr>))"
proof -
  let ?l' = "l\<lparr>phase_at := (phase_at l)(i := w, j \<mapsto> Unsent), down_at := (down_at l)(i := [])\<rparr>"
  let ?e = "(link_work n l)(i := link_work n ?l' i)"
  have ij: "i \<noteq> j" using i(1) j(1) by auto
  have fe: "few ?e" and te: "tot ?e + link_work n l i = tot (link_work n l) + link_work n ?l' i"
    using few_upd [OF few] tot_upd [OF few] by auto
  have "link_work n ?l' k = link_work n l k" if "k \<noteq> i" "k \<noteq> j" for k using that by (simp add: link_work_def)
  then have "link_work n ?l' = ?e(j := link_work n ?l' j)" by (simp add: fun_eq_iff)
  then have "tot (link_work n ?l') + ?e j = tot ?e + link_work n ?l' j" and fin: "few (link_work n ?l')"
    using tot_upd [OF fe] few_upd [OF fe] by metis+
  moreover have "?e j = 0" "link_work n ?l' j = 2 * n + 4" using ij j by (simp_all add: link_work_def work_on_def)
  moreover have "link_work n ?l' i + 1 \<le> link_work n l i"
    using i w ij by (auto simp: link_work_def work_on_def Suc_le_eq)
  ultimately show "tot (link_work n ?l') + 1 \<le> tot (link_work n l) + (2 * n + 4)" using te by linarith
  show "few (link_work n ?l')" by (rule fin)
qed

text \<open>
  A calm step makes the work smaller, except that the end of an echo may begin the next message or
  the next connection.
\<close>

lemma link_step_work:
  assumes ok: "links_ok f l" and srv: "\<And>i. served l i" and step: "link_step f l mv l'" and calm: "calm l mv"
    and few: "few (link_work (length f) l)"
  shows "tot (link_work (length f) l') + 1 \<le> tot (link_work (length f) l) + (if echo_done l mv then 2 * length f + 4 else 0)"
    and "few (link_work (length f) l')"
proof -
  let ?w = "link_work (length f)" and ?b = "if echo_done l mv then 2 * length f + 4 else 0"
  have one: "tot (?w l') + 1 \<le> tot (?w l) + ?b \<and> few (?w l')"
    if "\<And>k. k \<noteq> i \<Longrightarrow> ?w l' k = ?w l k" "?w l' i + 1 \<le> ?w l i + ?b" for i
    using tot_one [OF few, of i "?w l'" 1 ?b] that by blast
  from step have "tot (?w l') + 1 \<le> tot (?w l) + ?b \<and> few (?w l')"
  proof cases
    case (accepts i)
    show ?thesis by (rule one [of i]) (use accepts in \<open>simp_all add: link_work_def, simp add: work_on_def\<close>)
  next
    case (opens i)
    have "up_at l i = []" using link_still(1) [OF links_okD [OF ok, of i]] opens(3) by blast
    then show ?thesis
      by (intro one [of i]) (use opens calm in \<open>auto simp: link_work_def work_on_def sends_up_def\<close>)
  next
    case (server_part i m part r)
    then have "phase_at l i = Some (Waiting [])"
      using link_under_way [OF links_okD [OF ok, of i]] srv [of i] by (auto simp: served_def)
    then show ?thesis
      by (intro one [of i]) (use server_part calm in \<open>auto simp: link_work_def work_on_def Suc_le_eq\<close>)
  next
    case (server_last i m part)
    then have ph: "phase_at l i = Some (Waiting [])" "down_at l i = []"
      using link_under_way [OF links_okD [OF ok, of i]] srv [of i] by (auto simp: served_def)
    have "m @ part = f" using link_server [OF links_okD [OF ok] server_last(3)] server_last(4) by auto
    then have "length (m @ part) = length f" by simp
    then show ?thesis
      by (intro one [of i]) (use server_last calm ph in \<open>auto simp: link_work_def work_on_def Suc_le_eq\<close>)
  next
    case (client_part i q part r)
    then have "up_at l i = []" by (cases rule: link_waiting [OF links_okD [OF ok] client_part(3)]) auto
    then show ?thesis
      by (intro one [of i]) (use client_part calm in \<open>auto simp: link_work_def work_on_def Suc_le_eq\<close>)
  next
    case (client_next i q part)
    then have "up_at l i = []" by (cases rule: link_waiting [OF links_okD [OF ok] client_next(3)]) auto
    then show ?thesis
      by (intro one [of i])
        (use client_next srv [of i] in \<open>auto simp: link_work_def work_on_def sends_up_def echo_done_def served_def\<close>)
  next
    case (client_last i q part w)
    then have "up_at l i = []" by (cases rule: link_waiting [OF links_okD [OF ok] client_last(3)]) auto
    then show ?thesis
      by (intro one [of i]) (use client_last in \<open>auto simp: link_work_def work_on_def echo_done_def\<close>)
  next
    case (client_heir i q part w j)
    then have "up_at l i = []" by (cases rule: link_waiting [OF links_okD [OF ok] client_heir(3)]) auto
    moreover have "echo_done l mv" using client_heir by (auto simp: echo_done_def)
    ultimately show ?thesis
      using heir_work [OF few client_heir(3) _ client_heir(4) _ client_heir(5-7)] calm client_heir(1,2) by simp
  next
    case (server_leaves i)
    then show ?thesis using calm by (intro one [of i]) (auto simp: link_work_def work_on_def)
  next
    case (client_leaves i)
    then show ?thesis using calm by (intro one [of i]) (auto simp: link_work_def work_on_def)
  next
    case idle
    then show ?thesis using calm by simp
  qed
  then show "tot (?w l') + 1 \<le> tot (?w l) + ?b" and "few (?w l')" by blast+
qed

end
