(* ===== verification/BenchPairProps.thy ===== *)
theory BenchPairProps
  imports BenchPair BenchLinks
begin

text \<open>
  The client and any server that keeps the contract \<open>echo_peer\<close> implement the protocol of
  \<open>BenchLinks\<close>: whatever connections break, no callback of either fails, and each step moves the
  connections as the protocol says.
\<close>

section \<open>The connections of the two programs\<close>

text \<open>The parts that the server has of the message under way are those of the abstract server.\<close>

definition links_of :: "'s peers \<Rightarrow> fws_spec \<Rightarrow> links" where
  "links_of p a = \<lparr>phase_at = phases (pair_client p), parts_at = fp_partial a,
     up_at = upstream p, down_at = downstream p\<rparr>"

fun call_move :: "server_call \<Rightarrow> link_move" where
  "call_move (CallAccept i) = Accepts i"
| "call_move (CallGet i opcode part is_end) = ServerGets i part"
| "call_move (CallLeave i) = ServerLeaves i"
| "call_move (CallOther i) = Idle"

fun move_of :: "('s, 'e) server \<Rightarrow> 'e pair_event \<Rightarrow> link_move" where
  "move_of sv (PairServer e) = call_move (sv_call sv e)"
| "move_of sv (PairOpen i e) = Opens i"
| "move_of sv (PairClientRead i e) = (if rv_is_control_msg e then Idle else ClientGets i (rv_part e))"
| "move_of sv (PairClientClose i status_code now_ns) = ClientLeaves i"

fun server_does :: "('s, 'e) server \<Rightarrow> 'e pair_event \<Rightarrow> fws_spec \<Rightarrow> fws_spec" where
  "server_does sv (PairServer e) a = call_step (sv_call sv e) a"
| "server_does sv _ a = a"

fun client_does :: "'e pair_event \<Rightarrow> client_event option" where
  "client_does (PairServer e) = None"
| "client_does (PairOpen i e) = Some (ConnOpen i e)"
| "client_does (PairClientRead i e) = Some (ConnRead i e)"
| "client_does (PairClientClose i status_code now_ns) = Some (ConnClose i status_code now_ns)"

text \<open>The relation of the pair to the abstract server, and to the protocol.\<close>

definition pair_rel ::
  "('s \<Rightarrow> fws_spec \<Rightarrow> bool) \<Rightarrow> nat \<Rightarrow> client_cfg \<Rightarrow> 's peers \<Rightarrow> fws_spec \<Rightarrow> bool" where
  "pair_rel R limit cfg p a \<longleftrightarrow> cfg_ok cfg \<and> cl_max_data_len cfg \<le> limit
   \<and> client_inv cfg (pair_client p) \<and> R (pair_server p) a \<and> links_ok (payload cfg) (links_of p a)"

lemma pair_relD:
  assumes "pair_rel R limit cfg p a"
  shows "cfg_ok cfg" and "client_inv cfg (pair_client p)" and "length (payload cfg) \<le> limit"
    and "payload cfg \<noteq> []" and "R (pair_server p) a" and "links_ok (payload cfg) (links_of p a)"
proof -
  show "payload cfg \<noteq> []"
    using assms length_payload [of cfg] by (auto simp: pair_rel_def cfg_ok_def simp del: length_payload)
qed (use assms in \<open>simp_all add: pair_rel_def\<close>)

text \<open>One step: what \<open>pair_step\<close> returns, the steps of both sides, and of the protocol.\<close>

definition simulated ::
  "('s, 'e) server \<Rightarrow> ('s \<Rightarrow> fws_spec \<Rightarrow> bool) \<Rightarrow> client_cfg \<Rightarrow> 's peers \<Rightarrow> fws_spec \<Rightarrow> 'e pair_event \<Rightarrow> bool" where
  "simulated sv R cfg p a ev \<longleftrightarrow> (\<exists>p'. pair_step sv cfg ev p = Inr p'
     \<and> client_inv cfg (pair_client p') \<and> R (pair_server p') (server_does sv ev a)
     \<and> link_step (payload cfg) (links_of p a) (move_of sv ev) (links_of p' (server_does sv ev a))
     \<and> (case client_does ev of None \<Rightarrow> pair_client p' = pair_client p
        | Some cev \<Rightarrow> client_ok cfg (pair_client p) cev \<and> client_step cfg cev (pair_client p) = Inr (pair_client p')))"

section \<open>Queues and sides\<close>

lemma frames_to_simps [simp]:
  "frames_to i [] = []"
  "frames_to i [(j, x)] = (if j = i then [x] else [])"
  by (simp_all add: frames_to_def)

lemma part_of_one:
  assumes "part_of opcode part is_end [(opc, r)]"
  obtains r' where "r = part @ r'" and "rest_of part [(opc, r)] = (if r' = [] then [] else [(opc, r')])"
    and "is_end \<longleftrightarrow> r' = []" and "opcode = opc"
  using assms by (auto elim!: prefixE simp: Let_def)

lemma conns_None: "conns s i = None \<longleftrightarrow> phases s i = None"
  by (simp add: phases_def)

lemma down_same:
  assumes "pair_rel R limit cfg p a"
  shows "(downstream p)(i := if phases (pair_client p) i = None then [] else downstream p i @ []) = downstream p"
  using link_still(2) [OF links_okD [OF pair_relD(6) [OF assms], of i]] by (auto simp: links_of_def fun_eq_iff)

text \<open>What a callback of the server leaves on the connections.\<close>

lemma taken_fields [simp]:
  "pair_client (taken_by c p) = pair_client p" "pair_server (taken_by c p) = pair_server p"
  by (cases c; simp)+

text \<open>A callback of the client, and its frames.\<close>

lemma client_acts_returns:
  assumes "cfg_ok cfg" and "client_inv cfg (pair_client p)" and "client_ok cfg (pair_client p) ev" and i: "client_conn ev = i"
  obtains c sent where "client_acts sv cfg ev p = Inr (p\<lparr>pair_client := c,
        upstream := carry (sv_open sv (pair_server p)) sent (upstream p),
        downstream := (downstream p)(i := if phases c i = None then [] else downstream p i)\<rparr>)"
    and "client_inv cfg c" and "client_moves cfg ev (pair_client p) c" and "frames c = frames (pair_client p) @ sent"
    and "client_step cfg ev (pair_client p) = Inr c"
proof -
  obtain c where c: "client_step cfg ev (pair_client p) = Inr c" "client_inv cfg c"
      "client_moves cfg ev (pair_client p) c"
    using client_step_moves [OF assms(1-3)] by blast
  have "\<exists>sent. frames c = frames (pair_client p) @ sent"
    using c(3) by (cases ev) (auto simp: retires_def split: if_splits)
  then obtain sent where fr: "frames c = frames (pair_client p) @ sent" by blast
  then have sent: "drop (length (frames (pair_client p))) (frames c) = sent" by simp
  show thesis
  proof (rule that [of c sent])
    show "client_acts sv cfg ev p = Inr (p\<lparr>pair_client := c,
        upstream := carry (sv_open sv (pair_server p)) sent (upstream p),
        downstream := (downstream p)(i := if phases c i = None then [] else downstream p i)\<rparr>)"
      unfolding client_acts_def c(1) bindE.simps sent Let_def conns_None i ..
  qed (use c fr in simp_all)
qed

text \<open>The callbacks of the client in a run.\<close>

definition client_events :: "'e pair_event list \<Rightarrow> client_event list" where
  "client_events es = List.map_filter client_does es"

lemma client_events_simps [simp]:
  "client_events [] = []"
  "client_events (e # es) = (case client_does e of None \<Rightarrow> client_events es | Some c \<Rightarrow> c # client_events es)"
  by (simp_all add: client_events_def map_filter_simps split: option.split)

section \<open>Every event\<close>

context echo_peer
begin

text \<open>
  A callback of the client on connection \<open>i\<close> when the queues of the others are in order: they
  change on \<open>i\<close> only.
\<close>

lemma client_simulated:
  assumes rel: "pair_rel R limit cfg p a" and ok: "client_ok cfg (pair_client p) cev"
    and step: "pair_step sv cfg ev p = client_acts sv cfg cev (p\<lparr>downstream := (downstream p)(i := d)\<rparr>)"
    and ev: "client_does ev = Some cev" "server_does sv ev a = a" "client_conn cev = i"
    and moves: "\<And>c sent. client_moves cfg cev (pair_client p) c \<Longrightarrow> frames c = frames (pair_client p) @ sent \<Longrightarrow>
      (\<forall>j. j \<noteq> i \<longrightarrow> frames_to j sent = []) \<and>
      link_step (payload cfg) (links_of p a) (move_of sv ev)
        ((links_of p a)\<lparr>phase_at := phases c,
           up_at := (upstream p)(i := if fp_partial a i = None then [] else upstream p i @ frames_to i sent),
           down_at := (downstream p)(i := if phases c i = None then [] else d)\<rparr>)"
  shows "simulated sv R cfg p a ev"
proof -
  note d = pair_relD [OF rel]
  define p1 where "p1 = p\<lparr>downstream := (downstream p)(i := d)\<rparr>"
  have p1: "pair_client p1 = pair_client p" "pair_server p1 = pair_server p" "upstream p1 = upstream p"
      "downstream p1 = (downstream p)(i := d)"
    by (simp_all add: p1_def)
  have pre: "cfg_ok cfg" "client_inv cfg (pair_client p1)" "client_ok cfg (pair_client p1) cev"
    using d(1,2) ok p1(1) by simp_all
  obtain c sent where c: "client_acts sv cfg cev p1 = Inr (p1\<lparr>pair_client := c,
        upstream := carry (sv_open sv (pair_server p1)) sent (upstream p1),
        downstream := (downstream p1)(i := if phases c i = None then [] else downstream p1 i)\<rparr>)"
      "client_inv cfg c" "client_moves cfg cev (pair_client p1) c" "frames c = frames (pair_client p1) @ sent"
      "client_step cfg cev (pair_client p1) = Inr c"
    by (rule client_acts_returns [OF pre ev(3)])
  note m = moves [OF c(3,4) [unfolded p1]]
  let ?p = "p1\<lparr>pair_client := c,
        upstream := carry (sv_open sv (pair_server p1)) sent (upstream p1),
        downstream := (downstream p1)(i := if phases c i = None then [] else downstream p1 i)\<rparr>"
  have still: "fp_partial a j = None \<Longrightarrow> upstream p j = []" "phases (pair_client p) j = None \<Longrightarrow> downstream p j = []" for j
    using link_still(2,3) [OF links_okD [OF d(6), of j]] by (simp_all add: links_of_def)
  have "links_of ?p a = (links_of p a)\<lparr>phase_at := phases c,
           up_at := (upstream p)(i := if fp_partial a i = None then [] else upstream p i @ frames_to i sent),
           down_at := (downstream p)(i := if phases c i = None then [] else d)\<rparr>"
    using m still conns_open [OF d(5)] by (auto simp: links_of_def p1 fun_eq_iff carry_at)
  then show ?thesis
    unfolding simulated_def
    using c m d(5) ok ev step by (intro exI [of _ ?p]) (simp add: p1 p1_def [symmetric])
qed

lemma server_simulated:
  assumes rel: "pair_rel R limit cfg p a" and lib: "sv_lib sv e" and ok: "call_ok limit a (sv_call sv e)"
    and i: "conn_of (sv_call sv e) = i" and a': "call_step (sv_call sv e) a = a'"
    and q: "taken_by (sv_call sv e) p = p\<lparr>upstream := (upstream p)(i := u), downstream := (downstream p)(i := d)\<rparr>"
    and sent: "fp_out a' i = fp_out a i @ sent \<or> fp_out a' i = [] \<and> sent = []"
    and moves: "link_step (payload cfg) (links_of p a) (call_move (sv_call sv e))
        ((links_of p a)\<lparr>parts_at := fp_partial a', up_at := (upstream p)(i := u),
           down_at := (downstream p)(i := if phases (pair_client p) i = None then [] else d @ sent)\<rparr>)"
  shows "simulated sv R cfg p a (PairServer e)"
proof -
  note d = pair_relD [OF rel]
  obtain s where s: "sv_step sv e (pair_server p) = Inr s" "R s a'"
    using answers [OF d(5) lib ok] a' by blast
  have drops: "drop (length (sv_out sv (pair_server p) i)) (sv_out sv s i) = sent"
    using sent by (auto simp: out [OF d(5)] out [OF s(2)])
  let ?p = "p\<lparr>pair_server := s, upstream := (upstream p)(i := u),
      downstream := (downstream p)(i := if phases (pair_client p) i = None then [] else d @ sent)\<rparr>"
  have "pair_step sv cfg (PairServer e) p = Inr ?p"
    by (simp add: server_acts_def s(1) i drops q conns_None Let_def)
  moreover have "links_of ?p a' = (links_of p a)\<lparr>parts_at := fp_partial a', up_at := (upstream p)(i := u),
           down_at := (downstream p)(i := if phases (pair_client p) i = None then [] else d @ sent)\<rparr>"
    by (simp add: links_of_def)
  ultimately show ?thesis
    unfolding simulated_def using d(2) s(2) a' moves by (intro exI [of _ ?p]) simp
qed

lemma sim_accept:
  assumes rel: "pair_rel R limit cfg p a" and ok: "pair_ok sv cfg p (PairServer e)" and call: "sv_call sv e = CallAccept i"
  shows "simulated sv R cfg p a (PairServer e)"
proof (rule server_simulated [OF rel, where sent = "[]" and u = "[]" and d = "[]"])
  have "phases (pair_client p) i = Some Unsent"
    using ok call by (auto simp: phases_def phase_of_def split: option.splits)
  moreover have new: "fp_partial a i = None"
    using ok call conns_open [OF pair_relD(5) [OF rel], of i] by simp
  ultimately show "link_step (payload cfg) (links_of p a) (call_move (sv_call sv e))
        ((links_of p a)\<lparr>parts_at := fp_partial (call_step (sv_call sv e) a), up_at := (upstream p)(i := []),
           down_at := (downstream p)(i := if phases (pair_client p) i = None then [] else [] @ [])\<rparr>)"
    using accepts [of "links_of p a" i "payload cfg"] call by (simp add: links_of_def)
  show "call_ok limit a (sv_call sv e)" using call new by simp
qed (use ok call in simp_all)

lemma sim_server_leaves:
  assumes rel: "pair_rel R limit cfg p a" and ok: "pair_ok sv cfg p (PairServer e)" and call: "sv_call sv e = CallLeave i"
  shows "simulated sv R cfg p a (PairServer e)"
proof (rule server_simulated [OF rel, where sent = "[]" and u = "[]" and d = "downstream p i"])
  have "fp_partial a i \<noteq> None"
    using ok call conns_open [OF pair_relD(5) [OF rel], of i] by simp
  then show "link_step (payload cfg) (links_of p a) (call_move (sv_call sv e))
        ((links_of p a)\<lparr>parts_at := fp_partial (call_step (sv_call sv e) a), up_at := (upstream p)(i := []),
           down_at := (downstream p)(i := if phases (pair_client p) i = None then [] else downstream p i @ [])\<rparr>)"
    unfolding down_same [OF rel] using server_leaves [of "links_of p a" i "payload cfg"] call by (auto simp: links_of_def)
  show "call_ok limit a (sv_call sv e)" using \<open>fp_partial a i \<noteq> None\<close> call by simp
qed (use ok call in simp_all)

lemma sim_server_other:
  assumes rel: "pair_rel R limit cfg p a" and ok: "pair_ok sv cfg p (PairServer e)" and call: "sv_call sv e = CallOther i"
  shows "simulated sv R cfg p a (PairServer e)"
proof (rule server_simulated [OF rel, where sent = "[]" and u = "upstream p i" and d = "downstream p i"])
  show "call_ok limit a (sv_call sv e)"
    using ok call conns_open [OF pair_relD(5) [OF rel], of i] by simp
  have "((links_of p a)\<lparr>parts_at := fp_partial (call_step (sv_call sv e) a), up_at := (upstream p)(i := upstream p i),
      down_at := downstream p\<rparr>) = links_of p a"
    using call by (simp add: links_of_def)
  then show "link_step (payload cfg) (links_of p a) (call_move (sv_call sv e))
        ((links_of p a)\<lparr>parts_at := fp_partial (call_step (sv_call sv e) a), up_at := (upstream p)(i := upstream p i),
           down_at := (downstream p)(i := if phases (pair_client p) i = None then [] else downstream p i @ [])\<rparr>)"
    unfolding down_same [OF rel] using idle call by (metis call_move.simps(4))
qed (use ok call in simp_all)

text \<open>The client keeps the server's side of the contract: its frames fit.\<close>

lemma server_reads_frame:
  assumes rel: "pair_rel R limit cfg p a" and ok: "pair_ok sv cfg p (PairServer e)"
    and call: "sv_call sv e = CallGet i opcode part is_end"
  obtains m r' where "fp_partial a i = Some m" and "m @ part @ r' = payload cfg" and "upstream p i = [(2, part @ r')]"
    and "is_end \<longleftrightarrow> r' = []" and "opcode = 2" and "rest_of part (upstream p i) = (if r' = [] then [] else [(2, r')])"
proof -
  note d = pair_relD [OF rel]
  obtain m where m: "fp_partial a i = Some m" using ok call conns_open [OF d(5), of i] by auto
  have pm: "parts_at (links_of p a) i = Some m" using m by (simp add: links_of_def)
  have part: "part_of opcode part is_end (upstream p i)" using ok call by simp
  then have "up_at (links_of p a) i \<noteq> []" by (auto simp: links_of_def)
  then obtain r where r: "r \<noteq> []" "upstream p i = [(2, r)]" "m @ r = payload cfg"
    using link_server [OF links_okD [OF d(6)] pm] by (auto simp: links_of_def)
  obtain r' where "r = part @ r'" "is_end \<longleftrightarrow> r' = []" "opcode = 2"
      "rest_of part (upstream p i) = (if r' = [] then [] else [(2, r')])"
    using part unfolding r(2) by (rule part_of_one) auto
  then show thesis using that [OF m] r by simp
qed

lemma sim_server_data:
  assumes rel: "pair_rel R limit cfg p a" and ok: "pair_ok sv cfg p (PairServer e)"
    and call: "sv_call sv e = CallGet i opcode part is_end"
  shows "simulated sv R cfg p a (PairServer e)"
proof -
  let ?f = "payload cfg"
  obtain m r' where m: "fp_partial a i = Some m" and r: "m @ part @ r' = ?f" "upstream p i = [(2, part @ r')]"
      and r': "is_end \<longleftrightarrow> r' = []" "opcode = 2" "rest_of part (upstream p i) = (if r' = [] then [] else [(2, r')])"
    by (rule server_reads_frame [OF rel ok call])
  define sent where "sent = (if r' = [] then [(2 :: u8, m @ part)] else [])"
  show ?thesis
  proof (rule server_simulated [OF rel, where sent = sent and u = "rest_of part (upstream p i)" and d = "downstream p i"])
    show "call_ok limit a (sv_call sv e)"
      using pair_relD(3) [OF rel] arg_cong [OF r(1), of length] m call by simp
    have spec: "fp_partial (call_step (sv_call sv e) a) = (fp_partial a)(i \<mapsto> if r' = [] then [] else m @ part)"
      using m r'(1) call by (auto simp: fp_part_def Let_def)
    show "link_step ?f (links_of p a) (call_move (sv_call sv e))
        ((links_of p a)\<lparr>parts_at := fp_partial (call_step (sv_call sv e) a),
           up_at := (upstream p)(i := rest_of part (upstream p i)),
           down_at := (downstream p)(i := if phases (pair_client p) i = None then [] else downstream p i @ sent)\<rparr>)"
    proof (cases "r' = []")
      case True
      then show ?thesis
        unfolding spec using server_last [of "links_of p a" i m part ?f] m r(2) r'(3) True call
        by (simp add: links_of_def sent_def cong: if_cong)
    next
      case False
      then have "sent = []" by (simp add: sent_def)
      then show ?thesis
        unfolding spec using server_part [of "links_of p a" i m part r' ?f] m r(2) r'(3) False call
          down_same [OF rel, of i]
        by (simp add: links_of_def cong: if_cong split del: if_split)
    qed
    show "fp_out (call_step (sv_call sv e) a) i = fp_out a i @ sent \<or> fp_out (call_step (sv_call sv e) a) i = [] \<and> sent = []"
      using m r'(1,2) call by (simp add: sent_def fp_part_def Let_def)
  qed (use ok call in simp_all)
qed

lemma sim_open:
  assumes rel: "pair_rel R limit cfg p a" and ok: "pair_ok sv cfg p (PairOpen i e)"
  shows "simulated sv R cfg p a (PairOpen i e)"
proof (rule client_simulated [OF rel, where cev = "ConnOpen i e" and i = i and d = "downstream p i"])
  fix c sent
  assume "client_moves cfg (ConnOpen i e) (pair_client p) c" and "frames c = frames (pair_client p) @ sent"
  then have m: "phases (pair_client p) i = Some Unsent" "phases c = (phases (pair_client p))(i \<mapsto> Waiting [])"
      "sent = [(i, 2, payload cfg)]"
    by simp_all
  then show "(\<forall>j. j \<noteq> i \<longrightarrow> frames_to j sent = []) \<and>
      link_step (payload cfg) (links_of p a) (move_of sv (PairOpen i e))
        ((links_of p a)\<lparr>phase_at := phases c,
           up_at := (upstream p)(i := if fp_partial a i = None then [] else upstream p i @ frames_to i sent),
           down_at := (downstream p)(i := if phases c i = None then [] else downstream p i)\<rparr>)"
    using opens [of "links_of p a" i "payload cfg"] by (simp add: links_of_def sends_up_def cong: if_cong)
qed (use ok in simp_all)

lemma sim_client_close:
  assumes rel: "pair_rel R limit cfg p a" and ok: "pair_ok sv cfg p (PairClientClose i status_code now_ns)"
  shows "simulated sv R cfg p a (PairClientClose i status_code now_ns)"
proof (rule client_simulated [OF rel, where cev = "ConnClose i status_code now_ns" and i = i and d = "downstream p i"])
  fix c sent
  assume "client_moves cfg (ConnClose i status_code now_ns) (pair_client p) c" and "frames c = frames (pair_client p) @ sent"
  then have m: "phases c = (phases (pair_client p))(i := None)" "sent = []" by simp_all
  have "phases (pair_client p) i \<noteq> None" using ok by (auto simp: client_ok_def phases_def)
  moreover have "(upstream p)(i := if fp_partial a i = None then [] else upstream p i) = upstream p"
    using link_still(3) [OF links_okD [OF pair_relD(6) [OF rel], of i]] by (auto simp: links_of_def fun_eq_iff)
  ultimately show "(\<forall>j. j \<noteq> i \<longrightarrow> frames_to j sent = []) \<and>
      link_step (payload cfg) (links_of p a) (move_of sv (PairClientClose i status_code now_ns))
        ((links_of p a)\<lparr>phase_at := phases c,
           up_at := (upstream p)(i := if fp_partial a i = None then [] else upstream p i @ frames_to i sent),
           down_at := (downstream p)(i := if phases c i = None then [] else downstream p i)\<rparr>)"
    using client_leaves [of "links_of p a" i "payload cfg"] m by (simp add: links_of_def cong: if_cong split del: if_split)
qed (use ok in simp_all)

text \<open>The server keeps the client's side of the contract: what the client reads is an echo.\<close>

lemma client_reads_echo:
  assumes rel: "pair_rel R limit cfg p a" and ok: "pair_ok sv cfg p (PairClientRead i e)" and data: "\<not> rv_is_control_msg e"
  obtains q r' where "phases (pair_client p) i = Some (Waiting q)" and "upstream p i = []"
    and "q @ rv_part e @ r' = payload cfg" and "downstream p i = [(2, rv_part e @ r')]"
    and "rv_is_msg_end e \<longleftrightarrow> r' = []" and "rest_of (rv_part e) (downstream p i) = (if r' = [] then [] else [(2, r')])"
proof -
  note i = links_okD [OF pair_relD(6) [OF rel], of i]
  have part: "part_of (ucast (rv_opcode e)) (rv_part e) (rv_is_msg_end e) (downstream p i)" using ok data by simp
  then have down: "downstream p i \<noteq> []" by auto
  have "phases (pair_client p) i \<noteq> None" using ok by (simp add: conns_None)
  then obtain q where q: "phases (pair_client p) i = Some (Waiting q)"
    using link_still(1) [OF i] down by (auto simp: links_of_def) (metis phase.exhaust)
  then obtain r where r: "upstream p i = []" "downstream p i = [(2, r)]" "q @ r = payload cfg"
    using link_waiting [OF i, of q] down by (auto simp: links_of_def)
  obtain r' where "r = rv_part e @ r'" "rest_of (rv_part e) (downstream p i) = (if r' = [] then [] else [(2, r')])"
      "rv_is_msg_end e \<longleftrightarrow> r' = []"
    using part unfolding r(2) by (rule part_of_one) auto
  then show thesis using that q r by auto
qed

lemma client_read_ok:
  assumes rel: "pair_rel R limit cfg p a" and ok: "pair_ok sv cfg p (PairClientRead i e)"
  shows "client_ok cfg (pair_client p) (ConnRead i e)"
proof -
  obtain c where c: "conns (pair_client p) i = Some c" using ok by auto
  show ?thesis
  proof (cases "rv_is_control_msg e")
    case True
    then show ?thesis using ok c by (simp add: client_ok_def)
  next
    case False
    obtain q r' where q: "phases (pair_client p) i = Some (Waiting q)" "q @ rv_part e @ r' = payload cfg"
        "rv_is_msg_end e \<longleftrightarrow> r' = []"
      by (rule client_reads_echo [OF rel ok False])
    have "conn_inv cfg c" using pair_relD(2) [OF rel] c by (auto simp: client_inv_def base_inv_def)
    moreover obtain f where f: "conn_wire c = Awaiting f"
      using q(1) c by (cases "conn_wire c") (auto simp: phases_def phase_of_def)
    ultimately obtain buf where buf: "temp_buf (conn_ctx c) = Some buf" "f = payload cfg"
      by (auto simp: conn_inv_def collects_def)
    then have "io_contents buf = q" using q(1) c f by (simp add: phases_def phase_of_def)
    then have "echo_part (conn_wire c) (temp_buf (conn_ctx c)) e"
      using f buf q(3) prefixI [of "payload cfg" "q @ rv_part e" r'] append_self_conv [of "q @ rv_part e" r'] q(2)
      by auto
    then show ?thesis using ok c False by (simp add: client_ok_def)
  qed
qed

lemma sim_client_control:
  assumes rel: "pair_rel R limit cfg p a" and ok: "pair_ok sv cfg p (PairClientRead i e)" and kind: "rv_is_control_msg e"
  shows "simulated sv R cfg p a (PairClientRead i e)"
proof (rule client_simulated [OF rel client_read_ok [OF rel ok], where i = i and d = "downstream p i"])
  fix c sent
  assume "client_moves cfg (ConnRead i e) (pair_client p) c" and "frames c = frames (pair_client p) @ sent"
  then have m: "c = pair_client p" "sent = []" using kind by simp_all
  have "(upstream p)(i := if fp_partial a i = None then [] else upstream p i) = upstream p"
      "(downstream p)(i := if phases (pair_client p) i = None then [] else downstream p i) = downstream p"
    using link_still(2,3) [OF links_okD [OF pair_relD(6) [OF rel], of i]] by (auto simp: links_of_def fun_eq_iff)
  then show "(\<forall>j. j \<noteq> i \<longrightarrow> frames_to j sent = []) \<and>
      link_step (payload cfg) (links_of p a) (move_of sv (PairClientRead i e))
        ((links_of p a)\<lparr>phase_at := phases c,
           up_at := (upstream p)(i := if fp_partial a i = None then [] else upstream p i @ frames_to i sent),
           down_at := (downstream p)(i := if phases c i = None then [] else downstream p i)\<rparr>)"
    using idle [of "payload cfg" "links_of p a"] m kind by (simp add: links_of_def cong: if_cong split del: if_split)
qed (use kind in simp_all)

lemma sim_client_data:
  assumes rel: "pair_rel R limit cfg p a" and ok: "pair_ok sv cfg p (PairClientRead i e)" and data: "\<not> rv_is_control_msg e"
  shows "simulated sv R cfg p a (PairClientRead i e)"
proof -
  let ?f = "payload cfg" and ?d = "rest_of (rv_part e) (downstream p i)" and ?j = "rv_new_id e"
  obtain q r' where q: "phases (pair_client p) i = Some (Waiting q)" "upstream p i = []"
      "q @ rv_part e @ r' = ?f" "downstream p i = [(2, rv_part e @ r')]"
      "rv_is_msg_end e \<longleftrightarrow> r' = []" "?d = (if r' = [] then [] else [(2, r')])"
    by (rule client_reads_echo [OF rel ok data])
  have new: "phases (pair_client p) ?j = None" "fp_partial a ?j = None"
    using ok data conns_open [OF pair_relD(5) [OF rel], of ?j] by (auto simp: conns_None)
  then have ij: "?j \<noteq> i" using q(1) by auto
  show ?thesis
  proof (rule client_simulated [OF rel client_read_ok [OF rel ok], where i = i and d = ?d])
    fix c sent
    assume mv: "client_moves cfg (ConnRead i e) (pair_client p) c" and fr: "frames c = frames (pair_client p) @ sent"
    have up: "(upstream p)(i := []) = upstream p" using q(2) by auto
    consider (part) "r' \<noteq> []" "phases c = (phases (pair_client p))(i \<mapsto> Waiting (q @ rv_part e))" "sent = []"
      | (onwards) "r' = []" "phases c = (phases (pair_client p))(i \<mapsto> Waiting [])" "sent = [(i, 2, ?f)]"
      | (last) w where "r' = []" "w \<in> {None, Some Finished}" "sent = []" "phases c = (phases (pair_client p))(i := w)"
      | (heir) w where "r' = []" "w \<in> {None, Some Finished}" "sent = []"
          "phases c = (phases (pair_client p))(i := w, ?j \<mapsto> Unsent)"
      using mv fr data q(1,5) by (auto simp: retires_def split: if_splits)
    then have "link_step ?f (links_of p a) (ClientGets i (rv_part e))
        ((links_of p a)\<lparr>phase_at := phases c,
           up_at := (upstream p)(i := if fp_partial a i = None then [] else upstream p i @ frames_to i sent),
           down_at := (downstream p)(i := if phases c i = None then [] else ?d)\<rparr>)"
    proof cases
      case part
      then show ?thesis
        using client_part [of "links_of p a" i q "rv_part e" r' ?f] q(1,4,6) up q(2) by (simp add: links_of_def)
    next
      case onwards
      then show ?thesis
        using client_next [of "links_of p a" i q "rv_part e" ?f] q(1,4,6)
        by (simp add: links_of_def sends_up_def cong: if_cong)
    next
      case last
      then show ?thesis
        using client_last [of "links_of p a" i q "rv_part e" w ?f] q(1,4,6) up q(2) by (simp add: links_of_def cong: if_cong split del: if_split)
    next
      case heir
      then show ?thesis
        using client_heir [of "links_of p a" i q "rv_part e" w ?j ?f] q(1,4,6) up q(2) new ij by (simp add: links_of_def cong: if_cong split del: if_split)
    qed
    moreover have "\<forall>j. j \<noteq> i \<longrightarrow> frames_to j sent = []"
      using mv fr data by (auto simp: retires_def split: if_splits)
    ultimately show "(\<forall>j. j \<noteq> i \<longrightarrow> frames_to j sent = []) \<and>
      link_step ?f (links_of p a) (move_of sv (PairClientRead i e))
        ((links_of p a)\<lparr>phase_at := phases c,
           up_at := (upstream p)(i := if fp_partial a i = None then [] else upstream p i @ frames_to i sent),
           down_at := (downstream p)(i := if phases c i = None then [] else ?d)\<rparr>)"
      using data by simp
  qed (use data in simp_all)
qed

lemma pair_step_simulated:
  assumes rel: "pair_rel R limit cfg p a" and ok: "pair_ok sv cfg p ev"
  shows "simulated sv R cfg p a ev"
proof (cases ev)
  case (PairServer e)
  then have ok: "pair_ok sv cfg p (PairServer e)" using ok by simp
  have "simulated sv R cfg p a (PairServer e)"
    by (cases "sv_call sv e")
      (rule sim_accept [OF rel ok] sim_server_data [OF rel ok] sim_server_leaves [OF rel ok] sim_server_other [OF rel ok], assumption)+
  then show ?thesis using PairServer by simp
next
  case (PairOpen i e)
  then show ?thesis using sim_open assms by blast
next
  case (PairClientRead i e)
  then show ?thesis using sim_client_control sim_client_data assms by blast
next
  case (PairClientClose i status_code now_ns)
  then show ?thesis using sim_client_close assms by blast
qed

lemma simulatedE:
  assumes "pair_rel R limit cfg p a" and "pair_ok sv cfg p ev"
  obtains p' where "pair_step sv cfg ev p = Inr p'" and "pair_rel R limit cfg p' (server_does sv ev a)"
    and "link_step (payload cfg) (links_of p a) (move_of sv ev) (links_of p' (server_does sv ev a))"
    and "case client_does ev of None \<Rightarrow> pair_client p' = pair_client p
        | Some cev \<Rightarrow> client_ok cfg (pair_client p) cev \<and> client_step cfg cev (pair_client p) = Inr (pair_client p')"
proof -
  obtain p' where p': "pair_step sv cfg ev p = Inr p'" "client_inv cfg (pair_client p')"
      "R (pair_server p') (server_does sv ev a)"
      "link_step (payload cfg) (links_of p a) (move_of sv ev) (links_of p' (server_does sv ev a))"
      "case client_does ev of None \<Rightarrow> pair_client p' = pair_client p
        | Some cev \<Rightarrow> client_ok cfg (pair_client p) cev \<and> client_step cfg cev (pair_client p) = Inr (pair_client p')"
    using pair_step_simulated [OF assms] unfolding simulated_def by blast
  moreover have "links_ok (payload cfg) (links_of p' (server_does sv ev a))"
    by (rule links_ok_step [OF pair_relD(4,6) [OF assms(1)] p'(4)])
  ultimately show thesis using assms(1) by (intro that [of p']) (simp_all add: pair_rel_def)
qed

lemma pair_simulation: "simulation (pair_step sv cfg) (pair_ok sv cfg) (server_does sv) (pair_rel R limit cfg)"
proof
  fix p a ev assume "pair_rel R limit cfg p a" and "pair_ok sv cfg p ev"
  then show "\<exists>p'. pair_step sv cfg ev p = Inr p' \<and> pair_rel R limit cfg p' (server_does sv ev a)"
    by (rule simulatedE) blast
qed

lemma pair_start_rel:
  assumes "cfg_ok cfg" and "starts_ok cfg ss" and "start_clients cfg ss new_client = Inr c0"
    and "cl_max_data_len cfg \<le> limit"
  shows "pair_rel R limit cfg (pair_start s0 c0) fp_init"
proof -
  obtain c1 where c1: "start_clients cfg ss new_client = Inr c1" "client_inv cfg c1"
      "\<And>i c. conns c1 i = Some c \<Longrightarrow> conn_wire c = Connecting"
    by (rule client_starts [OF assms(1,2)]) blast
  then have "phases c0 i \<in> {None, Some Unsent}" for i
    using assms(3) by (cases "conns c0 i") (auto simp: phases_def phase_of_def)
  then have ph: "phases c0 i = None \<or> phases c0 i = Some Unsent" for i by blast
  have "link_ok (payload cfg) (links_of (pair_start s0 c0) fp_init) i" for i
    using ph [of i] by (auto simp: link_defs links_of_def pair_start_def fp_init_def)
  then show ?thesis
    using c1(1,2) assms init by (simp add: pair_rel_def links_ok_def) (simp add: pair_start_def)
qed

text \<open>The client's part of a run is a run of the client in its own right.\<close>

lemma client_projection:
  "pair_rel R limit cfg p a \<Longrightarrow> admissible (pair_step sv cfg) (pair_ok sv cfg) p es \<Longrightarrow>
   run (pair_step sv cfg) es p = Inr p' \<Longrightarrow>
   admissible (client_step cfg) (client_ok cfg) (pair_client p) (client_events es)
   \<and> run (client_step cfg) (client_events es) (pair_client p) = Inr (pair_client p')"
proof (induction es arbitrary: p a)
  case Nil
  then show ?case by simp
next
  case (Cons e es)
  then have ok: "pair_ok sv cfg p e" by simp
  obtain p1 where p1: "pair_step sv cfg e p = Inr p1" "pair_rel R limit cfg p1 (server_does sv e a)"
      "case client_does e of None \<Rightarrow> pair_client p1 = pair_client p
        | Some cev \<Rightarrow> client_ok cfg (pair_client p) cev \<and> client_step cfg cev (pair_client p) = Inr (pair_client p1)"
    by (rule simulatedE [OF Cons.prems(1) ok])
  with Cons.IH [OF p1(2)] Cons.prems show ?case by (cases "client_does e") auto
qed

end

end
