(* ===== verification/BenchEnds.thy ===== *)
theory BenchEnds
  imports BenchPairProps
begin

text \<open>
  What the end of the benchmark rests on: the books of both programs, which agree along every calm
  run, and the work that is left, which every calm step makes smaller.
\<close>

section \<open>Connections lost\<close>

lemma EndClient_lost: "EndClient cfg now s = Inr s' \<Longrightarrow> lost s' = lost s"
  by (auto simp: EndClient_def Let_def split: stream.splits)

lemma OnClose_lost: "OnClose cfg i now s = Inr s' \<Longrightarrow> lost s' = lost s"
  by (auto simp: OnClose_def Let_def dest: EndClient_lost split: option.splits if_splits)

lemma send_frame_lost: "send_frame cfg i ret buf ctx fresh s = Inr s' \<Longrightarrow> lost s' = lost s"
  by (auto simp: send_frame_def bindE_eq_Inr)

lemma record_progress_lost: "record_progress cfg e ns buf s = Inr s' \<Longrightarrow> lost s' = lost s"
  by (auto simp: record_progress_def bindE_eq_Inr Let_def split: if_splits)

lemma end_life_lost:
  assumes "end_life cfg i e ctx buf s = Inr s'"
  shows "lost s' = lost s"
proof -
  from assms obtain s1 where
    "(if rv_close_sync e then OnClose cfg i (rv_now_ns e) (put_conn i (ctx\<lparr>temp_buf := None\<rparr>) Closing s)
      else Inr (put_conn i (ctx\<lparr>temp_buf := None\<rparr>) Closing s)) = Inr s1" "lost s' = lost s1"
    by (auto simp: end_life_def bindE_eq_Inr Let_def dest: EndClient_lost split: if_splits)
  then show ?thesis by (auto dest: OnClose_lost split: if_splits)
qed

lemma OnRead_lost: "OnRead cfg i e s = Inr s' \<Longrightarrow> lost s' = lost s"
  by (auto simp: OnRead_def bindE_eq_Inr Let_def split: option.splits if_splits
      dest!: EndClient_lost end_life_lost send_frame_lost record_progress_lost)

lemma OnOpen_lost: "OnOpen cfg i e s = Inr s' \<Longrightarrow> lost s' = lost s"
  by (auto simp: OnOpen_def WriteFirstMsg_def bindE_eq_Inr Let_def split: option.splits if_splits
      dest!: send_frame_lost)

text \<open>A connection that has done its work owes nothing.\<close>

lemma step_lost:
  assumes "client_step cfg ev s = Inr s'" and "\<And>i code now. ev = ConnClose i code now \<Longrightarrow> phases s i = Some Finished"
  shows "lost s' = lost s"
proof (cases ev)
  case (ConnClose i code now)
  then have "lost_at cfg i s = 0"
    using assms(2) by (auto simp: lost_at_def owed_def phases_def phase_of_def split: option.splits wire.splits)
  then show ?thesis using assms(1) ConnClose by (auto dest: OnClose_lost)
qed (use assms(1) in \<open>auto dest: OnRead_lost OnOpen_lost\<close>)

section \<open>Calm runs of the two programs\<close>

text \<open>Of the parts that the server has, only whether the connection is open counts here.\<close>

definition links_seen :: "('s, 'e) server \<Rightarrow> 's peers \<Rightarrow> links" where
  "links_seen sv p = \<lparr>phase_at = phases (pair_client p),
     parts_at = (\<lambda>i. if sv_open sv (pair_server p) i then Some [] else None),
     up_at = upstream p, down_at = downstream p\<rparr>"

definition calm_ok :: "('s, 'e) server \<Rightarrow> client_cfg \<Rightarrow> 's peers \<Rightarrow> 'e pair_event \<Rightarrow> bool" where
  "calm_ok sv cfg p ev \<longleftrightarrow> pair_ok sv cfg p ev \<and> calm (links_seen sv p) (move_of sv ev)"

text \<open>
  The books: each message that the server has counted is an echo that the client has counted or
  one under way to it.
\<close>

definition echoes_down :: "links \<Rightarrow> nat \<Rightarrow> nat" where
  "echoes_down l i = length (down_at l i)"

definition bytes_held :: "links \<Rightarrow> nat \<Rightarrow> nat" where
  "bytes_held l i = (case parts_at l i of None \<Rightarrow> 0 | Some m \<Rightarrow> length m)"

definition books :: "nat \<Rightarrow> nat \<Rightarrow> links \<Rightarrow> fws_spec \<Rightarrow> bool" where
  "books n echoes l a \<longleftrightarrow> few (echoes_down l) \<and> few (bytes_held l)
     \<and> fp_msgs a = echoes + tot (echoes_down l)
     \<and> fp_send_bytes a = n * fp_msgs a
     \<and> fp_recv_bytes a = n * fp_msgs a + tot (bytes_held l)"

definition calm_rel ::
  "('s \<Rightarrow> fws_spec \<Rightarrow> bool) \<Rightarrow> nat \<Rightarrow> client_cfg \<Rightarrow> 's peers \<Rightarrow> fws_spec \<Rightarrow> bool" where
  "calm_rel R limit cfg p a \<longleftrightarrow> pair_rel R limit cfg p a \<and> lost (pair_client p) = 0
     \<and> (\<forall>i. served (links_of p a) i) \<and> few (link_work (cl_max_data_len cfg) (links_of p a))
     \<and> books (cl_max_data_len cfg) (unat (loop_cnt (pair_client p))) (links_of p a) a"

text \<open>What is left to do: the messages owed, and the work on the connections.\<close>

definition work_left :: "client_cfg \<Rightarrow> 's peers \<Rightarrow> fws_spec \<Rightarrow> nat" where
  "work_left cfg p a = (unat (cl_total cfg) - unat (loop_cnt (pair_client p))) * (2 * cl_max_data_len cfg + 4)
     + tot (link_work (cl_max_data_len cfg) (links_of p a))"

lemma books_same:
  assumes "books n k l a" and "echoes_down l' = echoes_down l" and "bytes_held l' = bytes_held l"
    and "fp_msgs a' = fp_msgs a" and "fp_send_bytes a' = fp_send_bytes a" and "fp_recv_bytes a' = fp_recv_bytes a"
  shows "books n k l' a'"
  using assms by (simp add: books_def)

lemma books_arrive:
  assumes "books n k l a" and "echoes_down l' = (echoes_down l)(i := 0)" and "echoes_down l i = 1" and "bytes_held l' = bytes_held l"
  shows "books n (Suc k) l' a"
  using assms tot_upd [of "echoes_down l" i 0] few_upd [of "echoes_down l" i 0] by (simp add: books_def)

lemma books_server:
  assumes "books n k l a" and "echoes_down l' = echoes_down l" and "bytes_held l' = (bytes_held l)(i := bytes_held l i + j)"
    and "fp_msgs a' = fp_msgs a" and "fp_send_bytes a' = fp_send_bytes a" and "fp_recv_bytes a' = fp_recv_bytes a + j"
  shows "books n k l' a'"
  using assms tot_upd [of "bytes_held l" i "bytes_held l i + j"] few_upd [of "bytes_held l" i "bytes_held l i + j"]
  by (simp add: books_def)

lemma books_echo:
  assumes "books n k l a" and "echoes_down l' = (echoes_down l)(i := 1)" and "echoes_down l i = 0"
    and "bytes_held l' = (bytes_held l)(i := 0)" and "bytes_held l i + j = n"
    and "fp_msgs a' = fp_msgs a + 1" and "fp_send_bytes a' = fp_send_bytes a + n" and "fp_recv_bytes a' = fp_recv_bytes a + j"
  shows "books n k l' a'"
  using assms tot_upd [of "bytes_held l" i 0] few_upd [of "bytes_held l" i 0]
    tot_upd [of "echoes_down l" i 1] few_upd [of "echoes_down l" i 1]
  by (simp add: books_def)

lemma bytes_held_idle: "link_ok f l i \<Longrightarrow> up_at l i = [] \<Longrightarrow> bytes_held l i = 0"
  by (auto simp: link_defs bytes_held_def split: option.splits)

lemmas books_obs = echoes_down_def bytes_held_def fun_eq_iff

lemma books_client_read:
  assumes b: "books n k l a" and step: "link_step f l (ClientGets i part) l'"
  shows "books n (k + (if echo_done l (ClientGets i part) then 1 else 0)) l' a"
proof -
  have echo: "echo_done l (ClientGets i part) \<longleftrightarrow> down_at l i = [(2, part)]" by (simp add: echo_done_def)
  from step show ?thesis
  proof cases
    case (client_part q r)
    have "books n k l' a"
      by (rule books_same [OF b]) (use client_part in \<open>auto simp: books_obs\<close>)
    then show ?thesis using client_part by (simp add: echo)
  next
    case (client_next q)
    have "books n (Suc k) l' a"
      by (rule books_arrive [OF b, of l' i]) (use client_next in \<open>auto simp: books_obs sends_up_def\<close>)
    then show ?thesis using client_next by (simp add: echo)
  next
    case (client_last q w)
    have "books n (Suc k) l' a"
      by (rule books_arrive [OF b, of l' i]) (use client_last in \<open>auto simp: books_obs\<close>)
    then show ?thesis using client_last by (simp add: echo)
  next
    case (client_heir q w j)
    have "books n (Suc k) l' a"
      by (rule books_arrive [OF b, of l' i]) (use client_heir in \<open>auto simp: books_obs\<close>)
    then show ?thesis using client_heir by (simp add: echo)
  qed
qed

text \<open>The other steps leave what is under way as it is.\<close>

lemma still_quiet:
  assumes l: "links_ok f l" "served l i" and step: "link_step f l mv l'" and calm: "calm l mv"
    and mv: "mv \<in> {Accepts i, Opens i, ServerLeaves i, ClientLeaves i}"
  shows "echoes_down l' = echoes_down l \<and> bytes_held l' = bytes_held l"
proof -
  note link = links_okD [OF l(1), of i]
  have "up_at l i = []" if "mv = ServerLeaves i"
    using calm that l(2) link_still(1) [OF link] by (auto simp: served_def)
  then have idle: "mv = ServerLeaves i \<Longrightarrow> bytes_held l i = 0" using bytes_held_idle [OF link] by blast
  have empty: "down_at l i = []" if "mv = Accepts i \<or> mv = ClientLeaves i"
    using that calm step link_still(1) [OF link] by (auto elim: link_step.cases)
  from step show ?thesis
    by cases (use idle empty mv in \<open>auto simp: books_obs sends_up_def\<close>)
qed

section \<open>The books of the two programs\<close>

context echo_peer
begin

lemma loop_le_total:
  assumes "pair_rel R limit cfg p a"
  shows "unat (loop_cnt (pair_client p)) \<le> unat (cl_total cfg)"
  using pair_relD(2) [OF assms] by (simp add: client_inv_def base_inv_def counts_inv_def)

text \<open>The echoes that the client counts, in the protocol.\<close>

lemma server_no_echo: "\<not> echo_done l (call_move c)"
  by (cases c) (simp_all add: echo_done_def)

lemma loop_cnt_moves:
  assumes rel: "pair_rel R limit cfg p a" and ok: "pair_ok sv cfg p ev"
    and p': "case client_does ev of None \<Rightarrow> pair_client p' = pair_client p
        | Some cev \<Rightarrow> client_ok cfg (pair_client p) cev \<and> client_step cfg cev (pair_client p) = Inr (pair_client p')"
  shows "unat (loop_cnt (pair_client p')) = unat (loop_cnt (pair_client p)) + (if echo_done (links_of p a) (move_of sv ev) then 1 else 0)"
proof (cases "client_does ev")
  case None
  then have "\<not> echo_done (links_of p a) (move_of sv ev)" by (cases ev) (simp_all add: server_no_echo)
  then show ?thesis using p' None by simp
next
  case (Some cev)
  then have "client_ok cfg (pair_client p) cev" "client_step cfg cev (pair_client p) = Inr (pair_client p')"
    using p' by simp_all
  then have "unat (loop_cnt (pair_client p')) = unat (loop_cnt (pair_client p)) + (if is_echo cev then 1 else 0)"
    by (rule step_echo_exact [OF pair_relD(1,2) [OF rel]])
  moreover have "is_echo cev \<longleftrightarrow> echo_done (links_of p a) (move_of sv ev)"
  proof (cases ev)
    case (PairClientRead i e)
    show ?thesis
    proof (cases "rv_is_control_msg e")
      case True
      then show ?thesis using Some PairClientRead by (auto simp: echo_done_def)
    next
      case False
      obtain r' where "downstream p i = [(2, rv_part e @ r')]" "rv_is_msg_end e \<longleftrightarrow> r' = []"
        by (rule client_reads_echo [OF rel _ False, of i]) (use ok PairClientRead in blast)+
      then show ?thesis using Some PairClientRead False by (auto simp: echo_done_def links_of_def)
    qed
  qed (use Some in \<open>auto simp: echo_done_def\<close>)
  ultimately show ?thesis by simp
qed

lemma books_server_read:
  assumes rel: "pair_rel R limit cfg p a" and srv: "served (links_of p a) i" and ok: "pair_ok sv cfg p (PairServer e)"
    and call: "sv_call sv e = CallGet i opcode part is_end"
    and step: "link_step (payload cfg) (links_of p a) (ServerGets i part) l'"
    and b: "books (cl_max_data_len cfg) k (links_of p a) a"
  shows "books (cl_max_data_len cfg) k l' (call_step (CallGet i opcode part is_end) a)"
proof -
  let ?l = "links_of p a"
  obtain m r' where r: "fp_partial a i = Some m" "m @ part @ r' = payload cfg"
      "upstream p i = [(2, part @ r')]" "is_end \<longleftrightarrow> r' = []"
    by (rule server_reads_frame [OF rel ok call])
  have up: "up_at ?l i = [(2, part @ r')]" and parts: "parts_at ?l i = Some m"
    using r(1,3) by (simp_all add: links_of_def)
  have ph: "phase_at ?l i = Some (Waiting [])" "down_at ?l i = []"
    using link_under_way [OF links_okD [OF pair_relD(6) [OF rel], of i]] up srv by (auto simp: served_def)
  have n: "length m + length part + length r' = cl_max_data_len cfg"
    using arg_cong [OF r(2), of length] by simp
  from step show ?thesis
  proof cases
    case (server_part m' r)
    then have "m' = m" "\<not> is_end" using parts up r(4) by auto
    show ?thesis
      by (rule books_server [OF b, of l' i "length part"])
        (use server_part parts r(1) \<open>\<not> is_end\<close> in \<open>auto simp: books_obs fp_part_def Let_def\<close>)
  next
    case (server_last m')
    then have "m' = m" "is_end" using parts up r(4) by auto
    show ?thesis
      by (rule books_echo [OF b, of l' i "length part"])
        (use server_last parts r(1,2,4) ph n \<open>is_end\<close> in \<open>auto simp: books_obs Let_def\<close>)
  qed
qed

lemma calm_seen:
  assumes "pair_rel R limit cfg p a"
  shows "calm (links_seen sv p) mv \<longleftrightarrow> calm (links_of p a) mv"
  using conns_open [OF pair_relD(5) [OF assms]] by (cases mv) (simp_all add: links_seen_def links_of_def)

lemma calm_okD:
  assumes "pair_rel R limit cfg p a" and "calm_ok sv cfg p ev"
  shows "pair_ok sv cfg p ev" and "calm (links_of p a) (move_of sv ev)"
  using assms by (simp_all add: calm_ok_def calm_seen)

lemma books_step:
  assumes rel: "pair_rel R limit cfg p a" and srv: "\<And>i. served (links_of p a) i" and ok: "calm_ok sv cfg p ev"
    and step: "link_step (payload cfg) (links_of p a) (move_of sv ev) l'"
    and b: "books (cl_max_data_len cfg) k (links_of p a) a"
  shows "books (cl_max_data_len cfg) (k + (if echo_done (links_of p a) (move_of sv ev) then 1 else 0)) l' (server_does sv ev a)"
proof -
  note pok = calm_okD(1) [OF rel ok] and calm = calm_okD(2) [OF rel ok]
  have still: ?thesis
    if "move_of sv ev \<in> {Accepts i, Opens i, ServerLeaves i, ClientLeaves i}"
      "fp_msgs (server_does sv ev a) = fp_msgs a" "fp_send_bytes (server_does sv ev a) = fp_send_bytes a"
      "fp_recv_bytes (server_does sv ev a) = fp_recv_bytes a" for i
  proof -
    have "\<not> echo_done (links_of p a) (move_of sv ev)" using that(1) by (auto simp: echo_done_def)
    then show ?thesis
      using books_same [OF b _ _ that(2-4)] still_quiet [OF pair_relD(6) [OF rel] srv step calm that(1)] by simp
  qed
  show ?thesis
  proof (cases ev)
    case (PairServer e)
    show ?thesis
    proof (cases "sv_call sv e")
      case (CallGet i opcode part is_end)
      then show ?thesis
        using books_server_read [OF rel srv _ CallGet _ b] pok step PairServer by (simp add: echo_done_def)
    next
      case (CallAccept i)
      then show ?thesis using PairServer by (intro still [of i]) simp_all
    next
      case (CallLeave i)
      then show ?thesis using PairServer by (intro still [of i]) simp_all
    next
      case (CallOther i)
      then show ?thesis using calm PairServer by simp
    qed
  next
    case (PairClientRead i e)
    then have "move_of sv ev = ClientGets i (rv_part e)" "server_does sv ev a = a" using calm by auto
    then show ?thesis using books_client_read [OF b, of "payload cfg" i "rv_part e" l'] step by simp
  next
    case (PairOpen i e)
    then show ?thesis by (intro still [of i]) simp_all
  next
    case (PairClientClose i status_code now_ns)
    then show ?thesis by (intro still [of i]) simp_all
  qed
qed

end

end
