(* ===== verification/Benchmark.thy ===== *)
theory Benchmark
  imports BenchEnds
begin

text \<open>
  The properties of the benchmark: the flashws client against any server that keeps the contract
  \<open>echo_peer\<close> never fails; and when no connection breaks it ends, within a number of steps that its
  parameters give, with the same figures on both sides. The flashws, uWebSockets and websocketpp
  servers keep it.
\<close>

section \<open>Calm steps\<close>

lemma stock_shrinks:
  fixes k k' t w w' c :: nat
  assumes "k' = k + (if b then 1 else 0)" and "k' \<le> t" and "w' + 1 \<le> w + (if b then c else 0)"
  shows "(t - k') * c + w' < (t - k) * c + w"
proof (cases b)
  case True
  then have "t - k = Suc (t - k')" using assms(1,2) by simp
  then show ?thesis using True assms(3) by simp
qed (use assms in simp)

text \<open>What the library can always deliver to the client: a whole message, and buffers of the size asked for.\<close>

definition whole_downstream :: "client_cfg \<Rightarrow> u8 list \<Rightarrow> nat \<Rightarrow> recv_event" where
  "whole_downstream cfg f j =
     \<lparr>rv_opcode = 2, rv_part = f, rv_is_frame_end = True, rv_is_msg_end = True, rv_is_control_msg = False,
      rv_stop_tick = 0, rv_start_tick = 0, rv_now_ns = 0, rv_close_sync = False, rv_socket_count = 1,
      rv_rets = good_rets, rv_new_id = j, rv_write_ret = 0,
      rv_fresh = blank (cl_max_data_len cfg + cl_reserve cfg)\<rparr>"

definition plain_open :: "client_cfg \<Rightarrow> open_event" where
  "plain_open cfg =
     \<lparr>op_now_ns = 0, op_start_tick = 0, op_write_ret = 0,
      op_fresh = blank (cl_max_data_len cfg + cl_reserve cfg)\<rparr>"

lemma fresh_blank [simp]: "fresh_for n (blank n)"
  by (simp add: fresh_for_def blank_def)

lemma room_blank [simp]: "room_for cfg (blank (cl_max_data_len cfg + cl_reserve cfg))"
  by (simp add: room_for_def)

context echo_peer
begin

lemma calm_step:
  assumes rel: "calm_rel R limit cfg p a" and ok: "calm_ok sv cfg p ev"
  obtains p' where "pair_step sv cfg ev p = Inr p'" and "calm_rel R limit cfg p' (server_does sv ev a)"
    and "work_left cfg p' (server_does sv ev a) < work_left cfg p a"
proof -
  let ?l = "links_of p a" and ?n = "cl_max_data_len cfg" and ?T = "unat (cl_total cfg)"
  have prel: "pair_rel R limit cfg p a" and srv: "\<And>i. served ?l i" and lost: "lost (pair_client p) = 0"
    and w: "few (link_work ?n ?l)" and b: "books ?n (unat (loop_cnt (pair_client p))) ?l a"
    using rel by (simp_all add: calm_rel_def)
  note pok = calm_okD(1) [OF prel ok] and calm = calm_okD(2) [OF prel ok]
  obtain p' where p': "pair_step sv cfg ev p = Inr p'" "pair_rel R limit cfg p' (server_does sv ev a)"
      "link_step (payload cfg) ?l (move_of sv ev) (links_of p' (server_does sv ev a))"
      "case client_does ev of None \<Rightarrow> pair_client p' = pair_client p
        | Some cev \<Rightarrow> client_ok cfg (pair_client p) cev \<and> client_step cfg cev (pair_client p) = Inr (pair_client p')"
    by (rule simulatedE [OF prel pok])
  note work = link_step_work [OF pair_relD(6) [OF prel] srv p'(3) calm, unfolded length_payload, OF w]
  have cnt: "unat (loop_cnt (pair_client p')) = unat (loop_cnt (pair_client p)) + (if echo_done ?l (move_of sv ev) then 1 else 0)"
    by (rule loop_cnt_moves [OF prel pok p'(4)])
  have "lost (pair_client p') = lost (pair_client p)"
  proof (cases "client_does ev")
    case (Some cev)
    then have "client_step cfg cev (pair_client p) = Inr (pair_client p')" using p'(4) by simp
    then show ?thesis
    proof (rule step_lost)
      fix i code now assume "cev = ConnClose i code now"
      with Some have "ev = PairClientClose i code now" by (cases ev) auto
      with calm show "phases (pair_client p) i = Some Finished" by (simp add: links_of_def)
    qed
  qed (use p'(4) in simp)
  moreover have "served (links_of p' (server_does sv ev a)) i" for i
    by (rule served_step [OF srv pair_relD(6) [OF prel] p'(3) calm])
  ultimately have "calm_rel R limit cfg p' (server_does sv ev a)"
    using books_step [OF prel srv ok p'(3) b] p'(2) work(2) lost cnt by (simp add: calm_rel_def)
  moreover have "work_left cfg p' (server_does sv ev a) < work_left cfg p a"
    unfolding work_left_def by (rule stock_shrinks [OF cnt loop_le_total [OF p'(2)] work(1)])
  ultimately show thesis using that p'(1) by blast
qed

lemma calm_dwindling:
  "dwindling (pair_step sv cfg) (calm_ok sv cfg) (server_does sv) (calm_rel R limit cfg) (work_left cfg)"
proof
  fix p a ev assume rel: "calm_rel R limit cfg p a" and ok: "calm_ok sv cfg p ev"
  show "\<exists>p'. pair_step sv cfg ev p = Inr p' \<and> calm_rel R limit cfg p' (server_does sv ev a)"
    by (rule calm_step [OF rel ok]) blast
  fix p' assume "pair_step sv cfg ev p = Inr p'"
  moreover obtain p1 where "pair_step sv cfg ev p = Inr p1" "work_left cfg p1 (server_does sv ev a) < work_left cfg p a"
    by (rule calm_step [OF rel ok])
  ultimately show "work_left cfg p' (server_does sv ev a) < work_left cfg p a" by simp
qed

section \<open>The start\<close>

lemma pair_start_calm:
  assumes "cfg_ok cfg" and "starts_ok cfg ss" and "start_clients cfg ss new_client = Inr c0"
    and "cl_max_data_len cfg \<le> limit"
  shows "calm_rel R limit cfg (pair_start s0 c0) fp_init"
    and "work_left cfg (pair_start s0 c0) fp_init = (unat (cl_total cfg) + length ss) * (2 * cl_max_data_len cfg + 4)"
proof -
  let ?p = "pair_start s0 c0" and ?w = "2 * cl_max_data_len cfg + 4"
  have c0: "client_inv cfg c0 \<and> lost c0 = 0 \<and> (\<forall>i c. conns c0 i = Some c \<longrightarrow> conn_wire c = Connecting)
      \<and> card (dom (conns c0)) = length ss \<and> loop_cnt c0 = 0"
    by (rule client_starts [OF assms(1,2)]) (use assms(3) in auto)
  have fin: "finite (dom (conns c0))" using c0 by (simp add: client_inv_def base_inv_def)
  have ph: "phases c0 i = (if i \<in> dom (conns c0) then Some Unsent else None)" for i
    using c0 by (cases "conns c0 i") (auto simp: phases_def phase_of_def)
  have l: "links_of ?p fp_init = \<lparr>phase_at = phases c0, parts_at = (\<lambda>_. None), up_at = (\<lambda>_. []), down_at = (\<lambda>_. [])\<rparr>"
    by (simp add: links_of_def pair_start_def fp_init_def)
  have w: "link_work (cl_max_data_len cfg) (links_of ?p fp_init) = (\<lambda>i. if i \<in> dom (conns c0) then ?w else 0)"
    by (auto simp: l link_work_def work_on_def ph fun_eq_iff)
  have "{i. (if i \<in> dom (conns c0) then ?w else 0) \<noteq> 0} = dom (conns c0)" by auto
  then have few: "few (link_work (cl_max_data_len cfg) (links_of ?p fp_init))"
    and tot: "tot (link_work (cl_max_data_len cfg) (links_of ?p fp_init)) = length ss * ?w"
    using fin c0 unfolding w few_def tot_def by simp_all
  have "echoes_down (links_of ?p fp_init) = (\<lambda>_. 0)" "bytes_held (links_of ?p fp_init) = (\<lambda>_. 0)"
    by (simp_all add: l echoes_down_def bytes_held_def fun_eq_iff)
  then have "books (cl_max_data_len cfg) 0 (links_of ?p fp_init) fp_init"
    by (simp add: books_def tot_zero fp_init_def)
  moreover have "served (links_of ?p fp_init) i" for i by (simp add: l served_def ph)
  ultimately show "calm_rel R limit cfg ?p fp_init"
    using few pair_start_rel [OF assms] c0 by (simp add: calm_rel_def) (simp add: pair_start_def)
  show "work_left cfg ?p fp_init = (unat (cl_total cfg) + length ss) * ?w"
    using tot c0 unfolding work_left_def by (simp add: pair_start_def algebra_simps)
qed

text \<open>A name that no connection has.\<close>

lemma new_name:
  assumes "few (link_work n (links_of p a))"
  obtains j where "conns (pair_client p) j = None" and "fp_partial a j = None"
proof -
  obtain j where "j \<notin> {k. link_work n (links_of p a) k \<noteq> 0}"
    using assms ex_new_if_finite [OF infinite_UNIV_nat] unfolding few_def by blast
  then have "phases (pair_client p) j = None" "fp_partial a j = None"
    by (auto simp: link_work_def work_on_def links_of_def split: option.splits phase.splits if_splits)
  then show thesis using that by (simp add: conns_None)
qed

text \<open>In a calm run something can happen on each connection that the client has.\<close>

lemma unsent_moves:
  assumes prel: "pair_rel R limit cfg p a" and c: "conns (pair_client p) i = Some c" and run: "\<not> stopped (pair_client p)"
    and w: "conn_wire c = Connecting"
  shows "\<exists>ev. calm_ok sv cfg p ev"
proof (cases "fp_partial a i")
  case None
  obtain e where "sv_call sv e = CallAccept i" "sv_lib sv e" using can_accept by blast
  then have "calm_ok sv cfg p (PairServer e)"
    using c w None conns_open [OF pair_relD(5) [OF prel], of i] by (simp add: calm_ok_def)
  then show ?thesis ..
next
  case (Some m)
  then have "calm_ok sv cfg p (PairOpen i (plain_open cfg))"
    using c w run conns_open [OF pair_relD(5) [OF prel], of i]
    by (simp add: calm_ok_def client_ok_def plain_open_def links_seen_def)
  then show ?thesis ..
qed

lemma waiting_moves:
  assumes rel: "calm_rel R limit cfg p a" and c: "conns (pair_client p) i = Some c" and run: "\<not> stopped (pair_client p)"
    and ph: "phase_of c = Waiting q"
  shows "\<exists>ev. calm_ok sv cfg p ev"
proof -
  let ?l = "links_of p a"
  have prel: "pair_rel R limit cfg p a" and srv: "served ?l i" and few: "few (link_work (cl_max_data_len cfg) ?l)"
    using rel by (simp_all add: calm_rel_def)
  note link = links_okD [OF pair_relD(6) [OF prel], of i]
  have wait: "phase_at ?l i = Some (Waiting q)" using c ph by (simp add: links_of_def phases_def)
  then obtain m where m: "parts_at ?l i = Some m" using srv by (auto simp: served_def)
  from link wait show ?thesis
  proof (cases rule: link_waiting)
    case (1 r)
    obtain j where "conns (pair_client p) j = None" "fp_partial a j = None" by (rule new_name [OF few])
    then have "calm_ok sv cfg p (PairClientRead i (whole_downstream cfg r j))"
      using 1 c run conns_open [OF pair_relD(5) [OF prel], of j]
      by (simp add: calm_ok_def whole_downstream_def links_of_def good_rets_def NewWSClient_def)
    then show ?thesis ..
  next
    case 2
    then obtain r where r: "r \<noteq> []" "up_at ?l i = [(2, r)]" using link_server [OF link m] m by auto
    obtain e where "sv_call sv e = CallGet i 2 r True" "sv_lib sv e" using can_get by blast
    moreover have "sv_open sv (pair_server p) i" using m conns_open [OF pair_relD(5) [OF prel], of i] by (simp add: links_of_def)
    ultimately have "calm_ok sv cfg p (PairServer e)"
      using r by (simp add: calm_ok_def links_of_def)
    then show ?thesis ..
  qed
qed

lemma calm_progress:
  assumes rel: "calm_rel R limit cfg p a" and run: "\<not> stopped (pair_client p)"
  shows "\<exists>ev. calm_ok sv cfg p ev"
proof -
  have prel: "pair_rel R limit cfg p a" and lost: "lost (pair_client p) = 0" using rel by (simp_all add: calm_rel_def)
  have "conns (pair_client p) \<noteq> Map.empty"
    using pair_relD(2) [OF prel] run lost tally_empty by (fastforce simp: client_inv_def end_inv_def)
  then obtain i c where c: "conns (pair_client p) i = Some c" by (auto simp: fun_eq_iff)
  show ?thesis
  proof (cases "conn_wire c")
    case Connecting
    then show ?thesis by (rule unsent_moves [OF prel c run])
  next
    case (Awaiting f)
    then show ?thesis by (intro waiting_moves [OF rel c run]) (simp add: phase_of_def)
  next
    case Closing
    then have "calm_ok sv cfg p (PairClientClose i 0 0)"
      using c run by (simp add: calm_ok_def client_ok_def links_seen_def phases_def phase_of_def)
    then show ?thesis ..
  qed
qed

section \<open>The figures of a complete benchmark\<close>

text \<open>When no connection of the client waits, nothing is under way, and the books are closed.\<close>

lemma nothing_under_way:
  assumes rel: "calm_rel R limit cfg p a" and over: "\<And>i c. conns (pair_client p) i = Some c \<Longrightarrow> conn_wire c = Closing"
  shows "echoes_down (links_of p a) = (\<lambda>_. 0)" and "bytes_held (links_of p a) = (\<lambda>_. 0)"
proof -
  have prel: "pair_rel R limit cfg p a" and srv: "\<And>i. served (links_of p a) i" using rel by (simp_all add: calm_rel_def)
  note link = links_okD [OF pair_relD(6) [OF prel]]
  have ph: "phase_at (links_of p a) i = None \<or> phase_at (links_of p a) i = Some Finished" for i
    using over [of i] by (cases "conns (pair_client p) i") (auto simp: links_of_def phases_def phase_of_def)
  have "down_at (links_of p a) i = []" "up_at (links_of p a) i = []" for i
    using ph [of i] link_still [OF link, of i] srv [of i] by (auto simp: served_def)
  then show "echoes_down (links_of p a) = (\<lambda>_. 0)" "bytes_held (links_of p a) = (\<lambda>_. 0)"
    using bytes_held_idle [OF link] by (simp_all add: echoes_down_def fun_eq_iff)
qed

lemma server_figures:
  assumes rel: "calm_rel R limit cfg p a" and over: "\<And>i c. conns (pair_client p) i = Some c \<Longrightarrow> conn_wire c = Closing"
    and all: "loop_cnt (pair_client p) = cl_total cfg"
  shows "sv_recv_msgs sv (pair_server p) = cl_total cfg \<and> sv_send_msgs sv (pair_server p) = cl_total cfg
     \<and> sv_recv_bytes sv (pair_server p) = of_nat (cl_max_data_len cfg) * cl_total cfg
     \<and> sv_send_bytes sv (pair_server p) = of_nat (cl_max_data_len cfg) * cl_total cfg"
proof -
  have "books (cl_max_data_len cfg) (unat (cl_total cfg)) (links_of p a) a" and prel: "pair_rel R limit cfg p a"
    using rel all by (simp_all add: calm_rel_def)
  moreover have "echoes_down (links_of p a) = (\<lambda>_. 0)" "bytes_held (links_of p a) = (\<lambda>_. 0)"
    by (rule nothing_under_way [OF rel], rule over, assumption)+
  ultimately have "fp_msgs a = unat (cl_total cfg)" "fp_recv_bytes a = cl_max_data_len cfg * unat (cl_total cfg)"
      "fp_send_bytes a = cl_max_data_len cfg * unat (cl_total cfg)"
    by (simp_all add: books_def tot_zero)
  then show ?thesis using totals [OF pair_relD(5) [OF prel]] by simp
qed

section \<open>Runs\<close>

lemma pair_run:
  assumes "cfg_ok cfg" and "starts_ok cfg ss" and "start_clients cfg ss new_client = Inr c0"
    and "cl_max_data_len cfg \<le> limit"
    and "admissible (pair_step sv cfg) (pair_ok sv cfg) (pair_start s0 c0) es"
  obtains p a where "run (pair_step sv cfg) es (pair_start s0 c0) = Inr p" and "pair_rel R limit cfg p a"
  using simulation.run_simulates [OF pair_simulation pair_start_rel [OF assms(1-4)] assms(5)] by blast

lemma calm_run:
  assumes "cfg_ok cfg" and "starts_ok cfg ss" and "start_clients cfg ss new_client = Inr c0"
    and "cl_max_data_len cfg \<le> limit"
    and "admissible (pair_step sv cfg) (calm_ok sv cfg) (pair_start s0 c0) es"
  obtains p a where "run (pair_step sv cfg) es (pair_start s0 c0) = Inr p" and "calm_rel R limit cfg p a"
    and "length es \<le> (unat (cl_total cfg) + length ss) * (2 * cl_max_data_len cfg + 4)"
proof -
  obtain p where "run (pair_step sv cfg) es (pair_start s0 c0) = Inr p"
      "calm_rel R limit cfg p (fold (server_does sv) es fp_init)"
      "length es + work_left cfg p (fold (server_does sv) es fp_init) \<le> work_left cfg (pair_start s0 c0) fp_init"
    using dwindling.run_dwindles [OF calm_dwindling pair_start_calm(1) [OF assms(1-4)] assms(5)] by blast
  then show thesis using that pair_start_calm(2) [OF assms(1-4)] by simp
qed

lemma calm_admissible:
  "admissible (pair_step sv cfg) (calm_ok sv cfg) p es \<Longrightarrow> admissible (pair_step sv cfg) (pair_ok sv cfg) p es"
  by (induction es arbitrary: p) (auto simp: calm_ok_def split: sum.splits)

text \<open>The three properties, for any server that keeps the contract.\<close>

lemma benchmark_safe:
  assumes "cfg_ok cfg" and "starts_ok cfg ss" and "start_clients cfg ss new_client = Inr c0"
    and "cl_max_data_len cfg \<le> limit"
    and "admissible (pair_step sv cfg) (pair_ok sv cfg) (pair_start s0 c0) es"
  shows "\<exists>p. run (pair_step sv cfg) es (pair_start s0 c0) = Inr p
     \<and> (\<forall>i. upstream p i = [] \<and> downstream p i = []
          \<or> (\<exists>r. r \<noteq> [] \<and> suffix r (payload cfg)
               \<and> (upstream p i = [(2, r)] \<and> downstream p i = [] \<or> upstream p i = [] \<and> downstream p i = [(2, r)])))
     \<and> unat (loop_cnt (pair_client p)) + tally (owed cfg) (conns (pair_client p)) + lost (pair_client p)
         = unat (cl_total cfg)
     \<and> sv_recv_msgs sv (pair_server p) = sv_send_msgs sv (pair_server p)"
proof -
  obtain p a where p: "run (pair_step sv cfg) es (pair_start s0 c0) = Inr p" "pair_rel R limit cfg p a"
    by (rule pair_run [OF assms])
  have "link_ok (payload cfg) (links_of p a) i" for i by (rule links_okD [OF pair_relD(6) [OF p(2)]])
  then have "upstream p i = [] \<and> downstream p i = []
      \<or> (\<exists>r. r \<noteq> [] \<and> suffix r (payload cfg)
           \<and> (upstream p i = [(2, r)] \<and> downstream p i = [] \<or> upstream p i = [] \<and> downstream p i = [(2, r)]))" for i
    using one_message [of "payload cfg" "links_of p a" i] by (simp add: links_of_def)
  moreover have "counts_inv cfg 0 (pair_client p)"
    using pair_relD(2) [OF p(2)] by (simp add: client_inv_def base_inv_def)
  ultimately show ?thesis using p(1) totals [OF pair_relD(5) [OF p(2)]] by (simp add: counts_inv_def)
qed

lemma benchmark_ends:
  assumes "cfg_ok cfg" and "starts_ok cfg ss" and "start_clients cfg ss new_client = Inr c0"
    and "cl_max_data_len cfg \<le> limit"
    and "admissible (pair_step sv cfg) (calm_ok sv cfg) (pair_start s0 c0) es"
  shows "\<exists>p. run (pair_step sv cfg) es (pair_start s0 c0) = Inr p
     \<and> length es \<le> (unat (cl_total cfg) + length ss) * (2 * cl_max_data_len cfg + 4)
     \<and> (stopped (pair_client p) \<or> (\<exists>ev. calm_ok sv cfg p ev))"
proof -
  obtain p a where "run (pair_step sv cfg) es (pair_start s0 c0) = Inr p" "calm_rel R limit cfg p a"
      "length es \<le> (unat (cl_total cfg) + length ss) * (2 * cl_max_data_len cfg + 4)"
    by (rule calm_run [OF assms])
  then show ?thesis using calm_progress by blast
qed

lemma benchmark_figures:
  assumes "cfg_ok cfg" and "starts_ok cfg ss" and "start_clients cfg ss new_client = Inr c0"
    and "cl_max_data_len cfg \<le> limit"
    and "admissible (pair_step sv cfg) (calm_ok sv cfg) (pair_start s0 c0) es"
    and "run (pair_step sv cfg) es (pair_start s0 c0) = Inr p" and "stopped (pair_client p)"
  shows "loop_cnt (pair_client p) = cl_total cfg \<and> lost (pair_client p) = 0
     \<and> length (rtt_hist (pair_client p)) = unat (cl_total cfg)
     \<and> (\<exists>now_ns. rows (pair_client p) = [summary_row cfg now_ns (pair_client p)])
     \<and> sv_recv_msgs sv (pair_server p) = cl_total cfg \<and> sv_send_msgs sv (pair_server p) = cl_total cfg
     \<and> sv_recv_bytes sv (pair_server p) = send_bytes_sum (pair_client p)
     \<and> sv_send_bytes sv (pair_server p) = recv_bytes_sum (pair_client p)
     \<and> (\<forall>i. downstream p i = [])"
proof -
  obtain p' a where "run (pair_step sv cfg) es (pair_start s0 c0) = Inr p'" "calm_rel R limit cfg p' a"
    by (rule calm_run [OF assms(1-5)])
  then have rel: "calm_rel R limit cfg p a" using assms(6) by simp
  then have lost: "lost (pair_client p) = 0" by (simp add: calm_rel_def)
  have client: "admissible (client_step cfg) (client_ok cfg) c0 (client_events es)"
      "run (client_step cfg) (client_events es) c0 = Inr (pair_client p)"
    using client_projection [OF pair_start_rel [OF assms(1-4)] calm_admissible [OF assms(5)] assms(6)]
    by (simp_all add: pair_start_def)
  note complete = client_complete [OF assms(1-3) client assms(7) lost]
  have over: "conn_wire c = Closing" if "conns (pair_client p) i = Some c" for i c using complete that by blast
  have all: "loop_cnt (pair_client p) = cl_total cfg" using complete by blast
  have "downstream p i = []" for i
    using nothing_under_way(1) [OF rel over] by (simp add: echoes_down_def links_of_def fun_eq_iff)
  then show ?thesis using complete lost server_figures [OF rel over all] by simp
qed

lemma benchmark_outcome:
  assumes "cfg_ok cfg" and "starts_ok cfg ss" and "start_clients cfg ss new_client = Inr c0"
    and "cl_max_data_len cfg \<le> limit"
    and "admissible (pair_step sv cfg) (calm_ok sv cfg) (pair_start s0 c0) es"
  shows "\<exists>p. run (pair_step sv cfg) es (pair_start s0 c0) = Inr p
     \<and> length es \<le> (unat (cl_total cfg) + length ss) * (2 * cl_max_data_len cfg + 4)
     \<and> (if stopped (pair_client p)
        then loop_cnt (pair_client p) = cl_total cfg
           \<and> (\<exists>now_ns. rows (pair_client p) = [summary_row cfg now_ns (pair_client p)])
           \<and> sv_recv_msgs sv (pair_server p) = cl_total cfg \<and> sv_send_msgs sv (pair_server p) = cl_total cfg
           \<and> sv_recv_bytes sv (pair_server p) = send_bytes_sum (pair_client p)
           \<and> sv_send_bytes sv (pair_server p) = recv_bytes_sum (pair_client p)
        else \<exists>ev. calm_ok sv cfg p ev)"
proof -
  obtain p where p: "run (pair_step sv cfg) es (pair_start s0 c0) = Inr p"
      "length es \<le> (unat (cl_total cfg) + length ss) * (2 * cl_max_data_len cfg + 4)"
      "stopped (pair_client p) \<or> (\<exists>ev. calm_ok sv cfg p ev)"
    using benchmark_ends [OF assms] by blast
  then show ?thesis using benchmark_figures [OF assms p(1)] by (intro exI [of _ p]) auto
qed

end

text \<open>Each of the three servers with the client is a simulation whose steps use up the work left.\<close>

interpretation fws_bench: dwindling "pair_step (fws_sv scfg) cfg" "calm_ok (fws_sv scfg) cfg"
  "server_does (fws_sv scfg)" "calm_rel (fws_R scfg) (cfg_max_data_len scfg) cfg" "work_left cfg"
  for scfg cfg
  by (rule fws_peer.calm_dwindling)

interpretation uws_bench: dwindling "pair_step uws_sv cfg" "calm_ok uws_sv cfg"
  "server_does uws_sv" "calm_rel (msg_R uws_R) limit cfg" "work_left cfg"
  for limit cfg
  by (rule uws_peer.calm_dwindling)

interpretation tpp_bench: dwindling "pair_step (tpp_sv mx) cfg" "calm_ok (tpp_sv mx) cfg"
  "server_does (tpp_sv mx)" "calm_rel (msg_R echo_refines) limit cfg" "work_left cfg"
  for mx limit cfg
  by (rule tpp_peer.calm_dwindling)

end
