(* ===== verification/BenchmarkProps.thy ===== *)
theory BenchmarkProps
  imports Benchmark
begin

text \<open>
  The benchmark with each of the three servers: what its runs are sure to give, and runs that
  show it.
\<close>

lemma fws_sv_simps [simp]:
  "sv_recv_msgs (fws_sv cfg) s = total_recv_msgs (fs_stats s) (fs_reports s)"
  "sv_recv_bytes (fws_sv cfg) s = total_recv_bytes (fs_stats s) (fs_reports s)"
  "sv_send_msgs (fws_sv cfg) s = total_send_msgs (fs_stats s) (fs_reports s)"
  "sv_send_bytes (fws_sv cfg) s = total_send_bytes (fs_stats s) (fs_reports s)"
  by (simp_all add: fws_sv_def fws_total_def)

lemma msg_sv_simps [simp]:
  "sv_recv_msgs (msg_sv step call lib) s = total_recv_msgs (srv_stats s) (srv_reports s)"
  "sv_recv_bytes (msg_sv step call lib) s = total_recv_bytes (srv_stats s) (srv_reports s)"
  "sv_send_msgs (msg_sv step call lib) s = total_send_msgs (srv_stats s) (srv_reports s)"
  "sv_send_bytes (msg_sv step call lib) s = total_send_bytes (srv_stats s) (srv_reports s)"
  by (simp_all add: msg_sv_def msg_total_def)

section \<open>Samples\<close>

text \<open>In the samples the client's loop counts the connection whose callback runs.\<close>

fun pair_counted :: "'e pair_event \<Rightarrow> bool" where
  "pair_counted (PairClientRead i e) \<longleftrightarrow> rv_socket_count e \<noteq> 0"
| "pair_counted _ \<longleftrightarrow> True"

definition calm_library_ok :: "('s, 'e) server \<Rightarrow> client_cfg \<Rightarrow> 's peers \<Rightarrow> 'e pair_event \<Rightarrow> bool" where
  "calm_library_ok sv cfg p ev \<longleftrightarrow> pair_library_ok sv cfg p ev \<and> calm (links_seen sv p) (move_of sv ev)"


lemma counted_calm:
  assumes "list_all pair_counted es" and "admissible (pair_step sv cfg) (calm_library_ok sv cfg) p es"
  shows "admissible (pair_step sv cfg) (calm_ok sv cfg) p es"
proof (rule admissible_mono)
  show "admissible (pair_step sv cfg) (\<lambda>p e. pair_counted e \<and> calm_library_ok sv cfg p e) p es"
    using assms by (intro admissible_conj) (auto simp: list_all_iff)
next
  fix q e assume "pair_counted e \<and> calm_library_ok sv cfg q e"
  then show "calm_ok sv cfg q e" by (cases e) (auto simp: calm_ok_def calm_library_ok_def client_ok_def)
qed

text \<open>One connection with two messages; with flashws, in parts.\<close>

definition two_cfg :: client_cfg where
  "two_cfg = sample_client_cfg 3 2 2 1"

lemma two_cfg_ok: "cfg_ok two_cfg" "starts_ok two_cfg [sample_start 1]"
  by (simp_all add: two_cfg_def sample_client_cfg_def cfg_ok_def starts_ok_def start_ok_def
      sample_start_def good_rets_def NewWSClient_def room_for_def fresh_for_def blank_def)

definition two_start :: client where
  "two_start = start_of two_cfg [sample_start 1]"

definition sample_benchmark :: "fws_event pair_event list" where
  "sample_benchmark =
     [PairServer (FwsNewConnection 1 sample_buf), PairOpen 1 sample_open,
      PairServer (FwsRead 1 (sample_part 2 [48] False)), PairServer (FwsRead 1 (sample_part 2 [49, 50] True)),
      PairClientRead 1 (sample_recv [48, 49] False 9), PairClientRead 1 (sample_recv [50] True 9),
      PairServer (FwsRead 1 (sample_part 2 [48, 49, 50] True)), PairClientRead 1 (sample_recv [48, 49, 50] True 9),
      PairClientClose 1 1000 2100]"


text \<open>The same with servers of whole messages.\<close>

definition sample_messages :: "'e \<Rightarrow> 'e \<Rightarrow> 'e pair_event list" where
  "sample_messages opens echoes =
     [PairServer opens, PairOpen 1 sample_open,
      PairServer echoes, PairClientRead 1 (sample_recv [48, 49] False 9), PairClientRead 1 (sample_recv [50] True 9),
      PairServer echoes, PairClientRead 1 (sample_recv [48, 49, 50] True 9), PairClientClose 1 1000 2100]"

definition sample_uws :: "uws_event pair_event list" where
  "sample_uws = sample_messages (UwsOpen 1) (UwsMessage 1 (\<lambda>_. 5) (2, [48, 49, 50]) Success)"

definition sample_tpp :: "tpp_event pair_event list" where
  "sample_tpp = sample_messages (TppOpen 1) (TppMessage 1 (\<lambda>_. 5) (2, [48, 49, 50]) False)"

definition ends_well :: "('s, 'e) server \<Rightarrow> 's \<Rightarrow> 'e pair_event list \<Rightarrow> bool" where
  "ends_well sv s es \<longleftrightarrow>
     (case run (pair_step sv two_cfg) es (pair_start s two_start)
      of Inl _ \<Rightarrow> False | Inr p \<Rightarrow> stopped (pair_client p))"

lemma ends_wellE:
  assumes "ends_well sv s es"
  obtains p where "run (pair_step sv two_cfg) es (pair_start s two_start) = Inr p"
    and "stopped (pair_client p)"
  using assms by (auto simp: ends_well_def split: sum.splits)

lemma sample_benchmark_ends: "ends_well (fws_sv sample_cfg) fs_init sample_benchmark"
  by code_simp

lemma sample_uws_ends: "ends_well uws_sv init_server sample_uws"
  by code_simp

lemma sample_tpp_ends: "ends_well (tpp_sv 64) init_server sample_tpp"
  by code_simp

lemma sample_benchmark_calm:
  "admissible (pair_step (fws_sv sample_cfg) two_cfg) (calm_ok (fws_sv sample_cfg) two_cfg)
     (pair_start fs_init two_start) sample_benchmark"
  by (rule counted_calm) code_simp+

lemma sample_uws_calm:
  "admissible (pair_step uws_sv two_cfg) (calm_ok uws_sv two_cfg)
     (pair_start init_server two_start) sample_uws"
  by (rule counted_calm) code_simp+

lemma sample_tpp_calm:
  "admissible (pair_step (tpp_sv 64) two_cfg) (calm_ok (tpp_sv 64) two_cfg)
     (pair_start init_server two_start) sample_tpp"
  by (rule counted_calm) code_simp+


lemmas sample_pair_start = two_cfg_ok start_of [OF two_cfg_ok, folded two_start_def]

lemma sample_fits: "cl_max_data_len two_cfg \<le> cfg_max_data_len sample_cfg"
  by (simp add: two_cfg_def sample_client_cfg_def sample_cfg_def)

section \<open>The flashws server\<close>



text \<open>
  C6. The benchmark ends when no connection breaks: a run in which each read brings bytes takes at
  most \<open>2 * len + 4\<close> callbacks for each message and for each first connection, and until the
  client has stopped its loop there is always one that can happen.
\<close>

theorem fws_benchmark_ends:
  assumes "cfg_ok cfg" and "starts_ok cfg ss" and "start_clients cfg ss new_client = Inr c0"
    and "cl_max_data_len cfg \<le> cfg_max_data_len scfg"
    and "admissible (pair_step (fws_sv scfg) cfg) (calm_ok (fws_sv scfg) cfg) (pair_start fs_init c0) es"
  shows "\<exists>p. run (pair_step (fws_sv scfg) cfg) es (pair_start fs_init c0) = Inr p
     \<and> length es \<le> (unat (cl_total cfg) + length ss) * (2 * cl_max_data_len cfg + 4)
     \<and> (stopped (pair_client p) \<or> (\<exists>ev. calm_ok (fws_sv scfg) cfg p ev))"
  by (rule fws_peer.benchmark_ends [OF assms])

theorem fws_benchmark_ends_witness:
  "\<exists>p. run (pair_step (fws_sv sample_cfg) two_cfg) sample_benchmark
        (pair_start fs_init two_start) = Inr p
     \<and> length sample_benchmark \<le> 30"
  using fws_benchmark_ends [OF sample_pair_start sample_fits sample_benchmark_calm]
  by (auto simp: two_cfg_def sample_client_cfg_def)

text \<open>
  C7. When the benchmark has ended without a broken connection, both programs have the same
  figures: the client has counted and timed all messages and written one row, the server's reports
  and counters together are the same number of messages and bytes, in both directions, and nothing
  is under way to the client.
\<close>

theorem fws_benchmark_figures:
  assumes "cfg_ok cfg" and "starts_ok cfg ss" and "start_clients cfg ss new_client = Inr c0"
    and "cl_max_data_len cfg \<le> cfg_max_data_len scfg"
    and "admissible (pair_step (fws_sv scfg) cfg) (calm_ok (fws_sv scfg) cfg) (pair_start fs_init c0) es"
    and "run (pair_step (fws_sv scfg) cfg) es (pair_start fs_init c0) = Inr p" and "stopped (pair_client p)"
  shows "loop_cnt (pair_client p) = cl_total cfg \<and> lost (pair_client p) = 0
     \<and> length (rtt_hist (pair_client p)) = unat (cl_total cfg)
     \<and> (\<exists>now_ns. rows (pair_client p) = [summary_row cfg now_ns (pair_client p)])
     \<and> total_recv_msgs (fs_stats (pair_server p)) (fs_reports (pair_server p)) = cl_total cfg
     \<and> total_send_msgs (fs_stats (pair_server p)) (fs_reports (pair_server p)) = cl_total cfg
     \<and> total_recv_bytes (fs_stats (pair_server p)) (fs_reports (pair_server p)) = send_bytes_sum (pair_client p)
     \<and> total_send_bytes (fs_stats (pair_server p)) (fs_reports (pair_server p)) = recv_bytes_sum (pair_client p)
     \<and> (\<forall>i. downstream p i = [])"
  using fws_peer.benchmark_figures [OF assms] by simp

theorem fws_benchmark_figures_witness:
  "\<exists>p. run (pair_step (fws_sv sample_cfg) two_cfg) sample_benchmark
        (pair_start fs_init two_start) = Inr p
     \<and> stopped (pair_client p) \<and> loop_cnt (pair_client p) = 2
     \<and> total_recv_msgs (fs_stats (pair_server p)) (fs_reports (pair_server p)) = 2"
proof (rule ends_wellE [OF sample_benchmark_ends])
  fix p assume p: "run (pair_step (fws_sv sample_cfg) two_cfg) sample_benchmark
        (pair_start fs_init two_start) = Inr p" "stopped (pair_client p)"
  show ?thesis
    using fws_benchmark_figures [OF sample_pair_start sample_fits sample_benchmark_calm p] p
    by (auto simp: two_cfg_def sample_client_cfg_def)
qed

section \<open>The uWebSockets and websocketpp servers\<close>

text \<open>
  C8. The flashws client against the uWebSockets server, when the library delivers and drops no
  message: the benchmark ends within the same number of callbacks, it is never stuck before the
  client has stopped, and then the server's figures are those of the client.
\<close>

theorem uws_benchmark_outcome:
  assumes "cfg_ok cfg" and "starts_ok cfg ss" and "start_clients cfg ss new_client = Inr c0"
    and "admissible (pair_step uws_sv cfg) (calm_ok uws_sv cfg) (pair_start init_server c0) es"
  shows "\<exists>p. run (pair_step uws_sv cfg) es (pair_start init_server c0) = Inr p
     \<and> length es \<le> (unat (cl_total cfg) + length ss) * (2 * cl_max_data_len cfg + 4)
     \<and> (if stopped (pair_client p)
        then loop_cnt (pair_client p) = cl_total cfg
           \<and> (\<exists>now_ns. rows (pair_client p) = [summary_row cfg now_ns (pair_client p)])
           \<and> total_recv_msgs (srv_stats (pair_server p)) (srv_reports (pair_server p)) = cl_total cfg
           \<and> total_send_msgs (srv_stats (pair_server p)) (srv_reports (pair_server p)) = cl_total cfg
           \<and> total_recv_bytes (srv_stats (pair_server p)) (srv_reports (pair_server p)) = send_bytes_sum (pair_client p)
           \<and> total_send_bytes (srv_stats (pair_server p)) (srv_reports (pair_server p)) = recv_bytes_sum (pair_client p)
        else \<exists>ev. calm_ok uws_sv cfg p ev)"
  using uws_peer.benchmark_outcome [OF assms(1-3) order_refl assms(4)]
  by (simp only: uws_sv_def msg_sv_simps)

theorem uws_benchmark_outcome_witness:
  "\<exists>p. run (pair_step uws_sv two_cfg) sample_uws (pair_start init_server two_start) = Inr p
     \<and> stopped (pair_client p) \<and> total_send_msgs (srv_stats (pair_server p)) (srv_reports (pair_server p)) = 2"
proof (rule ends_wellE [OF sample_uws_ends])
  fix p assume p: "run (pair_step uws_sv two_cfg) sample_uws (pair_start init_server two_start) = Inr p"
    "stopped (pair_client p)"
  show ?thesis
    using uws_benchmark_outcome [OF sample_pair_start sample_uws_calm] p
    by (auto simp: two_cfg_def sample_client_cfg_def)
qed

text \<open>
  C9. The same with the websocketpp server, when no send throws: its handler counts a message that
  it could not send back as received only.
\<close>

theorem tpp_benchmark_outcome:
  assumes "cfg_ok cfg" and "starts_ok cfg ss" and "start_clients cfg ss new_client = Inr c0"
    and "admissible (pair_step (tpp_sv mx) cfg) (calm_ok (tpp_sv mx) cfg) (pair_start init_server c0) es"
  shows "\<exists>p. run (pair_step (tpp_sv mx) cfg) es (pair_start init_server c0) = Inr p
     \<and> length es \<le> (unat (cl_total cfg) + length ss) * (2 * cl_max_data_len cfg + 4)
     \<and> (if stopped (pair_client p)
        then loop_cnt (pair_client p) = cl_total cfg
           \<and> (\<exists>now_ns. rows (pair_client p) = [summary_row cfg now_ns (pair_client p)])
           \<and> total_recv_msgs (srv_stats (pair_server p)) (srv_reports (pair_server p)) = cl_total cfg
           \<and> total_send_msgs (srv_stats (pair_server p)) (srv_reports (pair_server p)) = cl_total cfg
           \<and> total_recv_bytes (srv_stats (pair_server p)) (srv_reports (pair_server p)) = send_bytes_sum (pair_client p)
           \<and> total_send_bytes (srv_stats (pair_server p)) (srv_reports (pair_server p)) = recv_bytes_sum (pair_client p)
        else \<exists>ev. calm_ok (tpp_sv mx) cfg p ev)"
  using tpp_peer.benchmark_outcome [OF assms(1-3) order_refl assms(4)]
  by (simp only: tpp_sv_def msg_sv_simps)

theorem tpp_benchmark_outcome_witness:
  "\<exists>p. run (pair_step (tpp_sv 64) two_cfg) sample_tpp (pair_start init_server two_start) = Inr p
     \<and> stopped (pair_client p) \<and> total_send_msgs (srv_stats (pair_server p)) (srv_reports (pair_server p)) = 2"
proof (rule ends_wellE [OF sample_tpp_ends])
  fix p assume p: "run (pair_step (tpp_sv 64) two_cfg) sample_tpp (pair_start init_server two_start) = Inr p"
    "stopped (pair_client p)"
  show ?thesis
    using tpp_benchmark_outcome [OF sample_pair_start sample_tpp_calm] p
    by (auto simp: two_cfg_def sample_client_cfg_def)
qed

end
