(* ===== verification/Spec2Isabelle.thy ===== *)
theory Spec2Isabelle
  imports UwsClient HashExceptions BenchmarkProps
begin

text \<open>
  ws-benchmark: a set of WebSocket and TCP echo servers and a benchmark client, one program
  per networking library. Each program is an event-driven state machine on top of a library
  that is not in the repository; what is verified is the code between the library's
  callbacks and the state the program keeps.

  The parts of the program, the theory that models each, and what is shown.

  \<^item> \<open>UsEcho\<close>: \<^verbatim>\<open>src/usockets-tcp/echo_server.cpp\<close>. The records \<open>buffer\<close>, \<open>echo_socket\<close> and
    \<open>us_globals\<close> are \<^verbatim>\<open>Buffer\<close>, \<^verbatim>\<open>echo_socket\<close> and the globals; the functions have the names of
    the handlers; \<open>us_step\<close> is the dispatch that \<^verbatim>\<open>main\<close> registers. Shown: the echo is exact and
    in order, the connection counters and statistics are, a backlog drains, and two inputs
    for which the server corrupts memory or data.
  \<^item> \<open>HttpsClient\<close>: \<^verbatim>\<open>src/usockets-tcp/https_client.cpp\<close>, all handlers. The request is sent as a
    prefix that grows to the whole, without signed overflow.
  \<^item> \<open>MsgEcho\<close>: \<^verbatim>\<open>src/uwebsockets/echo_server.cpp\<close> (\<open>uws_\<dots>\<close>) and
    \<^verbatim>\<open>src/websocketpp/echo_server.cpp\<close> (\<open>tpp_\<dots>\<close>), which refine one abstract server of unbounded
    counters, and report when they should.
  \<^item> \<open>FwsServer\<close>: \<^verbatim>\<open>src/flashws/echo_server.cpp\<close>; refines an abstract server with unbounded
    reassembly buffers, which the buffers of \<open>IoBuf\<close> implement within their capacity.
  \<^item> \<open>FwsClient\<close> and \<open>FwsClientProps\<close>: \<^verbatim>\<open>src/flashws/echo_client.cpp\<close>. \<open>client\<close> is
    \<^verbatim>\<open>ContextClass\<close> with the loop's connections; the callbacks have the names of the source. The
    invariant keeps the books of messages, bytes and frames over all connections and their
    replacements. Shown: no fault, the payload is never corrupted, the benchmark ends, what
    its row says is true; and how it hangs or closes its file twice.
  \<^item> The benchmark as a whole, the flashws client against a server, in seven theories. \<open>EchoPeer\<close>: the
    contract of a server (\<open>echo_peer\<close>), which those of \<open>FwsServer\<close> and \<open>MsgEcho\<close> keep; they are the
    three that \<^verbatim>\<open>tools/bench_ws.py\<close> starts. \<open>BenchPair\<close>: \<open>peers\<close> is the client, a server and the
    frames under way between them; \<open>pair_step\<close> runs a callback of one side (\<open>client_step\<close>, \<open>fws_step\<close>,
    \<open>uws_step\<close>, \<open>tpp_step\<close>) and puts what it has sent on the way to the other. \<open>BenchLinks\<close>: the
    protocol on the connections as a step relation, with its invariant and its measure.
    \<open>BenchPairProps\<close>: the programs implement the protocol, each being the peer that the other was
    verified against. \<open>BenchEnds\<close>: the books of both sides, and the work that is left. \<open>Benchmark\<close>
    and \<open>BenchmarkProps\<close>: the benchmark never fails, it ends when no connection breaks, and both
    programs then have the same figures.
  \<^item> \<open>Beast\<close>: \<^verbatim>\<open>src/boost-beast/echo_server.cpp\<close>, sessions and listener as a step relation
    over completions of asynchronous operations, with invariants by rule induction.
  \<^item> \<open>Startup\<close>: the \<^verbatim>\<open>main\<close> of each program, from the argument strings to the configuration the
    components run with, with the narrowing conversions on the way.
  \<^item> \<open>UwsClient\<close>: \<^verbatim>\<open>src/uwebsockets/echo_client.cpp\<close>, start and handlers. Shown: what a
    connection sends, and the one average it prints, with its error.
  \<^item> The hash map that the uSockets server includes, \<^verbatim>\<open>src/usockets-tcp/flat_hash_map.h\<close>, first as
    a value, in eight theories. \<open>HashBits\<close>: \<^verbatim>\<open>log2\<close> and \<^verbatim>\<open>next_power_of_two\<close> against the logarithm and the least
    power of two. \<open>HashPolicy\<close>: the three policies behind one interface. \<open>HashEntries\<close>: the array
    of entries and the loops over it; \<open>HashRobin\<close>: the order of the entries and what each loop does
    to it and to the contents. \<open>HashTable\<close>: \<open>table\<close> is \<^verbatim>\<open>sherwood_v3_table\<close>, with all operations, and
    those of \<^verbatim>\<open>flat_hash_map\<close> and \<^verbatim>\<open>flat_hash_set\<close>. \<open>HashMap\<close>: the invariant, allocation, growth and
    insertion; \<open>HashMapProps\<close>: every operation against the finite map of the contents, and the
    simulation; \<open>FlatHashMap\<close>: the properties of runs, comparison, copies and ranges, and a request
    that is too large.
  \<^item> The same hash map with its memory and its exceptions, in seven theories. \<open>HashHeap\<close>: a heap of
    blocks, \<open>container\<close> (a \<open>table\<close> with its block and its allocator), and every operation again
    (\<open>\<dots>_held\<close>), constructors, destructor, moves and assignments included, as a computation that
    returns, throws or faults, with the state it leaves. \<open>HashHeapProps\<close>: each refines the operation
    on values (\<open>tracks\<close>) and leaves the blocks of other maps alone. \<open>HashThrows\<close>: what an exception
    leaves. \<open>HashBuild\<close>: construction, destruction, assignment. \<open>HashStore\<close> and \<open>HashStoreProps\<close>: a
    client of any number of maps on one heap, its invariant (\<open>store_inv\<close>) and its refinement to maps
    as values. \<open>HashExceptions\<close>: the properties, and four ways in which an exception or a move does
    damage.
  \<^item> \<open>Stats\<close> and \<open>Double\<close>: the interval statistics that the four \<^verbatim>\<open>CountStats\<close> share, in 64-bit
    words, and the binary64 arithmetic of the figures they print, with its relative error.
  \<^item> \<open>Prelude\<close>: word types, errors, fallible steps, bounds-checked copies, and runs of
    event-driven components.
  \<^item> This theory: properties that span components, from the command line to the books of the
    client, and one frame of the client through the server.

  Interfaces. \<open>safe_machine\<close> (an invariant that every admissible event keeps, and no fault),
  \<open>total_machine\<close>, \<open>simulation\<close> and \<open>dwindling\<close> (a simulation that uses up a stock) in \<open>Prelude\<close>, \<open>reporter\<close> and \<open>periodic_reporter\<close> in \<open>Stats\<close>,
  \<open>reassembly_buffer\<close> in \<open>IoBuf\<close>, \<open>slot_policy\<close> in \<open>HashPolicy\<close>, \<open>echo_peer\<close> in \<open>EchoPeer\<close>. Each
  component interprets the ones it provides on its own definitions, and the properties rest on the
  interpreted facts.

  Conventions. A fault (a copy past a block, the use of a moved buffer, an abort, a second
  \<^verbatim>\<open>fclose\<close>, a signed overflow) is the left value of a sum; a run stops at the first one, and a
  theorem that a run is fault-free gives its result. A component's \<open>\<dots>_ok\<close> says what the library
  and the peer promise: writes accept a prefix of what they are offered, allocations are as
  large as requested, callbacks come only for open connections, the peer of the benchmark
  client echoes. The last, and that messages fit the buffers of the flashws server, is not assumed
  but shown where the two run together: \<open>pair_ok\<close> speaks of the library only, and \<open>calm_ok\<close> adds that
  no connection breaks and that a read brings bytes. Every property with such a hypothesis has a witness, a concrete run. Loops
  over events are recursion over the list of events, so there is no fuel; the
  properties on completion bound the number of events, \<open>us_backlog_drains\<close> and
  \<open>https_request_completes\<close> by the number of bytes left, which each write that takes a byte makes
  smaller, and \<open>fws_benchmark_ends\<close> by the messages owed and the bytes under way (\<open>work_left\<close>). The
  loops over the entries of the hash map end at the latest with the array, reading past which is
  a fault. \<^verbatim>\<open>emplace\<close> and \<^verbatim>\<open>rehash\<close> call each other with fuel 64: each level at least doubles the
  table, from 2 slots on, and no array has more than \<open>2\<^sup>4\<^sup>7\<close> entries (\<open>alloc_ok\<close>); \<open>hash_map_returns\<close>
  shows that it is enough. In the first model of the map the state after \<^verbatim>\<open>std::bad_alloc\<close> is not
  described; in the second it is the state of \<open>Throws\<close>. Whether an allocation fails depends on its
  size (\<open>can_allocate\<close>).

  Widths. Counters are 64-bit words and wrap. Sizes of buffers and of messages are natural
  numbers, since they are bounded by the memory they describe; \<^verbatim>\<open>int\<close> values returned by
  libraries are integers; the connection counters are integers bounded by the number of open
  connections. Doubles are the rationals they denote with rounding to 53 bits and without
  bounds on the exponent.

  Not modelled: the libraries themselves, TLS set-up beyond its result, printing other than
  the values printed, sleeping; of the hash map (whose only uses in the repository are commented
  out), the forwarding of arguments, hash functions and key comparisons with a state or that throw,
  values whose copy throws, \<^verbatim>\<open>load_factor()\<close> and \<^verbatim>\<open>max_size()\<close>, which nothing calls; build files,
  configurations and scripts. The address constant that \<^verbatim>\<open>src/uwebsockets/echo_client.cpp\<close>
  refers to is commented out, and a parameter.
\<close>

section \<open>Properties that span components\<close>




text \<open>
  The flashws server keeps the promise that the benchmark client relies on: a frame the
  client has sent, delivered to the server in any parts on a connection with nothing
  pending, is sent back as the one frame it was, the client's payload under the client's
  opcode.
\<close>

theorem fws_pair_echoes:
  assumes "cfg_ok ccfg" and "starts_ok ccfg ss" and "start_clients ccfg ss new_client = Inr c0"
    and "admissible (client_step ccfg) (client_ok ccfg) c0 ces" and "run (client_step ccfg) ces c0 = Inr c"
    and "(j, opcode, f) \<in> set (frames c)"
    and "admissible (fws_step cfg) (fws_ok cfg) fs_init (es @ map (FwsRead i) (parts @ [last_part]))"
    and "run (fws_step cfg) es fs_init = Inr s"
    and "fp_partial (fold fws_spec_step es fp_init) i = Some []"
    and "\<And>e. e \<in> set parts \<Longrightarrow> continues e" and "completes last_part"
    and "concat (map re_part (parts @ [last_part])) = f" and "re_opcode last_part = ucast opcode"
  shows "\<exists>s'. run (fws_step cfg) (map (FwsRead i) (parts @ [last_part])) s = Inr s'
     \<and> fs_out s' i = fs_out s i @ [(2, payload ccfg)]"
proof -
  have "client_inv ccfg c" using client_run [OF assms(1-4)] assms(5) by (metis sum.inject(2))
  then have "opcode = 2" "f = payload ccfg"
    using assms(6) by (auto simp: client_inv_def base_inv_def data_inv_def)
  with reassembles [OF assms(7-11)] assms(12,13) show ?thesis by simp
qed

theorem fws_pair_echoes_witness:
  "\<exists>s s'. run (fws_step sample_cfg) [FwsNewConnection 4 sample_buf] fs_init = Inr s
     \<and> run (fws_step sample_cfg) (map (FwsRead 4) ([sample_part 2 [48] False] @ [sample_part 2 [49, 50] True])) s = Inr s'
     \<and> fs_out s' 4 = fs_out s 4 @ [(2, payload lives_cfg)]"
proof -
  have "case run (client_step lives_cfg) sample_lives (start_of lives_cfg [sample_start 1])
        of Inl _ \<Rightarrow> False | Inr c \<Rightarrow> (1, 2, [48, 49, 50]) \<in> set (frames c)"
    by code_simp
  then obtain c where c: "run (client_step lives_cfg) sample_lives (start_of lives_cfg [sample_start 1]) = Inr c"
      "(1, 2, [48, 49, 50]) \<in> set (frames c)"
    by (auto split: sum.splits)
  have adm: "admissible (fws_step sample_cfg) (fws_ok sample_cfg) fs_init
      ([FwsNewConnection 4 sample_buf] @
       map (FwsRead 4) ([sample_part 2 [48] False] @ [sample_part 2 [49, 50] True]))"
    by code_simp
  show ?thesis
    using fws_pair_echoes [OF sample_cfgs_ok(1) sample_starts_ok(1) start_of [OF sample_cfgs_ok(1) sample_starts_ok(1)]
        sample_lives_admissible c adm]
    by (simp add: fp_init_def continues_def completes_def sample_part_def)
qed

end
